(* ===== verification/Prelude.thy ===== *)
theory Prelude
  imports Main "HOL-Library.Word" "HOL-Library.Multiset"
begin

text \<open>
  Shared vocabulary of the development.

  \<^item> Kernel failures.  A failed \<open>ASSERT\<close>, an explicit \<open>PANIC\<close>, a divide error and an access through a
    pointer that designates no object stop the kernel.  They are values of type \<open>kerror\<close>,
    and an operation that can stop the kernel returns \<open>'a res\<close>, that is
    \<open>kerror + 'a\<close>.  The error codes of the source (a null pointer, \<open>-1\<close>, \<open>false\<close>,
    \<open>BITMAP_ERROR\<close>) are ordinary return values, not kernel failures.
  \<^item> \<open>ebind\<close> sequences two such operations; \<open>kassert\<close> is the macro \<open>ASSERT\<close>.
  \<^item> Machine integers: \<open>uint8_t\<close>, \<open>uint32_t\<close> (also \<open>size_t\<close>, pointers and
    \<open>unsigned long\<close> of the 32-bit target) and \<open>uint64_t\<close> as words.
  \<^item> Generic list lemmas used by more than one component.
\<close>

section \<open>Kernel failures\<close>

datatype kerror = Assert_failed | Panic string | Bad_access | Divide_error | Out_of_fuel

type_synonym 'a res = "kerror + 'a"

definition ebind :: "'e + 'a \<Rightarrow> ('a \<Rightarrow> 'e + 'b) \<Rightarrow> 'e + 'b" where
  "ebind m f = (case m of Inl e \<Rightarrow> Inl e | Inr x \<Rightarrow> f x)"

definition kassert :: "bool \<Rightarrow> unit res" where
  "kassert b = (if b then Inr () else Inl Assert_failed)"

lemma ebind_Inl [simp]: "ebind (Inl e) f = Inl e"
  by (simp add: ebind_def)

lemma ebind_Inr [simp]: "ebind (Inr x) f = f x"
  by (simp add: ebind_def)

lemma ebind_eq_Inr: "ebind m f = Inr y \<longleftrightarrow> (\<exists>x. m = Inr x \<and> f x = Inr y)"
  by (cases m) simp_all

lemma ebind_InrE [elim]:
  assumes "ebind m f = Inr y"
  obtains x where "m = Inr x" and "f x = Inr y"
  using assms by (auto simp: ebind_eq_Inr)

lemma ebind_assoc: "ebind (ebind m f) g = ebind m (\<lambda>x. ebind (f x) g)"
  by (cases m) simp_all

lemma ebind_cong [fundef_cong]:
  assumes "m = m'" and "\<And>x. m' = Inr x \<Longrightarrow> f x = f' x"
  shows "ebind m f = ebind m' f'"
  using assms by (cases m') simp_all

text \<open>The simplifier evaluates the first operation before it looks at the continuation.\<close>

lemma ebind_weak_cong [cong]: "m = m' \<Longrightarrow> ebind m f = ebind m' f"
  by simp

lemma kassert_True [simp]: "kassert True = Inr ()"
  by (simp add: kassert_def)

lemma kassert_False [simp]: "kassert False = Inl Assert_failed"
  by (simp add: kassert_def)

lemma kassert_eq_Inr [simp]: "kassert b = Inr u \<longleftrightarrow> b"
  by (simp add: kassert_def)

section \<open>Machine integers\<close>

type_synonym u8 = "8 word"
type_synonym u16 = "16 word"
type_synonym u32 = "32 word"
type_synonym u64 = "64 word"

lemma unat_lt_size: "unat a < 2 ^ LENGTH('a)" for a :: "'a::len word"
  by (rule unsigned_less)

lemma unat_add_le: "unat a + unat b < 2 ^ LENGTH('a) \<Longrightarrow> unat (a + b) = unat a + unat b"
  for a b :: "'a::len word"
  by (simp add: unat_plus_if')

lemma unat_plus_one: "i < c \<Longrightarrow> unat (i + 1) = Suc (unat i)" for i c :: "'a::len word"
proof -
  assume "i < c"
  then have "unat i + unat (1 :: 'a word) < 2 ^ LENGTH('a)"
    using unat_lt_size[of c] unfolding word_less_nat_alt unat_1 by linarith
  then show ?thesis by (simp add: unat_add_le)
qed

section \<open>Little-endian bytes\<close>

definition le32 :: "u32 \<Rightarrow> u8 list" where
  "le32 w = [ucast w, ucast (drop_bit 8 w), ucast (drop_bit 16 w), ucast (drop_bit 24 w)]"

definition word_of_le :: "u8 \<Rightarrow> u8 \<Rightarrow> u8 \<Rightarrow> u8 \<Rightarrow> u32" where
  "word_of_le a b c d =
     or (ucast a) (or (push_bit 8 (ucast b)) (or (push_bit 16 (ucast c)) (push_bit 24 (ucast d))))"

definition bytes_of_words :: "u32 list \<Rightarrow> u8 list" where
  "bytes_of_words ws = concat (map le32 ws)"

fun words_of_bytes :: "u8 list \<Rightarrow> u32 list" where
  "words_of_bytes (a # b # c # d # bs) = word_of_le a b c d # words_of_bytes bs"
| "words_of_bytes _ = []"

lemma length_le32 [simp]: "length (le32 w) = 4"
  by (simp add: le32_def)

lemma word_of_le_le32:
  "word_of_le (ucast w) (ucast (drop_bit 8 w)) (ucast (drop_bit 16 w)) (ucast (drop_bit 24 w)) = w"
proof (rule bit_word_eqI)
  fix n assume "n < LENGTH(32)"
  then have "n < 8 \<or> (8 \<le> n \<and> n < 16) \<or> (16 \<le> n \<and> n < 24) \<or> (24 \<le> n \<and> n < 32)" by auto
  then show "bit (word_of_le (ucast w) (ucast (drop_bit 8 w)) (ucast (drop_bit 16 w)) (ucast (drop_bit 24 w))) n
      \<longleftrightarrow> bit w n"
    by (elim disjE) (auto simp: word_of_le_def bit_simps)
qed

lemma length_bytes_of_words [simp]: "length (bytes_of_words ws) = 4 * length ws"
  by (induction ws) (simp_all add: bytes_of_words_def)

lemma words_of_bytes_of_words [simp]: "words_of_bytes (bytes_of_words ws) = ws"
  by (induction ws) (simp_all add: bytes_of_words_def le32_def word_of_le_le32)

section \<open>Lists\<close>

lemma hd_append_cons [simp]: "hd (xs @ y # ys) = (if xs = [] then y else hd xs)"
  by (cases xs) simp_all

lemma find_upt_step: "i < n \<Longrightarrow> find P [i..<n] = (if P i then Some i else find P [Suc i..<n])"
  by (simp add: upt_conv_Cons)

lemma find_upt_Some:
  "find P [k..<n] = Some i \<longleftrightarrow> k \<le> i \<and> i < n \<and> P i \<and> (\<forall>j. k \<le> j \<and> j < i \<longrightarrow> \<not> P j)"
proof (induction "n - k" arbitrary: k)
  case (Suc m)
  then have "k < n" and IH: "find P [Suc k..<n] = Some i \<longleftrightarrow>
      Suc k \<le> i \<and> i < n \<and> P i \<and> (\<forall>j. Suc k \<le> j \<and> j < i \<longrightarrow> \<not> P j)"
    by simp_all
  then show ?case
    by (cases "P k") (auto simp: find_upt_step less_Suc_eq_le not_less_eq_eq Suc_le_eq
        intro: le_neq_implies_less le_antisym)
qed auto

lemma find_upt_restrict:
  assumes "\<And>i. i \<ge> m \<Longrightarrow> \<not> P i" "m \<le> n"
  shows "find P [k..<n] = find P [k..<m]"
proof (cases "find P [k..<m]")
  case None
  then have "find P [k..<n] = None" using assms(1) by (force simp: find_None_iff not_less)
  then show ?thesis using None by simp
next
  case (Some i)
  then have "find P [k..<n] = Some i" using assms(2) by (auto simp: find_upt_Some)
  then show ?thesis using Some by simp
qed

lemma butlast_not_last:
  assumes "distinct xs" "p \<in> set (butlast xs)"
  shows "p \<in> set xs" and "p \<noteq> List.last xs"
  using assms by (cases xs rule: rev_cases; auto)+

end
