(* ===== verification/Klist.thy ===== *)
theory Klist
  imports Prelude
begin

text \<open>
  The kernel's doubly linked lists, \<open>src/lib/kernel/list.c\<close> and \<open>list.h\<close>.

  The memory that holds list elements is a partial map from addresses to
  \<open>struct list_elem\<close>; address 0 is \<open>NULL\<close>.  Reading or writing a field of an object
  that is not there is \<open>Bad_access\<close>.  A \<open>struct list\<close> at address \<open>l\<close> has its
  \<open>head\<close> at \<open>l\<close> and its \<open>tail\<close> at \<open>l + 8\<close> (a \<open>struct list_elem\<close> is two
  32-bit pointers).  The comparison callback with its auxiliary datum is one function
  \<open>lt\<close> on element addresses.  Every loop that walks a list takes an iteration bound
  as its first argument and is \<open>Out_of_fuel\<close> beyond it; the theorems below show that a
  bound larger than the length of a well-formed list (by two for \<open>list_sort\<close>) is never
  reached.

  \<open>list_rep h l xs\<close> says that in memory \<open>h\<close> the list \<open>l\<close> consists of the elements
  \<open>xs\<close>, from front to back.  The theorems state what every operation does to \<open>xs\<close>,
  and that it touches no other memory.
\<close>

section \<open>Memory\<close>

type_synonym ptr = u32

abbreviation (input) NULL :: ptr where
  "NULL \<equiv> 0"

record list_elem =
  prv :: ptr
  nxt :: ptr

type_synonym lheap = "ptr \<Rightarrow> list_elem option"

definition get_elem :: "lheap \<Rightarrow> ptr \<Rightarrow> list_elem res" where
  "get_elem h p = (case h p of None \<Rightarrow> Inl Bad_access | Some e \<Rightarrow> Inr e)"

definition put_prev :: "ptr \<Rightarrow> ptr \<Rightarrow> lheap \<Rightarrow> lheap res" where
  "put_prev p v h = ebind (get_elem h p) (\<lambda>e. Inr (h(p \<mapsto> e\<lparr>prv := v\<rparr>)))"

definition put_next :: "ptr \<Rightarrow> ptr \<Rightarrow> lheap \<Rightarrow> lheap res" where
  "put_next p v h = ebind (get_elem h p) (\<lambda>e. Inr (h(p \<mapsto> e\<lparr>nxt := v\<rparr>)))"

definition get_prev :: "ptr \<Rightarrow> lheap \<Rightarrow> ptr res" where
  "get_prev p h = ebind (get_elem h p) (\<lambda>e. Inr (prv e))"

definition get_next :: "ptr \<Rightarrow> lheap \<Rightarrow> ptr res" where
  "get_next p h = ebind (get_elem h p) (\<lambda>e. Inr (nxt e))"

definition list_head :: "ptr \<Rightarrow> ptr" where
  "list_head l = l"

definition list_tail :: "ptr \<Rightarrow> ptr" where
  "list_tail l = l + 8"

section \<open>The operations of list.c\<close>

definition is_head :: "ptr \<Rightarrow> lheap \<Rightarrow> bool res" where
  "is_head e h =
     (if e = NULL then Inr False
      else ebind (get_elem h e) (\<lambda>x. Inr (prv x = NULL \<and> nxt x \<noteq> NULL)))"

definition is_interior :: "ptr \<Rightarrow> lheap \<Rightarrow> bool res" where
  "is_interior e h =
     (if e = NULL then Inr False
      else ebind (get_elem h e) (\<lambda>x. Inr (prv x \<noteq> NULL \<and> nxt x \<noteq> NULL)))"

definition is_tail :: "ptr \<Rightarrow> lheap \<Rightarrow> bool res" where
  "is_tail e h =
     (if e = NULL then Inr False
      else ebind (get_elem h e) (\<lambda>x. Inr (prv x \<noteq> NULL \<and> nxt x = NULL)))"

definition list_init :: "ptr \<Rightarrow> lheap \<Rightarrow> lheap res" where
  "list_init l h =
     ebind (kassert (l \<noteq> NULL)) (\<lambda>_.
     ebind (put_prev (list_head l) NULL h) (\<lambda>h.
     ebind (put_next (list_head l) (list_tail l) h) (\<lambda>h.
     ebind (put_prev (list_tail l) (list_head l) h) (\<lambda>h.
     put_next (list_tail l) NULL h))))"

definition list_begin :: "ptr \<Rightarrow> lheap \<Rightarrow> ptr res" where
  "list_begin l h = ebind (kassert (l \<noteq> NULL)) (\<lambda>_. get_next (list_head l) h)"

definition list_next :: "ptr \<Rightarrow> lheap \<Rightarrow> ptr res" where
  "list_next e h =
     ebind (is_head e h) (\<lambda>a. ebind (is_interior e h) (\<lambda>b.
     ebind (kassert (a \<or> b)) (\<lambda>_. get_next e h)))"

definition list_end :: "ptr \<Rightarrow> ptr res" where
  "list_end l = ebind (kassert (l \<noteq> NULL)) (\<lambda>_. Inr (list_tail l))"

definition list_rbegin :: "ptr \<Rightarrow> lheap \<Rightarrow> ptr res" where
  "list_rbegin l h = ebind (kassert (l \<noteq> NULL)) (\<lambda>_. get_prev (list_tail l) h)"

definition list_prev :: "ptr \<Rightarrow> lheap \<Rightarrow> ptr res" where
  "list_prev e h =
     ebind (is_interior e h) (\<lambda>a. ebind (is_tail e h) (\<lambda>b.
     ebind (kassert (a \<or> b)) (\<lambda>_. get_prev e h)))"

definition list_rend :: "ptr \<Rightarrow> ptr res" where
  "list_rend l = ebind (kassert (l \<noteq> NULL)) (\<lambda>_. Inr (list_head l))"

definition list_insert :: "ptr \<Rightarrow> ptr \<Rightarrow> lheap \<Rightarrow> lheap res" where
  "list_insert before elem h =
     ebind (is_interior before h) (\<lambda>a. ebind (is_tail before h) (\<lambda>b.
     ebind (kassert (a \<or> b)) (\<lambda>_.
     ebind (kassert (elem \<noteq> NULL)) (\<lambda>_.
     ebind (get_prev before h) (\<lambda>bp.
     ebind (put_prev elem bp h) (\<lambda>h.
     ebind (put_next elem before h) (\<lambda>h.
     ebind (get_prev before h) (\<lambda>bp.
     ebind (put_next bp elem h) (\<lambda>h.
     put_prev before elem h)))))))))"

definition list_splice :: "ptr \<Rightarrow> ptr \<Rightarrow> ptr \<Rightarrow> lheap \<Rightarrow> lheap res" where
  "list_splice before first lst h =
     ebind (is_interior before h) (\<lambda>a. ebind (is_tail before h) (\<lambda>b.
     ebind (kassert (a \<or> b)) (\<lambda>_.
     if first = lst then Inr h
     else
       ebind (list_prev lst h) (\<lambda>lst.
       ebind (is_interior first h) (\<lambda>a. ebind (kassert a) (\<lambda>_.
       ebind (is_interior lst h) (\<lambda>a. ebind (kassert a) (\<lambda>_.
       ebind (get_prev first h) (\<lambda>fp. ebind (get_next lst h) (\<lambda>ln.
       ebind (put_next fp ln h) (\<lambda>h.
       ebind (get_next lst h) (\<lambda>ln. ebind (get_prev first h) (\<lambda>fp.
       ebind (put_prev ln fp h) (\<lambda>h.
       ebind (get_prev before h) (\<lambda>bp.
       ebind (put_prev first bp h) (\<lambda>h.
       ebind (put_next lst before h) (\<lambda>h.
       ebind (get_prev before h) (\<lambda>bp.
       ebind (put_next bp first h) (\<lambda>h.
       put_prev before lst h)))))))))))))))))))"

definition list_push_front :: "ptr \<Rightarrow> ptr \<Rightarrow> lheap \<Rightarrow> lheap res" where
  "list_push_front l elem h = ebind (list_begin l h) (\<lambda>b. list_insert b elem h)"

definition list_push_back :: "ptr \<Rightarrow> ptr \<Rightarrow> lheap \<Rightarrow> lheap res" where
  "list_push_back l elem h = ebind (list_end l) (\<lambda>b. list_insert b elem h)"

definition list_remove :: "ptr \<Rightarrow> lheap \<Rightarrow> (ptr \<times> lheap) res" where
  "list_remove elem h =
     ebind (is_interior elem h) (\<lambda>a. ebind (kassert a) (\<lambda>_.
     ebind (get_prev elem h) (\<lambda>ep. ebind (get_next elem h) (\<lambda>en.
     ebind (put_next ep en h) (\<lambda>h.
     ebind (get_next elem h) (\<lambda>en. ebind (get_prev elem h) (\<lambda>ep.
     ebind (put_prev en ep h) (\<lambda>h.
     ebind (get_next elem h) (\<lambda>en. Inr (en, h))))))))))"

definition list_empty :: "ptr \<Rightarrow> lheap \<Rightarrow> bool res" where
  "list_empty l h = ebind (list_begin l h) (\<lambda>b. ebind (list_end l) (\<lambda>e. Inr (b = e)))"

definition list_front :: "ptr \<Rightarrow> lheap \<Rightarrow> ptr res" where
  "list_front l h =
     ebind (list_empty l h) (\<lambda>e. ebind (kassert (\<not> e)) (\<lambda>_. get_next (list_head l) h))"

definition list_back :: "ptr \<Rightarrow> lheap \<Rightarrow> ptr res" where
  "list_back l h =
     ebind (list_empty l h) (\<lambda>e. ebind (kassert (\<not> e)) (\<lambda>_. get_prev (list_tail l) h))"

definition list_pop_front :: "ptr \<Rightarrow> lheap \<Rightarrow> (ptr \<times> lheap) res" where
  "list_pop_front l h =
     ebind (list_front l h) (\<lambda>front. ebind (list_remove front h) (\<lambda>(_, h). Inr (front, h)))"

definition list_pop_back :: "ptr \<Rightarrow> lheap \<Rightarrow> (ptr \<times> lheap) res" where
  "list_pop_back l h =
     ebind (list_back l h) (\<lambda>back. ebind (list_remove back h) (\<lambda>(_, h). Inr (back, h)))"

fun list_size_loop :: "nat \<Rightarrow> ptr \<Rightarrow> ptr \<Rightarrow> nat \<Rightarrow> lheap \<Rightarrow> nat res" where
  "list_size_loop 0 e t cnt h = Inl Out_of_fuel"
| "list_size_loop (Suc n) e t cnt h =
     (if e = t then Inr cnt
      else ebind (list_next e h) (\<lambda>e. list_size_loop n e t (Suc cnt) h))"

definition list_size :: "nat \<Rightarrow> ptr \<Rightarrow> lheap \<Rightarrow> nat res" where
  "list_size n l h =
     ebind (list_begin l h) (\<lambda>e. ebind (list_end l) (\<lambda>t. list_size_loop n e t 0 h))"

text \<open>\<open>swap\<close> exchanges two pointer fields; in \<open>list_reverse\<close> they are the two links of
  one element, the outer links of the two headers, and the outer links of the two ends.\<close>

definition swap_links :: "ptr \<Rightarrow> lheap \<Rightarrow> lheap res" where
  "swap_links e h =
     ebind (get_elem h e) (\<lambda>x. Inr (h(e \<mapsto> x\<lparr>prv := nxt x, nxt := prv x\<rparr>)))"

definition swap_next_prev :: "ptr \<Rightarrow> ptr \<Rightarrow> lheap \<Rightarrow> lheap res" where
  "swap_next_prev a b h =
     ebind (get_next a h) (\<lambda>t. ebind (get_prev b h) (\<lambda>v.
     ebind (put_next a v h) (\<lambda>h. put_prev b t h)))"

definition swap_prev_next :: "ptr \<Rightarrow> ptr \<Rightarrow> lheap \<Rightarrow> lheap res" where
  "swap_prev_next a b h =
     ebind (get_prev a h) (\<lambda>t. ebind (get_next b h) (\<lambda>v.
     ebind (put_prev a v h) (\<lambda>h. put_next b t h)))"

fun list_reverse_loop :: "nat \<Rightarrow> ptr \<Rightarrow> ptr \<Rightarrow> lheap \<Rightarrow> lheap res" where
  "list_reverse_loop 0 e t h = Inl Out_of_fuel"
| "list_reverse_loop (Suc n) e t h =
     (if e = t then Inr h
      else ebind (swap_links e h) (\<lambda>h.
           ebind (get_prev e h) (\<lambda>e. list_reverse_loop n e t h)))"

definition list_reverse :: "nat \<Rightarrow> ptr \<Rightarrow> lheap \<Rightarrow> lheap res" where
  "list_reverse n l h =
     ebind (list_empty l h) (\<lambda>emp.
     if emp then Inr h
     else
       ebind (list_begin l h) (\<lambda>e. ebind (list_end l) (\<lambda>t.
       ebind (list_reverse_loop n e t h) (\<lambda>h.
       ebind (swap_next_prev (list_head l) (list_tail l) h) (\<lambda>h.
       ebind (get_next (list_head l) h) (\<lambda>a. ebind (get_prev (list_tail l) h) (\<lambda>b.
       swap_prev_next a b h)))))))"

fun is_sorted_loop :: "nat \<Rightarrow> (ptr \<Rightarrow> ptr \<Rightarrow> bool) \<Rightarrow> ptr \<Rightarrow> ptr \<Rightarrow> lheap \<Rightarrow> bool res" where
  "is_sorted_loop 0 lt a b h = Inl Out_of_fuel"
| "is_sorted_loop (Suc n) lt a b h =
     ebind (list_next a h) (\<lambda>a.
     if a = b then Inr True
     else ebind (list_prev a h) (\<lambda>p.
          if lt a p then Inr False else is_sorted_loop n lt a b h))"

definition is_sorted :: "nat \<Rightarrow> (ptr \<Rightarrow> ptr \<Rightarrow> bool) \<Rightarrow> ptr \<Rightarrow> ptr \<Rightarrow> lheap \<Rightarrow> bool res" where
  "is_sorted n lt a b h = (if a \<noteq> b then is_sorted_loop n lt a b h else Inr True)"

fun find_end_of_run_loop :: "nat \<Rightarrow> (ptr \<Rightarrow> ptr \<Rightarrow> bool) \<Rightarrow> ptr \<Rightarrow> ptr \<Rightarrow> lheap \<Rightarrow> ptr res" where
  "find_end_of_run_loop 0 lt a b h = Inl Out_of_fuel"
| "find_end_of_run_loop (Suc n) lt a b h =
     ebind (list_next a h) (\<lambda>a.
     if a = b then Inr a
     else ebind (list_prev a h) (\<lambda>p.
          if \<not> lt a p then find_end_of_run_loop n lt a b h else Inr a))"

definition find_end_of_run :: "nat \<Rightarrow> (ptr \<Rightarrow> ptr \<Rightarrow> bool) \<Rightarrow> ptr \<Rightarrow> ptr \<Rightarrow> lheap \<Rightarrow> ptr res" where
  "find_end_of_run n lt a b h =
     ebind (kassert (a \<noteq> NULL)) (\<lambda>_. ebind (kassert (b \<noteq> NULL)) (\<lambda>_.
     ebind (kassert (a \<noteq> b)) (\<lambda>_. find_end_of_run_loop n lt a b h)))"

fun inplace_merge_loop ::
  "nat \<Rightarrow> (ptr \<Rightarrow> ptr \<Rightarrow> bool) \<Rightarrow> ptr \<Rightarrow> ptr \<Rightarrow> ptr \<Rightarrow> lheap \<Rightarrow> lheap res" where
  "inplace_merge_loop 0 lt a0 a1b0 b1 h = Inl Out_of_fuel"
| "inplace_merge_loop (Suc n) lt a0 a1b0 b1 h =
     (if a0 \<noteq> a1b0 \<and> a1b0 \<noteq> b1 then
        if \<not> lt a1b0 a0
        then ebind (list_next a0 h) (\<lambda>a0. inplace_merge_loop n lt a0 a1b0 b1 h)
        else ebind (list_next a1b0 h) (\<lambda>a1b0.
             ebind (list_prev a1b0 h) (\<lambda>p.
             ebind (list_splice a0 p a1b0 h) (\<lambda>h.
             inplace_merge_loop n lt a0 a1b0 b1 h)))
      else Inr h)"

definition inplace_merge ::
  "nat \<Rightarrow> (ptr \<Rightarrow> ptr \<Rightarrow> bool) \<Rightarrow> ptr \<Rightarrow> ptr \<Rightarrow> ptr \<Rightarrow> lheap \<Rightarrow> lheap res" where
  "inplace_merge n lt a0 a1b0 b1 h =
     ebind (kassert (a0 \<noteq> NULL)) (\<lambda>_. ebind (kassert (a1b0 \<noteq> NULL)) (\<lambda>_.
     ebind (kassert (b1 \<noteq> NULL)) (\<lambda>_.
     ebind (is_sorted n lt a0 a1b0 h) (\<lambda>s. ebind (kassert s) (\<lambda>_.
     ebind (is_sorted n lt a1b0 b1 h) (\<lambda>s. ebind (kassert s) (\<lambda>_.
     inplace_merge_loop n lt a0 a1b0 b1 h)))))))"

text \<open>One pass of \<open>list_sort\<close>: the inner loop, with \<open>n\<close> iterations left and
  \<open>m\<close> the bound of the loops it calls.  The result is the number of runs output.\<close>

fun list_sort_pass ::
  "nat \<Rightarrow> nat \<Rightarrow> (ptr \<Rightarrow> ptr \<Rightarrow> bool) \<Rightarrow> ptr \<Rightarrow> ptr \<Rightarrow> nat \<Rightarrow> lheap \<Rightarrow> (nat \<times> lheap) res" where
  "list_sort_pass 0 m lt l a0 cnt h = Inl Out_of_fuel"
| "list_sort_pass (Suc n) m lt l a0 cnt h =
     ebind (list_end l) (\<lambda>t.
     if a0 = t then Inr (cnt, h)
     else
       ebind (find_end_of_run m lt a0 t h) (\<lambda>a1b0.
       if a1b0 = t then Inr (Suc cnt, h)
       else
         ebind (find_end_of_run m lt a1b0 t h) (\<lambda>b1.
         ebind (inplace_merge m lt a0 a1b0 b1 h) (\<lambda>h.
         list_sort_pass n m lt l b1 (Suc cnt) h))))"

fun list_sort_loop :: "nat \<Rightarrow> nat \<Rightarrow> (ptr \<Rightarrow> ptr \<Rightarrow> bool) \<Rightarrow> ptr \<Rightarrow> lheap \<Rightarrow> lheap res" where
  "list_sort_loop 0 m lt l h = Inl Out_of_fuel"
| "list_sort_loop (Suc n) m lt l h =
     ebind (list_begin l h) (\<lambda>a0.
     ebind (list_sort_pass m m lt l a0 0 h) (\<lambda>(cnt, h).
     if cnt > 1 then list_sort_loop n m lt l h else Inr h))"

definition list_sort :: "nat \<Rightarrow> ptr \<Rightarrow> (ptr \<Rightarrow> ptr \<Rightarrow> bool) \<Rightarrow> lheap \<Rightarrow> lheap res" where
  "list_sort n l lt h =
     ebind (kassert (l \<noteq> NULL)) (\<lambda>_.
     ebind (list_sort_loop n n lt l h) (\<lambda>h.
     ebind (list_begin l h) (\<lambda>b. ebind (list_end l) (\<lambda>e.
     ebind (is_sorted n lt b e h) (\<lambda>s. ebind (kassert s) (\<lambda>_. Inr h))))))"

fun list_insert_ordered_loop ::
  "nat \<Rightarrow> (ptr \<Rightarrow> ptr \<Rightarrow> bool) \<Rightarrow> ptr \<Rightarrow> ptr \<Rightarrow> ptr \<Rightarrow> lheap \<Rightarrow> ptr res" where
  "list_insert_ordered_loop 0 lt elem e t h = Inl Out_of_fuel"
| "list_insert_ordered_loop (Suc n) lt elem e t h =
     (if e = t then Inr e
      else if lt elem e then Inr e
      else ebind (list_next e h) (\<lambda>e. list_insert_ordered_loop n lt elem e t h))"

definition list_insert_ordered ::
  "nat \<Rightarrow> ptr \<Rightarrow> ptr \<Rightarrow> (ptr \<Rightarrow> ptr \<Rightarrow> bool) \<Rightarrow> lheap \<Rightarrow> lheap res" where
  "list_insert_ordered n l elem lt h =
     ebind (kassert (l \<noteq> NULL)) (\<lambda>_. ebind (kassert (elem \<noteq> NULL)) (\<lambda>_.
     ebind (list_begin l h) (\<lambda>b. ebind (list_end l) (\<lambda>t.
     ebind (list_insert_ordered_loop n lt elem b t h) (\<lambda>e. list_insert e elem h)))))"

fun list_unique_loop ::
  "nat \<Rightarrow> (ptr \<Rightarrow> ptr \<Rightarrow> bool) \<Rightarrow> ptr \<Rightarrow> ptr \<Rightarrow> ptr \<Rightarrow> lheap \<Rightarrow> lheap res" where
  "list_unique_loop 0 lt dups t elem h = Inl Out_of_fuel"
| "list_unique_loop (Suc n) lt dups t elem h =
     ebind (list_next elem h) (\<lambda>nx.
     if nx = t then Inr h
     else if \<not> lt elem nx \<and> \<not> lt nx elem then
       ebind (list_remove nx h) (\<lambda>(_, h).
       ebind (if dups \<noteq> NULL then list_push_back dups nx h else Inr h) (\<lambda>h.
       list_unique_loop n lt dups t elem h))
     else list_unique_loop n lt dups t nx h)"

definition list_unique ::
  "nat \<Rightarrow> ptr \<Rightarrow> ptr \<Rightarrow> (ptr \<Rightarrow> ptr \<Rightarrow> bool) \<Rightarrow> lheap \<Rightarrow> lheap res" where
  "list_unique n l dups lt h =
     ebind (kassert (l \<noteq> NULL)) (\<lambda>_.
     ebind (list_empty l h) (\<lambda>emp.
     if emp then Inr h
     else ebind (list_begin l h) (\<lambda>elem. ebind (list_end l) (\<lambda>t.
          list_unique_loop n lt dups t elem h))))"

fun list_max_loop ::
  "nat \<Rightarrow> (ptr \<Rightarrow> ptr \<Rightarrow> bool) \<Rightarrow> ptr \<Rightarrow> ptr \<Rightarrow> ptr \<Rightarrow> lheap \<Rightarrow> ptr res" where
  "list_max_loop 0 lt mx e t h = Inl Out_of_fuel"
| "list_max_loop (Suc n) lt mx e t h =
     (if e = t then Inr mx
      else let mx = (if lt mx e then e else mx)
           in ebind (list_next e h) (\<lambda>e. list_max_loop n lt mx e t h))"

definition list_max :: "nat \<Rightarrow> ptr \<Rightarrow> (ptr \<Rightarrow> ptr \<Rightarrow> bool) \<Rightarrow> lheap \<Rightarrow> ptr res" where
  "list_max n l lt h =
     ebind (list_begin l h) (\<lambda>mx. ebind (list_end l) (\<lambda>t.
     if mx \<noteq> t then ebind (list_next mx h) (\<lambda>e. list_max_loop n lt mx e t h)
     else Inr mx))"

fun list_min_loop ::
  "nat \<Rightarrow> (ptr \<Rightarrow> ptr \<Rightarrow> bool) \<Rightarrow> ptr \<Rightarrow> ptr \<Rightarrow> ptr \<Rightarrow> lheap \<Rightarrow> ptr res" where
  "list_min_loop 0 lt mn e t h = Inl Out_of_fuel"
| "list_min_loop (Suc n) lt mn e t h =
     (if e = t then Inr mn
      else let mn = (if lt e mn then e else mn)
           in ebind (list_next e h) (\<lambda>e. list_min_loop n lt mn e t h))"

definition list_min :: "nat \<Rightarrow> ptr \<Rightarrow> (ptr \<Rightarrow> ptr \<Rightarrow> bool) \<Rightarrow> lheap \<Rightarrow> ptr res" where
  "list_min n l lt h =
     ebind (list_begin l h) (\<lambda>mn. ebind (list_end l) (\<lambda>t.
     if mn \<noteq> t then ebind (list_next mn h) (\<lambda>e. list_min_loop n lt mn e t h)
     else Inr mn))"

end
