(* ===== verification/Klist_Rep.thy ===== *)
theory Klist_Rep
  imports Klist
begin

text \<open>
  What the operations of \<open>list.c\<close> that do not sort do to a well-formed list.

  \<open>list_rep h l xs\<close>: in memory \<open>h\<close> the list \<open>l\<close> is the chain of the distinct elements
  \<open>xs\<close>, from front to back.  \<open>same_outside A h h'\<close>: an operation changed no object
  outside \<open>A\<close>.  Each operation is related to the corresponding function on HOL lists.
\<close>

section \<open>Representation\<close>

text \<open>\<open>links f ns\<close>: following \<open>f\<close> from each node of \<open>ns\<close> but the last leads to the
  next node.\<close>

fun links :: "(ptr \<Rightarrow> ptr) \<Rightarrow> ptr list \<Rightarrow> bool" where
  "links f (a # b # ns) \<longleftrightarrow> f a = b \<and> links f (b # ns)"
| "links f _ \<longleftrightarrow> True"

definition nx :: "lheap \<Rightarrow> ptr \<Rightarrow> ptr" where
  "nx h p = (case h p of None \<Rightarrow> NULL | Some e \<Rightarrow> nxt e)"

definition pv :: "lheap \<Rightarrow> ptr \<Rightarrow> ptr" where
  "pv h p = (case h p of None \<Rightarrow> NULL | Some e \<Rightarrow> prv e)"

text \<open>The nodes of a list: its head, its elements, its tail.\<close>

definition nodes :: "ptr \<Rightarrow> ptr list \<Rightarrow> ptr list" where
  "nodes l xs = list_head l # xs @ [list_tail l]"

definition list_rep :: "lheap \<Rightarrow> ptr \<Rightarrow> ptr list \<Rightarrow> bool" where
  "list_rep h l xs \<longleftrightarrow>
     distinct (nodes l xs) \<and> NULL \<notin> set (nodes l xs) \<and> set (nodes l xs) \<subseteq> dom h
     \<and> links (nx h) (nodes l xs) \<and> links (pv h) (rev (nodes l xs))
     \<and> pv h (list_head l) = NULL \<and> nx h (list_tail l) = NULL"

text \<open>The memory outside \<open>A\<close> is the same in \<open>h\<close> and \<open>h'\<close>, and the same objects
  exist.\<close>

definition same_outside :: "ptr set \<Rightarrow> lheap \<Rightarrow> lheap \<Rightarrow> bool" where
  "same_outside A h h' \<longleftrightarrow> dom h' = dom h \<and> (\<forall>p. p \<notin> A \<longrightarrow> h' p = h p)"

lemma links_append: "links f (xs @ a # ys) \<longleftrightarrow> links f (xs @ [a]) \<and> links f (a # ys)"
  by (induction f xs rule: links.induct) auto

lemma links_snoc2: "links f (xs @ [a, b]) \<longleftrightarrow> links f (xs @ [a]) \<and> f a = b"
  using links_append[of f xs a "[b]"] by simp

lemma links_upd [simp]: "p \<notin> set (butlast ns) \<Longrightarrow> links (f(p := v)) ns = links f ns"
  by (induction f ns rule: links.induct) auto

lemma links_upd_notin [simp]: "p \<notin> set ns \<Longrightarrow> links (f(p := v)) ns = links f ns"
  by (rule links_upd) (auto dest: in_set_butlastD)

lemma links_cong: "(\<And>p. p \<in> set (butlast ns) \<Longrightarrow> f p = g p) \<Longrightarrow> links f ns = links g ns"
  by (induction f ns rule: links.induct) auto

lemma get_elem_Some [simp]: "h p = Some e \<Longrightarrow> get_elem h p = Inr e"
  by (simp add: get_elem_def)

lemma get_prev_pv [simp]: "p \<in> dom h \<Longrightarrow> get_prev p h = Inr (pv h p)"
  by (auto simp: get_prev_def pv_def)

lemma get_next_nx [simp]: "p \<in> dom h \<Longrightarrow> get_next p h = Inr (nx h p)"
  by (auto simp: get_next_def nx_def)

text \<open>Field updates as total functions, for use once the object is known to exist.\<close>

definition setp :: "ptr \<Rightarrow> ptr \<Rightarrow> lheap \<Rightarrow> lheap" where
  "setp p v h = h(p \<mapsto> (the (h p))\<lparr>prv := v\<rparr>)"

definition setn :: "ptr \<Rightarrow> ptr \<Rightarrow> lheap \<Rightarrow> lheap" where
  "setn p v h = h(p \<mapsto> (the (h p))\<lparr>nxt := v\<rparr>)"

lemma put_prev_setp [simp]: "p \<in> dom h \<Longrightarrow> put_prev p v h = Inr (setp p v h)"
  by (auto simp: put_prev_def setp_def)

lemma put_next_setn [simp]: "p \<in> dom h \<Longrightarrow> put_next p v h = Inr (setn p v h)"
  by (auto simp: put_next_def setn_def)

lemma dom_setp [simp]: "dom (setp p v h) = insert p (dom h)"
  by (auto simp: setp_def)

lemma dom_setn [simp]: "dom (setn p v h) = insert p (dom h)"
  by (auto simp: setn_def)

lemma pv_setp [simp]: "pv (setp p v h) = (pv h)(p := v)"
  by (auto simp: pv_def setp_def)

lemma nx_setn [simp]: "nx (setn p v h) = (nx h)(p := v)"
  by (auto simp: nx_def setn_def)

lemma nx_setp [simp]: "p \<in> dom h \<Longrightarrow> nx (setp p v h) = nx h"
  by (auto simp: nx_def setp_def)

lemma pv_setn [simp]: "p \<in> dom h \<Longrightarrow> pv (setn p v h) = pv h"
  by (auto simp: pv_def setn_def)

lemma setp_other [simp]: "q \<noteq> p \<Longrightarrow> setp p v h q = h q"
  by (simp add: setp_def)

lemma setn_other [simp]: "q \<noteq> p \<Longrightarrow> setn p v h q = h q"
  by (simp add: setn_def)

lemma is_head_iff:
  "e \<noteq> NULL \<Longrightarrow> e \<in> dom h \<Longrightarrow> is_head e h = Inr (pv h e = NULL \<and> nx h e \<noteq> NULL)"
  by (auto simp: is_head_def pv_def nx_def)

lemma is_interior_iff:
  "e \<noteq> NULL \<Longrightarrow> e \<in> dom h \<Longrightarrow> is_interior e h = Inr (pv h e \<noteq> NULL \<and> nx h e \<noteq> NULL)"
  by (auto simp: is_interior_def pv_def nx_def)

lemma is_tail_iff:
  "e \<noteq> NULL \<Longrightarrow> e \<in> dom h \<Longrightarrow> is_tail e h = Inr (pv h e \<noteq> NULL \<and> nx h e = NULL)"
  by (auto simp: is_tail_def pv_def nx_def)

lemma list_next_nx:
  "e \<noteq> NULL \<Longrightarrow> e \<in> dom h \<Longrightarrow> nx h e \<noteq> NULL \<Longrightarrow> list_next e h = Inr (nx h e)"
  by (simp add: list_next_def is_head_iff is_interior_iff kassert_def)

lemma list_prev_pv:
  "e \<noteq> NULL \<Longrightarrow> e \<in> dom h \<Longrightarrow> pv h e \<noteq> NULL \<Longrightarrow> list_prev e h = Inr (pv h e)"
  by (simp add: list_prev_def is_tail_iff is_interior_iff kassert_def)

text \<open>The links around a position of the node list.\<close>

lemma links_mid:
  assumes "links f (xs @ a # b # ys)"
  shows "f a = b"
  using assms links_append[of f xs a "b # ys"] by simp

lemma list_repD:
  assumes "list_rep h l xs"
  shows "distinct (nodes l xs)" and "NULL \<notin> set (nodes l xs)" and "set (nodes l xs) \<subseteq> dom h"
    and "links (nx h) (nodes l xs)" and "links (pv h) (rev (nodes l xs))"
    and "pv h (list_head l) = NULL" and "nx h (list_tail l) = NULL"
  using assms by (auto simp: list_rep_def)

lemma list_rep_mid:
  assumes "list_rep h l xs" and "nodes l xs = as @ a # b # bs"
  shows "nx h a = b" and "pv h b = a" and "a \<noteq> NULL" and "b \<noteq> NULL"
    and "a \<in> dom h" and "b \<in> dom h" and "a \<noteq> b"
proof -
  show "nx h a = b"
    using list_repD(4)[OF assms(1)] assms(2) by (simp add: links_mid)
  have "links (pv h) (rev bs @ b # a # rev as)"
    using list_repD(5)[OF assms(1)] assms(2) by simp
  then show "pv h b = a" by (rule links_mid)
  have "a \<in> set (nodes l xs)" "b \<in> set (nodes l xs)" using assms(2) by auto
  then show "a \<noteq> NULL" "b \<noteq> NULL" "a \<in> dom h" "b \<in> dom h"
    using list_repD(2,3)[OF assms(1)] by auto
  show "a \<noteq> b" using list_repD(1)[OF assms(1)] assms(2) by auto
qed

text \<open>A representation with the node list given and its first and last node known.\<close>

lemma list_repI:
  assumes "ns = nodes l xs" "distinct ns" "NULL \<notin> set ns" "set ns \<subseteq> dom h"
    "links (nx h) ns" "links (pv h) (rev ns)"
    "pv h (list_head l) = NULL" "nx h (list_tail l) = NULL"
  shows "list_rep h l xs"
  using assms by (simp add: list_rep_def)

lemma list_rep_same:
  assumes "list_rep h l xs" and "same_outside A h h'" and "A \<inter> set (nodes l xs) = {}"
  shows "list_rep h' l xs"
proof -
  have eq: "nx h' p = nx h p" "pv h' p = pv h p" if "p \<in> set (nodes l xs)" for p
    using assms(2,3) that by (auto simp: same_outside_def nx_def pv_def)
  have "links (nx h') (nodes l xs) = links (nx h) (nodes l xs)"
    by (rule links_cong) (rule eq(1), erule in_set_butlastD)
  moreover have "links (pv h') (rev (nodes l xs)) = links (pv h) (rev (nodes l xs))"
    by (rule links_cong) (rule eq(2), drule in_set_butlastD, simp)
  moreover have "pv h' (list_head l) = pv h (list_head l)" "nx h' (list_tail l) = nx h (list_tail l)"
    by (rule eq, simp add: nodes_def)+
  moreover have "dom h' = dom h" using assms(2) by (simp add: same_outside_def)
  ultimately show ?thesis
    using assms(1) unfolding list_rep_def by simp
qed

section \<open>Insertion and removal\<close>

text \<open>Insertion before the node \<open>b\<close>, whose predecessor is \<open>a\<close>.\<close>

definition insert_heap :: "ptr \<Rightarrow> ptr \<Rightarrow> ptr \<Rightarrow> lheap \<Rightarrow> lheap" where
  "insert_heap a e b h = setp b e (setn a e (setn e b (setp e a h)))"

lemma list_insert_heap:
  assumes "list_rep h l xs" and "nodes l xs = as @ a # b # bs"
    and "e \<noteq> NULL" "e \<in> dom h" "e \<notin> set (nodes l xs)"
  shows "list_insert b e h = Inr (insert_heap a e b h)"
proof -
  note m = list_rep_mid[OF assms(1,2)]
  have "e \<noteq> a" "e \<noteq> b" using assms(2,5) by auto
  then show ?thesis
    using m assms(3,4)
    by (simp add: list_insert_def is_interior_iff is_tail_iff insert_heap_def kassert_def)
qed

lemma links_insert:
  assumes "links f (as @ a # b # bs)" "distinct (as @ a # b # bs)" "e \<notin> set (as @ a # b # bs)"
  shows "links (f(e := b, a := e)) (as @ a # e # b # bs)"
proof -
  have "links f (as @ [a])" "links f (b # bs)"
    using assms(1) links_append[of f as a "b # bs"] by simp_all
  then have "links (f(e := b, a := e)) (as @ [a])" "links (f(e := b, a := e)) (b # bs)"
    using assms(2,3) by simp_all
  then show ?thesis
    using assms(3) links_append[of "f(e := b, a := e)" as a "e # b # bs"] by auto
qed

lemma links_remove:
  assumes "links f (as @ a # e # b # bs)" "distinct (as @ a # e # b # bs)"
  shows "links (f(a := b)) (as @ a # b # bs)"
proof -
  have "links f (as @ [a])" "links f (b # bs)"
    using assms(1) links_append[of f as a "e # b # bs"] by simp_all
  then have "links (f(a := b)) (as @ [a])" "links (f(a := b)) (b # bs)"
    using assms(2) by simp_all
  then show ?thesis
    using links_append[of "f(a := b)" as a "b # bs"] by simp
qed

text \<open>The head is among the nodes before any position of the list, the tail after it.\<close>

lemma nodes_ends:
  assumes "nodes l xs = as @ a # b # bs"
  shows "list_head l \<in> set (as @ [a])" and "list_tail l \<in> set (b # bs)"
proof -
  have "list_head l = hd (nodes l xs)" "list_tail l = List.last (nodes l xs)"
    by (simp_all add: nodes_def)
  then show "list_head l \<in> set (as @ [a])" "list_tail l \<in> set (b # bs)"
    unfolding assms by auto
qed

lemma list_rep_insert_heap:
  assumes rep: "list_rep h l xs" and ns: "nodes l xs = as @ a # b # bs"
    and ns': "nodes l xs' = as @ a # e # b # bs"
    and e: "e \<noteq> NULL" "e \<in> dom h" "e \<notin> set (nodes l xs)"
  shows "list_rep (insert_heap a e b h) l xs'"
    and "same_outside {a, e, b} h (insert_heap a e b h)"
proof -
  note D = list_repD[OF rep] and m = list_rep_mid[OF rep ns]
  have ne: "e \<noteq> a" "e \<noteq> b" "a \<noteq> b" using ns e(3) m(7) by auto
  let ?h = "insert_heap a e b h"
  have nx': "nx ?h = (nx h)(e := b, a := e)" and pv': "pv ?h = (pv h)(e := a, b := e)"
    using e(2) m ne by (simp_all add: insert_heap_def)
  have dom': "dom ?h = dom h" using e(2) m by (auto simp: insert_heap_def)
  show "same_outside {a, e, b} h ?h"
    using dom' by (simp add: same_outside_def insert_heap_def)
  have "links (nx ?h) (as @ a # e # b # bs)"
    unfolding nx' using D(1,4) e(3) unfolding ns by (intro links_insert)
  moreover have "links (pv ?h) (rev bs @ b # e # a # rev as)"
    unfolding pv' using D(1,5) e(3) unfolding ns by (intro links_insert) auto
  moreover have "pv ?h (list_head l) = NULL" "nx ?h (list_tail l) = NULL"
    using D(1,6,7) nodes_ends[OF ns] e(3) unfolding nx' pv' ns by auto
  ultimately show "list_rep ?h l xs'"
    using D(1-3) e dom' unfolding ns by (intro list_repI[OF ns'[symmetric]]) auto
qed

definition remove_heap :: "ptr \<Rightarrow> ptr \<Rightarrow> lheap \<Rightarrow> lheap" where
  "remove_heap a b h = setp b a (setn a b h)"

lemma list_remove_heap:
  assumes rep: "list_rep h l xs" and ns: "nodes l xs = as @ a # e # b # bs"
  shows "list_remove e h = Inr (b, remove_heap a b h)"
proof -
  have ns2: "nodes l xs = (as @ [a]) @ e # b # bs" using ns by simp
  note m = list_rep_mid[OF rep ns] and m2 = list_rep_mid[OF rep ns2]
  have "a \<noteq> b" using list_repD(1)[OF rep] ns by auto
  then show ?thesis
    using m m2 by (simp add: list_remove_def is_interior_iff remove_heap_def)
qed

lemma list_rep_remove_heap:
  assumes rep: "list_rep h l xs" and ns: "nodes l xs = as @ a # e # b # bs"
    and ns': "nodes l xs' = as @ a # b # bs"
  shows "list_rep (remove_heap a b h) l xs'"
    and "same_outside {a, b} h (remove_heap a b h)"
proof -
  have ns2: "nodes l xs = (as @ [a]) @ e # b # bs" using ns by simp
  note D = list_repD[OF rep] and m = list_rep_mid[OF rep ns] and m2 = list_rep_mid[OF rep ns2]
  let ?h = "remove_heap a b h"
  have nx': "nx ?h = (nx h)(a := b)" and pv': "pv ?h = (pv h)(b := a)"
    using m m2 by (simp_all add: remove_heap_def)
  have dom': "dom ?h = dom h" using m m2 by (auto simp: remove_heap_def)
  show "same_outside {a, b} h ?h"
    using dom' by (simp add: same_outside_def remove_heap_def)
  have "links (nx ?h) (as @ a # b # bs)"
    unfolding nx' using D(1,4) unfolding ns by (intro links_remove)
  moreover have "links (pv ?h) (rev bs @ b # a # rev as)"
    unfolding pv' using D(1,5) unfolding ns by (intro links_remove[where e = e]) auto
  moreover have "pv ?h (list_head l) = NULL" "nx ?h (list_tail l) = NULL"
    using D(1,6,7) nodes_ends[OF ns'] unfolding nx' pv' ns by auto
  ultimately show "list_rep ?h l xs'"
    using D(1-3) dom' unfolding ns by (intro list_repI[OF ns'[symmetric]]) auto
qed

text \<open>The same by position: \<open>pos l ys\<close> is the node at which the rest \<open>ys\<close> of the list
  starts, the tail if there is none.\<close>

definition pos :: "ptr \<Rightarrow> ptr list \<Rightarrow> ptr" where
  "pos l ys = hd (ys @ [list_tail l])"

definition before :: "ptr \<Rightarrow> ptr list \<Rightarrow> ptr" where
  "before l xs = List.last (list_head l # xs)"

lemma pos_Nil [simp]: "pos l [] = list_tail l"
  and pos_Cons [simp]: "pos l (y # ys) = y"
  by (simp_all add: pos_def)

lemma before_Nil [simp]: "before l [] = list_head l"
  and before_snoc [simp]: "before l (xs @ [x]) = x"
  by (simp_all add: before_def)

lemma before_append [simp]: "ys \<noteq> [] \<Longrightarrow> before l (xs @ ys) = List.last ys"
  by (simp add: before_def)

lemma pos_in: "pos l ys \<in> set (nodes l (xs @ ys))"
  by (cases ys) (simp_all add: nodes_def)

lemma before_in: "before l xs \<in> set (nodes l (xs @ ys))"
  by (cases xs rule: rev_cases) (simp_all add: nodes_def)

lemma nodes_at:
  "nodes l (xs @ ys) = butlast (list_head l # xs) @ before l xs # pos l ys # tl (ys @ [list_tail l])"
proof -
  have "list_head l # xs = butlast (list_head l # xs) @ [before l xs]"
    by (simp add: before_def)
  moreover have "ys @ [list_tail l] = pos l ys # tl (ys @ [list_tail l])"
    by (cases ys) simp_all
  ultimately show ?thesis
    unfolding nodes_def by (metis append.assoc append_Cons append_Nil)
qed

lemma nodes_at_elem:
  "nodes l (xs @ e # ys) =
     butlast (list_head l # xs) @ before l xs # e # pos l ys # tl (ys @ [list_tail l])"
  using nodes_at[of l xs "e # ys"] by (cases ys) simp_all

lemma same_outside_mono: "same_outside A h h' \<Longrightarrow> A \<subseteq> B \<Longrightarrow> same_outside B h h'"
  by (auto simp: same_outside_def)

lemma same_outside_trans:
  "same_outside A h h' \<Longrightarrow> same_outside A h' h'' \<Longrightarrow> same_outside A h h''"
  by (simp add: same_outside_def)

lemma same_outside_refl [simp]: "same_outside A h h"
  by (simp add: same_outside_def)

lemma list_insert_rep:
  assumes "list_rep h l (xs @ ys)" "e \<noteq> NULL" "e \<in> dom h" "e \<notin> set (nodes l (xs @ ys))"
  shows "\<exists>h'. list_insert (pos l ys) e h = Inr h' \<and> list_rep h' l (xs @ e # ys)
     \<and> same_outside (insert e (set (nodes l (xs @ ys)))) h h'"
proof (intro exI conjI)
  note r = list_rep_insert_heap[OF assms(1) nodes_at nodes_at_elem assms(2-4)]
  show "list_insert (pos l ys) e h = Inr (insert_heap (before l xs) e (pos l ys) h)"
    by (rule list_insert_heap[OF assms(1) nodes_at assms(2-4)])
  show "list_rep (insert_heap (before l xs) e (pos l ys) h) l (xs @ e # ys)" by (rule r)
  show "same_outside (insert e (set (nodes l (xs @ ys)))) h (insert_heap (before l xs) e (pos l ys) h)"
    by (rule same_outside_mono[OF r(2)]) (simp add: pos_in before_in)
qed

lemma list_remove_rep:
  assumes "list_rep h l (xs @ e # ys)"
  shows "\<exists>h'. list_remove e h = Inr (pos l ys, h') \<and> list_rep h' l (xs @ ys)
     \<and> same_outside (set (nodes l (xs @ ys))) h h'"
proof (intro exI conjI)
  note r = list_rep_remove_heap[OF assms nodes_at_elem nodes_at]
  show "list_remove e h = Inr (pos l ys, remove_heap (before l xs) (pos l ys) h)"
    by (rule list_remove_heap[OF assms nodes_at_elem])
  show "list_rep (remove_heap (before l xs) (pos l ys) h) l (xs @ ys)" by (rule r)
  show "same_outside (set (nodes l (xs @ ys))) h (remove_heap (before l xs) (pos l ys) h)"
    by (rule same_outside_mono[OF r(2)]) (simp add: pos_in before_in)
qed

section \<open>Traversal\<close>

lemma list_rep_elem:
  assumes "list_rep h l (xs @ y # ys)"
  shows "nx h y = pos l ys" and "pv h y = before l xs" and "pos l ys \<noteq> NULL"
    and "before l xs \<noteq> NULL" and "y \<noteq> NULL" and "y \<in> dom h" and "y \<noteq> list_tail l"
proof -
  have ns: "nodes l (xs @ y # ys)
      = (butlast (list_head l # xs) @ [before l xs]) @ y # pos l ys # tl (ys @ [list_tail l])"
    using nodes_at_elem[of l xs y ys] by simp
  note m = list_rep_mid[OF assms nodes_at_elem] and m2 = list_rep_mid[OF assms ns]
  show "nx h y = pos l ys" "pv h y = before l xs" "pos l ys \<noteq> NULL" "before l xs \<noteq> NULL" "y \<noteq> NULL"
    "y \<in> dom h"
    using m m2 by simp_all
  show "y \<noteq> list_tail l" using list_repD(1)[OF assms] by (auto simp: nodes_def)
qed

lemma list_rep_ends:
  assumes "list_rep h l xs"
  shows "l \<noteq> NULL" and "list_head l \<noteq> NULL" "list_head l \<in> dom h" and "list_tail l \<noteq> NULL"
    and "list_tail l \<in> dom h" and "nx h (list_head l) = pos l xs" and "pv h (list_tail l) = before l xs"
  using list_repD[OF assms] list_rep_mid[of h l xs "[]" "list_head l" "pos l xs" "tl (xs @ [list_tail l])"]
    list_rep_mid[of h l xs "butlast (list_head l # xs)" "before l xs" "list_tail l" "[]"]
    nodes_at[of l "[]" xs] nodes_at[of l xs "[]"] assms
  by (auto simp: nodes_def list_head_def)

lemma list_next_rep:
  assumes "list_rep h l (xs @ y # ys)"
  shows "list_next y h = Inr (pos l ys)"
  using list_rep_elem[OF assms] by (simp add: list_next_nx)

lemma list_prev_rep:
  assumes "list_rep h l (xs @ ys)"
  shows "list_prev (pos l ys) h = Inr (before l xs)"
  using list_rep_mid[OF assms nodes_at] by (simp add: list_prev_pv)

lemma list_begin_rep:
  assumes "list_rep h l xs"
  shows "list_begin l h = Inr (pos l xs)"
  using list_rep_ends[OF assms] by (simp add: list_begin_def)

lemma list_end_rep:
  assumes "list_rep h l xs"
  shows "list_end l = Inr (list_tail l)"
  using list_rep_ends[OF assms] by (simp add: list_end_def)

lemma pos_eq_tail:
  assumes "list_rep h l (xs @ ys)"
  shows "pos l ys = list_tail l \<longleftrightarrow> ys = []"
  using list_repD(1)[OF assms] by (cases ys) (auto simp: nodes_def)

lemma list_empty_rep:
  assumes "list_rep h l xs"
  shows "list_empty l h = Inr (xs = [])"
  using pos_eq_tail[of h l "[]" xs] assms
  by (simp add: list_empty_def list_begin_rep list_end_rep)

lemmas walk_rep = list_begin_rep list_end_rep list_next_rep list_prev_rep list_empty_rep

section \<open>Queue operations\<close>

lemma list_push_back_rep:
  assumes "list_rep h l xs" "e \<noteq> NULL" "e \<in> dom h" "e \<notin> set (nodes l xs)"
  shows "\<exists>h'. list_push_back l e h = Inr h' \<and> list_rep h' l (xs @ [e])
     \<and> same_outside (insert e (set (nodes l xs))) h h'"
  using list_insert_rep[of h l xs "[]" e] assms by (simp add: list_push_back_def list_end_rep)

lemma list_push_front_rep:
  assumes "list_rep h l xs" "e \<noteq> NULL" "e \<in> dom h" "e \<notin> set (nodes l xs)"
  shows "\<exists>h'. list_push_front l e h = Inr h' \<and> list_rep h' l (e # xs)
     \<and> same_outside (insert e (set (nodes l xs))) h h'"
  using list_insert_rep[of h l "[]" xs e] assms by (simp add: list_push_front_def list_begin_rep)

lemma list_front_rep:
  assumes "list_rep h l xs"
  shows "list_front l h = (if xs = [] then Inl Assert_failed else Inr (hd xs))"
  using list_rep_ends[OF assms] assms by (cases xs) (simp_all add: list_front_def list_empty_rep)

lemma list_back_rep:
  assumes "list_rep h l xs"
  shows "list_back l h = (if xs = [] then Inl Assert_failed else Inr (List.last xs))"
  using list_rep_ends[OF assms] assms
  by (cases xs rule: rev_cases) (simp_all add: list_back_def list_empty_rep)

lemma list_pop_front_rep:
  assumes "list_rep h l (x # xs)"
  shows "\<exists>h'. list_pop_front l h = Inr (x, h') \<and> list_rep h' l xs
     \<and> same_outside (set (nodes l xs)) h h'"
  using list_remove_rep[of h l "[]" x xs] list_front_rep[OF assms] assms
  by (auto simp: list_pop_front_def)

lemma list_pop_back_rep:
  assumes "list_rep h l (xs @ [x])"
  shows "\<exists>h'. list_pop_back l h = Inr (x, h') \<and> list_rep h' l xs
     \<and> same_outside (set (nodes l xs)) h h'"
  using list_remove_rep[of h l xs x "[]"] list_back_rep[OF assms] assms
  by (auto simp: list_pop_back_def)

lemma list_pop_empty:
  assumes "list_rep h l []"
  shows "list_pop_front l h = Inl Assert_failed" and "list_pop_back l h = Inl Assert_failed"
  using assms by (simp_all add: list_pop_front_def list_pop_back_def list_front_rep list_back_rep)

lemma list_init_rep:
  assumes "l \<noteq> NULL" "list_tail l \<noteq> NULL" "list_head l \<in> dom h" "list_tail l \<in> dom h"
  shows "\<exists>h'. list_init l h = Inr h' \<and> list_rep h' l []
     \<and> same_outside {list_head l, list_tail l} h h'"
proof -
  have ne: "list_head l \<noteq> list_tail l" by (simp add: list_head_def list_tail_def)
  let ?h = "setn (list_tail l) NULL (setp (list_tail l) (list_head l)
      (setn (list_head l) (list_tail l) (setp (list_head l) NULL h)))"
  have "list_init l h = Inr ?h" using assms by (simp add: list_init_def)
  moreover have "list_rep ?h l []"
    using assms ne by (auto simp: list_rep_def nodes_def list_head_def)
  moreover have "same_outside {list_head l, list_tail l} h ?h"
    using assms by (auto simp: same_outside_def)
  ultimately show ?thesis by blast
qed

section \<open>Searches\<close>

lemma list_size_loop_rep:
  "list_rep h l (xs @ ys) \<Longrightarrow> length ys < n \<Longrightarrow>
   list_size_loop n (pos l ys) (list_tail l) cnt h = Inr (cnt + length ys)"
proof (induction ys arbitrary: xs n cnt)
  case Nil
  then show ?case by (cases n) simp_all
next
  case (Cons y ys)
  then obtain m where "n = Suc m" "length ys < m" by (cases n) auto
  then show ?case
    using Cons.IH[of "xs @ [y]" m "Suc cnt"] Cons.prems list_rep_elem(7)[OF Cons.prems(1)]
    by (simp add: list_next_rep)
qed

lemma list_size_rep:
  assumes "list_rep h l xs" "length xs < n"
  shows "list_size n l h = Inr (length xs)"
  using list_size_loop_rep[of h l "[]" xs n 0] assms
  by (simp add: list_size_def list_begin_rep list_end_rep)

lemma list_insert_ordered_loop_rep:
  "list_rep h l (xs @ ys) \<Longrightarrow> length ys < n \<Longrightarrow>
   list_insert_ordered_loop n lt e (pos l ys) (list_tail l) h
     = Inr (pos l (dropWhile (\<lambda>y. \<not> lt e y) ys))"
proof (induction ys arbitrary: xs n)
  case Nil
  then show ?case by (cases n) simp_all
next
  case (Cons y ys)
  then obtain m where "n = Suc m" "length ys < m" by (cases n) auto
  then show ?case
    using Cons.IH[of "xs @ [y]" m] Cons.prems list_rep_elem(7)[OF Cons.prems(1)]
    by (simp add: list_next_rep)
qed

definition ins_ordered :: "('a \<Rightarrow> 'a \<Rightarrow> bool) \<Rightarrow> 'a \<Rightarrow> 'a list \<Rightarrow> 'a list" where
  "ins_ordered lt e xs = takeWhile (\<lambda>y. \<not> lt e y) xs @ e # dropWhile (\<lambda>y. \<not> lt e y) xs"

lemma list_insert_ordered_rep:
  assumes "list_rep h l xs" "length xs < n" "e \<noteq> NULL" "e \<in> dom h" "e \<notin> set (nodes l xs)"
  shows "\<exists>h'. list_insert_ordered n l e lt h = Inr h' \<and> list_rep h' l (ins_ordered lt e xs)
     \<and> same_outside (insert e (set (nodes l xs))) h h'"
  using list_insert_ordered_loop_rep[of h l "[]" xs n lt e] assms list_rep_ends(1)[OF assms(1)]
    list_insert_rep[of h l "takeWhile (\<lambda>y. \<not> lt e y) xs" "dropWhile (\<lambda>y. \<not> lt e y) xs" e]
  by (simp add: list_insert_ordered_def list_begin_rep list_end_rep ins_ordered_def)

lemma list_max_loop_rep:
  "list_rep h l (xs @ ys) \<Longrightarrow> length ys < n \<Longrightarrow>
   list_max_loop n lt m (pos l ys) (list_tail l) h
     = Inr (fold (\<lambda>e m. if lt m e then e else m) ys m)"
proof (induction ys arbitrary: xs n m)
  case Nil
  then show ?case by (cases n) simp_all
next
  case (Cons y ys)
  then obtain k where "n = Suc k" "length ys < k" by (cases n) auto
  then show ?case
    using Cons.IH[of "xs @ [y]" k] Cons.prems list_rep_elem(7)[OF Cons.prems(1)]
    by (simp add: list_next_rep Let_def)
qed

lemma list_min_loop_rep:
  "list_rep h l (xs @ ys) \<Longrightarrow> length ys < n \<Longrightarrow>
   list_min_loop n lt m (pos l ys) (list_tail l) h
     = Inr (fold (\<lambda>e m. if lt e m then e else m) ys m)"
proof (induction ys arbitrary: xs n m)
  case Nil
  then show ?case by (cases n) simp_all
next
  case (Cons y ys)
  then obtain k where "n = Suc k" "length ys < k" by (cases n) auto
  then show ?case
    using Cons.IH[of "xs @ [y]" k] Cons.prems list_rep_elem(7)[OF Cons.prems(1)]
    by (simp add: list_next_rep Let_def)
qed

lemma list_max_rep:
  assumes "list_rep h l (x # xs)" "length xs < n"
  shows "list_max n l lt h = Inr (fold (\<lambda>e m. if lt m e then e else m) xs x)"
    and "list_min n l lt h = Inr (fold (\<lambda>e m. if lt e m then e else m) xs x)"
  using list_max_loop_rep[of h l "[x]" xs n lt x] list_min_loop_rep[of h l "[x]" xs n lt x] assms
    list_rep_elem(7)[of h l "[]" x xs] list_next_rep[of h l "[]" x xs]
  by (simp_all add: list_max_def list_min_def list_begin_rep list_end_rep)

section \<open>Reversal\<close>

text \<open>\<open>flip A h\<close>: the two links of every element of \<open>A\<close> exchanged.\<close>

definition flip :: "ptr set \<Rightarrow> lheap \<Rightarrow> lheap" where
  "flip A h = (\<lambda>p. if p \<in> A then map_option (\<lambda>x. x\<lparr>prv := nxt x, nxt := prv x\<rparr>) (h p) else h p)"

lemma flip_empty [simp]: "flip {} h = h"
  by (simp add: flip_def)

lemma dom_flip [simp]: "dom (flip A h) = dom h"
  by (auto simp: flip_def split: if_splits)

lemma nx_flip: "nx (flip A h) p = (if p \<in> A then pv h p else nx h p)"
  by (cases "h p") (simp_all add: nx_def pv_def flip_def)

lemma pv_flip: "pv (flip A h) p = (if p \<in> A then nx h p else pv h p)"
  by (cases "h p") (simp_all add: nx_def pv_def flip_def)

lemma swap_links_flip: "p \<in> dom h \<Longrightarrow> swap_links p h = Inr (flip {p} h)"
  by (auto simp: swap_links_def flip_def fun_eq_iff)

lemma flip_flip: "A \<inter> B = {} \<Longrightarrow> flip A (flip B h) = flip (B \<union> A) h"
  by (auto simp: flip_def fun_eq_iff)

lemma list_reverse_loop_rep:
  "list_rep h l (xs @ ys) \<Longrightarrow> length ys < n \<Longrightarrow>
   list_reverse_loop n (pos l ys) (list_tail l) (flip (set xs) h) = Inr (flip (set (xs @ ys)) h)"
proof (induction ys arbitrary: xs n)
  case Nil
  then show ?case by (cases n) simp_all
next
  case (Cons y ys)
  then obtain m where m: "n = Suc m" "length ys < m" by (cases n) auto
  note e = list_rep_elem[OF Cons.prems(1)]
  have "y \<notin> set xs" using list_repD(1)[OF Cons.prems(1)] by (simp add: nodes_def)
  then have f: "flip {y} (flip (set xs) h) = flip (set (xs @ [y])) h"
    by (simp add: flip_flip)
  show ?case
    using Cons.IH[of "xs @ [y]" m] Cons.prems m e
    by (simp add: swap_links_flip f pv_flip)
qed

lemma links_ends:
  "xs \<noteq> [] \<Longrightarrow> links f (a # xs @ [b]) \<longleftrightarrow> f a = hd xs \<and> links f xs \<and> f (List.last xs) = b"
proof -
  assume "xs \<noteq> []"
  then obtain ys c where xs: "xs = ys @ [c]" by (cases xs rule: rev_cases) auto
  have "links f (a # xs) \<longleftrightarrow> f a = hd xs \<and> links f xs" using \<open>xs \<noteq> []\<close> by (cases xs) auto
  then show ?thesis using links_snoc2[of f "a # ys" c b] by (simp add: xs)
qed

lemma list_rep_nonempty:
  assumes "xs \<noteq> []"
  shows "list_rep h l xs \<longleftrightarrow>
     distinct (nodes l xs) \<and> NULL \<notin> set (nodes l xs) \<and> set (nodes l xs) \<subseteq> dom h
     \<and> nx h (list_head l) = hd xs \<and> links (nx h) xs \<and> nx h (List.last xs) = list_tail l
     \<and> pv h (list_tail l) = List.last xs \<and> links (pv h) (rev xs) \<and> pv h (hd xs) = list_head l
     \<and> pv h (list_head l) = NULL \<and> nx h (list_tail l) = NULL"
  using assms links_ends[of xs "nx h" "list_head l" "list_tail l"]
    links_ends[of "rev xs" "pv h" "list_tail l" "list_head l"]
  by (auto simp: list_rep_def nodes_def hd_rev last_rev)

text \<open>The four field writes that end \<open>list_reverse\<close>; \<open>a\<close> is the first element and
  \<open>b\<close> the last one before the call.\<close>

definition reverse_heap :: "ptr \<Rightarrow> ptr \<Rightarrow> ptr \<Rightarrow> lheap \<Rightarrow> lheap" where
  "reverse_heap l a b h =
     setn a (list_tail l) (setp b (list_head l) (setp (list_tail l) a (setn (list_head l) b h)))"

lemma list_reverse_heap:
  assumes rep: "list_rep h l xs" and n: "length xs < n" and ne: "xs \<noteq> []"
  shows "list_reverse n l h = Inr (reverse_heap l (hd xs) (List.last xs) (flip (set xs) h))"
proof -
  note r = rep[unfolded list_rep_nonempty[OF ne]]
  let ?a = "hd xs" and ?b = "List.last xs"
  have mem: "?a \<in> set xs" "?b \<in> set xs" using ne by simp_all
  have d: "?a \<in> dom h" "?b \<in> dom h" "list_head l \<in> dom h" "list_tail l \<in> dom h"
    and ht: "list_head l \<noteq> list_tail l" "list_head l \<notin> set xs" "list_tail l \<notin> set xs"
    using r mem by (auto simp: nodes_def)
  then have ne': "?a \<noteq> list_head l" "?b \<noteq> list_head l" "?a \<noteq> list_tail l" "?b \<noteq> list_tail l"
    using mem by auto
  have "list_reverse_loop n (pos l xs) (list_tail l) h = Inr (flip (set xs) h)"
    using list_reverse_loop_rep[of h l "[]" xs n] rep n by simp
  then show ?thesis
    using rep ne d ht ne' mem r
    by (simp add: list_reverse_def walk_rep swap_next_prev_def swap_prev_next_def nx_flip pv_flip
        reverse_heap_def)
qed

lemma list_reverse_rep:
  assumes rep: "list_rep h l xs" and n: "length xs < n"
  shows "\<exists>h'. list_reverse n l h = Inr h' \<and> list_rep h' l (rev xs)
     \<and> same_outside (set (nodes l xs)) h h'"
proof (cases "xs = []")
  case True
  then show ?thesis using rep by (simp add: list_reverse_def list_empty_rep)
next
  case ne: False
  note r = rep[unfolded list_rep_nonempty[OF ne]]
  let ?h = "reverse_heap l (hd xs) (List.last xs) (flip (set xs) h)"
  have mem: "hd xs \<in> set xs" "List.last xs \<in> set xs" using ne by simp_all
  then have d: "hd xs \<in> dom h" "List.last xs \<in> dom h" "list_head l \<in> dom h" "list_tail l \<in> dom h"
    and ht: "list_head l \<noteq> list_tail l" "list_head l \<notin> set xs" "list_tail l \<notin> set xs"
    and dx: "distinct xs"
    using r by (auto simp: nodes_def)
  have nx': "nx ?h = (nx (flip (set xs) h))(list_head l := List.last xs, hd xs := list_tail l)"
    and pv': "pv ?h = (pv (flip (set xs) h))(list_tail l := hd xs, List.last xs := list_head l)"
    using d by (simp_all add: reverse_heap_def)
  have dom': "dom ?h = dom h" using d by (auto simp: reverse_heap_def)
  have "links (nx ?h) (rev xs) = links (pv h) (rev xs)"
    using butlast_not_last[of "rev xs"] dx ht ne
    unfolding nx' by (intro links_cong) (auto simp: nx_flip last_rev)
  moreover have "links (pv ?h) xs = links (nx h) xs"
    using butlast_not_last[of xs] dx ht
    unfolding pv' by (intro links_cong) (auto simp: pv_flip)
  moreover have "list_tail l \<noteq> hd xs" "list_tail l \<noteq> List.last xs" "list_head l \<noteq> hd xs"
    "list_head l \<noteq> List.last xs" using ht mem by auto
  ultimately have "list_rep ?h l (rev xs)"
    using r ne ht dom' by (simp add: list_rep_nonempty nx' pv' nx_flip pv_flip hd_rev last_rev nodes_def)
  moreover have "same_outside (set (nodes l xs)) h ?h"
    using dom' mem by (auto simp: same_outside_def reverse_heap_def flip_def nodes_def setp_def setn_def)
  ultimately show ?thesis using list_reverse_heap[OF rep n ne] by blast
qed

section \<open>Removal of adjacent duplicates\<close>

text \<open>What is kept of \<open>x # ys\<close>, and what is removed, in order.\<close>

fun uniq :: "('a \<Rightarrow> 'a \<Rightarrow> bool) \<Rightarrow> 'a \<Rightarrow> 'a list \<Rightarrow> 'a list \<times> 'a list" where
  "uniq lt x [] = ([x], [])"
| "uniq lt x (y # ys) =
     (if \<not> lt x y \<and> \<not> lt y x then let (u, d) = uniq lt x ys in (u, y # d)
      else let (u, d) = uniq lt y ys in (x # u, d))"

text \<open>The optional list of duplicates: \<open>NULL\<close>, or a list apart from the first one.\<close>

definition dups_rep :: "lheap \<Rightarrow> ptr \<Rightarrow> ptr list \<Rightarrow> ptr set \<Rightarrow> bool" where
  "dups_rep h d ds A \<longleftrightarrow> d = NULL \<or> list_rep h d ds \<and> set (nodes d ds) \<inter> A = {}"

lemma list_unique_remove_rep:
  assumes rep: "list_rep h l (xs @ x # y # ys)"
    and d: "dups_rep h d ds (set (nodes l (xs @ x # y # ys)))"
  shows "\<exists>h1 h2. list_remove y h = Inr (pos l ys, h1)
     \<and> (if d \<noteq> NULL then list_push_back d y h1 else Inr h1) = Inr h2
     \<and> list_rep h2 l (xs @ x # ys)
     \<and> dups_rep h2 d (ds @ [y]) (set (nodes l (xs @ x # ys)))
     \<and> same_outside (set (nodes l (xs @ x # y # ys)) \<union> (if d = NULL then {} else set (nodes d ds))) h h2"
proof -
  let ?A = "set (nodes l (xs @ x # ys))" and ?Ay = "set (nodes l (xs @ x # y # ys))"
  have A: "?Ay = insert y ?A" "y \<notin> ?A" "y \<noteq> NULL" "y \<in> dom h"
    using list_repD(1-3)[OF rep] by (auto simp: nodes_def)
  obtain h1 where h1: "list_remove y h = Inr (pos l ys, h1)" "list_rep h1 l (xs @ x # ys)"
    "same_outside ?A h h1"
    using list_remove_rep[of h l "xs @ [x]" y ys] rep by auto
  show ?thesis
  proof (cases "d = NULL")
    case True
    then show ?thesis using h1 A same_outside_mono[OF h1(3)] by (auto simp: dups_rep_def)
  next
    case False
    then have dr: "list_rep h d ds" "set (nodes d ds) \<inter> ?Ay = {}" using d by (auto simp: dups_rep_def)
    then have "list_rep h1 d ds" using h1(3) A by (auto intro: list_rep_same)
    moreover have "y \<in> dom h1" using h1(3) A by (simp add: same_outside_def)
    moreover have "y \<notin> set (nodes d ds)" using dr A by auto
    ultimately obtain h2 where h2: "list_push_back d y h1 = Inr h2" "list_rep h2 d (ds @ [y])"
      "same_outside (insert y (set (nodes d ds))) h1 h2"
      using list_push_back_rep A(3) by blast
    have l2: "list_rep h2 l (xs @ x # ys)"
      using h1(2) h2(3) dr A by (auto intro: list_rep_same)
    have "same_outside (?Ay \<union> set (nodes d ds)) h h2"
      using same_outside_mono[OF h1(3), of "?Ay \<union> set (nodes d ds)"]
        same_outside_mono[OF h2(3), of "?Ay \<union> set (nodes d ds)"] A
      by (auto intro: same_outside_trans)
    moreover have "dups_rep h2 d (ds @ [y]) ?A"
      using h2(2) dr A by (auto simp: dups_rep_def nodes_def)
    ultimately show ?thesis using h1(1) h2(1) l2 False by auto
  qed
qed

definition uniq_area :: "ptr \<Rightarrow> ptr list \<Rightarrow> ptr \<Rightarrow> ptr list \<Rightarrow> ptr set" where
  "uniq_area l xs d ds = set (nodes l xs) \<union> (if d = NULL then {} else set (nodes d ds))"

lemma list_unique_loop_rep:
  "list_rep h l (xs @ x # ys) \<Longrightarrow> dups_rep h d ds (set (nodes l (xs @ x # ys))) \<Longrightarrow> length ys < n \<Longrightarrow>
   \<exists>h'. list_unique_loop n lt d (list_tail l) x h = Inr h'
     \<and> list_rep h' l (xs @ fst (uniq lt x ys))
     \<and> (d = NULL \<or> list_rep h' d (ds @ snd (uniq lt x ys)))
     \<and> same_outside (uniq_area l (xs @ x # ys) d ds) h h'"
proof (induction ys arbitrary: xs x n h ds)
  case Nil
  then obtain m where "n = Suc m" by (cases n) auto
  then show ?case using Nil list_next_rep[OF Nil(1)] by (auto simp: dups_rep_def)
next
  case (Cons y ys)
  then obtain m where n: "n = Suc m" "length ys < m" by (cases n) auto
  have nx: "list_next x h = Inr y" using list_next_rep[OF Cons.prems(1)] by simp
  have yt: "y \<noteq> list_tail l" using list_rep_elem(7)[of h l "xs @ [x]" y ys] Cons.prems(1) by simp
  show ?case
  proof (cases "\<not> lt x y \<and> \<not> lt y x")
    case True
    obtain h1 h2 where h: "list_remove y h = Inr (pos l ys, h1)"
      "(if d \<noteq> NULL then list_push_back d y h1 else Inr h1) = Inr h2"
      "list_rep h2 l (xs @ x # ys)" "dups_rep h2 d (ds @ [y]) (set (nodes l (xs @ x # ys)))"
      and s: "same_outside (uniq_area l (xs @ x # y # ys) d ds) h h2"
      using list_unique_remove_rep[OF Cons.prems(1,2)] unfolding uniq_area_def by blast
    obtain h' where h': "list_unique_loop m lt d (list_tail l) x h2 = Inr h'"
      "list_rep h' l (xs @ fst (uniq lt x ys))"
      "d = NULL \<or> list_rep h' d ((ds @ [y]) @ snd (uniq lt x ys))"
      "same_outside (uniq_area l (xs @ x # ys) d (ds @ [y])) h2 h'"
      using Cons.IH[OF h(3,4) n(2)] by blast
    have "uniq_area l (xs @ x # ys) d (ds @ [y]) \<subseteq> uniq_area l (xs @ x # y # ys) d ds"
      by (auto simp: uniq_area_def nodes_def)
    then have "same_outside (uniq_area l (xs @ x # y # ys) d ds) h h'"
      using same_outside_mono[OF h'(4)] same_outside_trans[OF s] by blast
    then show ?thesis
      using h' nx yt h(1,2) n(1) True by (auto simp: split: prod.splits)
  next
    case False
    have "\<exists>h'. list_unique_loop m lt d (list_tail l) y h = Inr h'
     \<and> list_rep h' l ((xs @ [x]) @ fst (uniq lt y ys))
     \<and> (d = NULL \<or> list_rep h' d (ds @ snd (uniq lt y ys)))
     \<and> same_outside (uniq_area l ((xs @ [x]) @ y # ys) d ds) h h'"
      by (rule Cons.IH) (use Cons.prems n(2) in simp_all)
    then show ?thesis using nx yt n(1) False by (auto split: prod.splits)
  qed
qed

lemma list_unique_rep:
  assumes rep: "list_rep h l (x # ys)" and d: "dups_rep h d ds (set (nodes l (x # ys)))"
    and n: "length ys < n"
  shows "\<exists>h'. list_unique n l d lt h = Inr h' \<and> list_rep h' l (fst (uniq lt x ys))
     \<and> (d = NULL \<or> list_rep h' d (ds @ snd (uniq lt x ys)))
     \<and> same_outside (uniq_area l (x # ys) d ds) h h'"
  using list_unique_loop_rep[of h l "[]" x ys d ds n lt] assms list_rep_ends(1)[OF rep]
  by (simp add: list_unique_def walk_rep)

end
