(* ===== verification/Klist_Sort.thy ===== *)
theory Klist_Sort
  imports Klist_Rep
begin

text \<open>
  \<open>list_sort\<close> of \<open>list.c\<close>, a natural merge sort that relinks elements in place.

  Every step is related to a function on HOL lists: \<open>run_split\<close> cuts the maximal ordered
  run off a list, \<open>amerge\<close> merges two runs, \<open>apass\<close> is one pass over the list and
  counts the runs it outputs.  The number of runs of a list, \<open>nruns\<close>, at least nearly
  halves in a pass, so the outer loop ends.  The locale \<open>strict_weak_order\<close> is what
  \<open>list.h\<close> demands of a \<open>list_less_func\<close>.
\<close>

section \<open>Moving a segment\<close>

lemma links_app:
  "xs \<noteq> [] \<Longrightarrow> ys \<noteq> [] \<Longrightarrow>
   links f (xs @ ys) \<longleftrightarrow> links f xs \<and> f (List.last xs) = hd ys \<and> links f ys"
proof -
  assume "xs \<noteq> []" "ys \<noteq> []"
  then obtain as a b bs where "xs = as @ [a]" "ys = b # bs"
    by (metis append_butlast_last_id list.exhaust)
  then show ?thesis using links_append[of f as a "b # bs"] by auto
qed

lemma links_app4:
  assumes "links f (P @ ys @ fs @ Z)" "P \<noteq> []" "ys \<noteq> []" "fs \<noteq> []" "Z \<noteq> []"
  shows "links f P" "links f ys" "links f fs" "links f Z"
    and "f (List.last P) = hd ys" "f (List.last ys) = hd fs" "f (List.last fs) = hd Z"
  using assms by (simp_all add: links_app)

lemma last_notin_butlast [simp]: "distinct xs \<Longrightarrow> List.last xs \<notin> set (butlast xs)"
  using butlast_not_last(2) by fastforce

lemma links_swap:
  assumes l: "links f (P @ ys @ fs @ Z)" and d: "distinct (P @ ys @ fs @ Z)"
    and ne: "P \<noteq> []" "ys \<noteq> []" "fs \<noteq> []" "Z \<noteq> []"
  shows "links (f(List.last ys := hd Z, List.last fs := hd ys, List.last P := hd fs)) (P @ fs @ ys @ Z)"
proof -
  let ?f = "f(List.last ys := hd Z, List.last fs := hd ys, List.last P := hd fs)"
  have mem: "List.last ys \<in> set ys" "List.last fs \<in> set fs" "List.last P \<in> set P" using ne by simp_all
  note links_app4(1-4)[OF l ne]
  moreover have "List.last P \<notin> set ys \<union> set fs \<union> set Z" "List.last fs \<notin> set P \<union> set ys \<union> set Z"
    "List.last ys \<notin> set P \<union> set fs \<union> set Z"
    using d mem by auto
  ultimately have "links ?f P" "links ?f ys" "links ?f fs" "links ?f Z" using d by simp_all
  moreover have "?f (List.last P) = hd fs" "?f (List.last fs) = hd ys" "?f (List.last ys) = hd Z"
    using d mem by auto
  ultimately show ?thesis using ne by (simp add: links_app)
qed

lemma links_swap_rev:
  assumes l: "links f (rev (P @ ys @ fs @ Z))" and d: "distinct (P @ ys @ fs @ Z)"
    and ne: "P \<noteq> []" "ys \<noteq> []" "fs \<noteq> []" "Z \<noteq> []"
  shows "links (f(hd fs := List.last P, hd ys := List.last fs, hd Z := List.last ys)) (rev (P @ fs @ ys @ Z))"
proof -
  have "links f (rev Z @ rev fs @ rev ys @ rev P)" using l by simp
  moreover have "distinct (rev Z @ rev fs @ rev ys @ rev P)" using d by auto
  ultimately show ?thesis
    using links_swap[of f "rev Z" "rev fs" "rev ys" "rev P"] ne by (simp add: hd_rev last_rev)
qed

definition splice_heap :: "ptr \<Rightarrow> ptr \<Rightarrow> ptr \<Rightarrow> ptr \<Rightarrow> ptr \<Rightarrow> ptr \<Rightarrow> lheap \<Rightarrow> lheap" where
  "splice_heap p y0 y1 f0 f1 z h =
     setp y0 f1 (setn p f0 (setn f1 y0 (setp f0 p (setp z y1 (setn y1 z h)))))"

text \<open>The nodes around two adjacent non-empty segments.\<close>

lemma splice_nodes:
  assumes rep: "list_rep h l (pre @ ys @ fs @ zs)" and ne: "ys \<noteq> []" "fs \<noteq> []"
  defines "p \<equiv> before l pre" and "z \<equiv> pos l zs"
  shows "nodes l (pre @ ys @ fs @ zs) = (list_head l # pre) @ ys @ fs @ (zs @ [list_tail l])"
    and "{p, hd ys, List.last ys, hd fs, List.last fs, z} \<subseteq> dom h - {NULL}"
    and "nx h p = hd ys" "pv h (hd ys) = p" "nx h (List.last ys) = hd fs"
    and "pv h (hd fs) = List.last ys" "nx h (List.last fs) = z" "pv h z = List.last fs"
    and "nx h (hd fs) \<noteq> NULL" "nx h (hd ys) \<noteq> NULL" "pv h (List.last fs) \<noteq> NULL"
    and "{p, hd ys, List.last ys, hd fs, List.last fs, z} \<subseteq> set (nodes l (pre @ ys @ fs @ zs))"
proof -
  note D = list_repD[OF rep]
  show ns: "nodes l (pre @ ys @ fs @ zs) = (list_head l # pre) @ ys @ fs @ (zs @ [list_tail l])"
    by (simp add: nodes_def)
  have "links (nx h) ((list_head l # pre) @ ys @ fs @ (zs @ [list_tail l]))"
    "links (pv h) (rev (zs @ [list_tail l]) @ rev fs @ rev ys @ rev (list_head l # pre))"
    using D(4,5) unfolding ns by simp_all
  from this(1)[THEN links_app4(5)] this(1)[THEN links_app4(6)] this(1)[THEN links_app4(7)]
    this(2)[THEN links_app4(5)] this(2)[THEN links_app4(6)] this(2)[THEN links_app4(7)]
  show "nx h p = hd ys" "pv h (hd ys) = p" "nx h (List.last ys) = hd fs"
    "pv h (hd fs) = List.last ys" "nx h (List.last fs) = z" "pv h z = List.last fs"
    using ne by (simp_all add: hd_rev last_rev p_def z_def before_def pos_def
        del: rev_append rev.simps)
  have "list_rep h l (pre @ hd ys # tl ys @ fs @ zs)" using rep ne by (cases ys) simp_all
  moreover have "list_rep h l ((pre @ ys) @ hd fs # tl fs @ zs)" using rep ne by (cases fs) simp_all
  moreover have "list_rep h l ((pre @ ys @ butlast fs) @ List.last fs # zs)"
    using rep ne by (cases fs rule: rev_cases) simp_all
  ultimately show "nx h (hd fs) \<noteq> NULL" "nx h (hd ys) \<noteq> NULL" "pv h (List.last fs) \<noteq> NULL"
    using list_rep_elem(1-4) by metis+
  show sub: "{p, hd ys, List.last ys, hd fs, List.last fs, z} \<subseteq> set (nodes l (pre @ ys @ fs @ zs))"
    unfolding ns using ne by (auto simp: p_def z_def before_def pos_def)
  then show "{p, hd ys, List.last ys, hd fs, List.last fs, z} \<subseteq> dom h - {NULL}"
    using D(2,3) by blast
qed

lemma list_splice_fields:
  assumes d: "p \<in> dom h" "y0 \<in> dom h" "y1 \<in> dom h" "f0 \<in> dom h" "f1 \<in> dom h" "z \<in> dom h"
    and nn: "p \<noteq> NULL" "y0 \<noteq> NULL" "y1 \<noteq> NULL" "f0 \<noteq> NULL" "f1 \<noteq> NULL" "z \<noteq> NULL"
    and f: "pv h y0 = p" "pv h f0 = y1" "nx h f1 = z" "pv h z = f1"
      "nx h f0 \<noteq> NULL" "nx h y0 \<noteq> NULL" "pv h f1 \<noteq> NULL"
    and ne: "f0 \<noteq> z" "f0 \<noteq> y0" "y0 \<noteq> z" "y1 \<noteq> f1"
  shows "list_splice y0 f0 z h = Inr (splice_heap p y0 y1 f0 f1 z h)"
proof -
  have i: "is_interior y0 h = Inr True" "is_interior f0 h = Inr True" "is_interior f1 h = Inr True"
    using d nn f by (simp_all add: is_interior_iff)
  have t: "is_tail y0 h = Inr False" using d nn f by (simp add: is_tail_iff)
  have p: "list_prev z h = Inr f1" using d nn f by (simp add: list_prev_pv)
  show ?thesis
    using d f(1-4) ne by (simp add: list_splice_def i t p splice_heap_def)
qed

lemma distinct4:
  assumes "distinct (P @ ys @ fs @ Z)" "p \<in> set P" "y \<in> set ys" "f \<in> set fs" "z \<in> set Z"
  shows "f \<noteq> z" "f \<noteq> y" "y \<noteq> z" "y \<noteq> f" "p \<noteq> y" "p \<noteq> f" "p \<noteq> z"
  using assms by auto

lemma splice_members:
  assumes "ys \<noteq> []" "fs \<noteq> []"
  shows "hd ys \<in> set ys" "hd fs \<in> set fs" "List.last ys \<in> set ys" "List.last fs \<in> set fs"
    "pos l zs \<in> set (zs @ [list_tail l])" "before l pre \<in> set (list_head l # pre)"
  using assms by (simp_all add: pos_def before_def)

lemma list_splice_heap:
  assumes rep: "list_rep h l (pre @ ys @ fs @ zs)" and ne: "ys \<noteq> []" "fs \<noteq> []"
  shows "list_splice (hd ys) (hd fs) (pos l zs) h
     = Inr (splice_heap (before l pre) (hd ys) (List.last ys) (hd fs) (List.last fs) (pos l zs) h)"
proof -
  note s = splice_nodes[OF rep ne] and m = splice_members[OF ne]
  have d: "distinct ((list_head l # pre) @ ys @ fs @ (zs @ [list_tail l]))"
    using list_repD(1)[OF rep] unfolding s(1) .
  show ?thesis
    using distinct4(1-3)[OF d m(6) m(1) m(2) m(5)] distinct4(4)[OF d m(6) m(3) m(4) m(5)] s(2)
    by (intro list_splice_fields s(4) s(6-11)) auto
qed

lemma list_rep_splice_heap:
  assumes rep: "list_rep h l (pre @ ys @ fs @ zs)" and ne: "ys \<noteq> []" "fs \<noteq> []"
  defines "h' \<equiv> splice_heap (before l pre) (hd ys) (List.last ys) (hd fs) (List.last fs) (pos l zs) h"
  shows "list_rep h' l (pre @ fs @ ys @ zs)"
    and "same_outside (set (nodes l (pre @ ys @ fs @ zs))) h h'"
proof -
  note s = splice_nodes[OF rep ne] and D = list_repD[OF rep] and m = splice_members[OF ne]
  let ?P = "list_head l # pre" and ?Z = "zs @ [list_tail l]"
  let ?p = "before l pre" and ?z = "pos l zs"
  have d: "distinct (?P @ ys @ fs @ ?Z)" using D(1) unfolding s(1) .
  have ns': "nodes l (pre @ fs @ ys @ zs) = ?P @ fs @ ys @ ?Z" by (simp add: nodes_def)
  have dom: "?p \<in> dom h" "hd ys \<in> dom h" "List.last ys \<in> dom h" "hd fs \<in> dom h"
    "List.last fs \<in> dom h" "?z \<in> dom h" using s(2) by auto
  then have dom': "dom h' = dom h" by (auto simp: h'_def splice_heap_def)
  have nx': "nx h' = (nx h)(List.last ys := ?z, List.last fs := hd ys, ?p := hd fs)"
    and pv': "pv h' = (pv h)(?z := List.last ys, hd fs := ?p, hd ys := List.last fs)"
    using dom by (simp_all add: h'_def splice_heap_def)
  have "links (nx h') (?P @ fs @ ys @ ?Z)"
    using links_swap[of "nx h" ?P ys fs ?Z] D(4) d ne unfolding nx' s(1)
    by (simp add: before_def pos_def)
  moreover have "pv h' = (pv h)(hd fs := ?p, hd ys := List.last fs, ?z := List.last ys)"
    using distinct4(1-3)[OF d m(6) m(1) m(2) m(5)] unfolding pv' by (auto simp: fun_eq_iff)
  then have "links (pv h') (rev (?P @ fs @ ys @ ?Z))"
    using links_swap_rev[of "pv h" ?P ys fs ?Z] D(5) d ne unfolding s(1)
    by (simp add: before_def pos_def)
  moreover have "pv h' (list_head l) = NULL" "nx h' (list_tail l) = NULL"
    using D(6,7) distinct4[OF d _ m(1) m(2) m(5), of "list_head l"]
      distinct4[OF d m(6) m(3) m(4), of "list_tail l"] unfolding nx' pv' by auto
  moreover have "distinct (?P @ fs @ ys @ ?Z)" using d by auto
  moreover have eq: "set (?P @ fs @ ys @ ?Z) = set (nodes l (pre @ ys @ fs @ zs))"
    unfolding s(1) by auto
  ultimately show "list_rep h' l (pre @ fs @ ys @ zs)"
    using D(2,3) unfolding dom'[symmetric] eq[symmetric] by (intro list_repI[OF ns'[symmetric]])
  have "same_outside {?p, hd ys, List.last ys, hd fs, List.last fs, ?z} h h'"
    using dom' by (simp add: same_outside_def h'_def splice_heap_def)
  then show "same_outside (set (nodes l (pre @ ys @ fs @ zs))) h h'"
    by (rule same_outside_mono) (rule s(12))
qed

lemma list_splice_rep:
  assumes "list_rep h l (pre @ ys @ fs @ zs)" "ys \<noteq> []" "fs \<noteq> []"
  shows "\<exists>h'. list_splice (hd ys) (hd fs) (pos l zs) h = Inr h' \<and> list_rep h' l (pre @ fs @ ys @ zs)
     \<and> same_outside (set (nodes l (pre @ ys @ fs @ zs))) h h'"
  using list_splice_heap[OF assms] list_rep_splice_heap[OF assms] by blast

section \<open>Runs and merges\<close>

text \<open>\<open>in_order lt xs\<close>: no element is less than the one before it.\<close>

abbreviation in_order :: "('a \<Rightarrow> 'a \<Rightarrow> bool) \<Rightarrow> 'a list \<Rightarrow> bool" where
  "in_order lt \<equiv> successively (\<lambda>a b. \<not> lt b a)"

lemma pos_eq_iff:
  assumes "list_rep h l (pre @ ys @ zs)"
  shows "pos l (ys @ zs) = pos l zs \<longleftrightarrow> ys = []"
  using list_repD(1)[OF assms] by (cases ys; cases zs) (auto simp: nodes_def)

lemma is_sorted_loop_rep:
  "list_rep h l (pre @ x # ys @ zs) \<Longrightarrow> length ys < n \<Longrightarrow>
   is_sorted_loop n lt x (pos l zs) h = Inr (in_order lt (x # ys))"
proof (induction ys arbitrary: pre x n)
  case Nil
  then obtain m where "n = Suc m" by (cases n) auto
  then show ?case using list_next_rep[OF Nil(1)] by simp
next
  case (Cons y ys)
  then obtain m where n: "n = Suc m" "length ys < m" by (cases n) auto
  have "list_next x h = Inr y" using list_next_rep[OF Cons.prems(1)] by simp
  moreover have "y \<noteq> pos l zs" using pos_eq_iff[of h l "pre @ [x]" "y # ys" zs] Cons.prems(1) by simp
  moreover have "list_prev y h = Inr x"
    using list_prev_rep[of h l "pre @ [x]" "y # ys @ zs"] Cons.prems(1) by simp
  moreover have "is_sorted_loop m lt y (pos l zs) h = Inr (in_order lt (y # ys))"
    using Cons.IH[of "pre @ [x]" y m] Cons.prems n by simp
  ultimately show ?case using n by simp
qed

lemma is_sorted_rep:
  assumes "list_rep h l (pre @ ys @ zs)" "length ys \<le> n"
  shows "is_sorted n lt (pos l (ys @ zs)) (pos l zs) h = Inr (in_order lt ys)"
proof (cases ys)
  case (Cons y ys')
  then show ?thesis
    using is_sorted_loop_rep[of h l pre y ys' zs n lt] pos_eq_iff[OF assms(1)] assms
    by (simp add: is_sorted_def)
qed (simp add: is_sorted_def)

fun run_split :: "('a \<Rightarrow> 'a \<Rightarrow> bool) \<Rightarrow> 'a \<Rightarrow> 'a list \<Rightarrow> 'a list \<times> 'a list" where
  "run_split lt x [] = ([x], [])"
| "run_split lt x (y # ys) =
     (if \<not> lt y x then let (r, s) = run_split lt y ys in (x # r, s) else ([x], y # ys))"

lemma run_split_append: "fst (run_split lt x ys) @ snd (run_split lt x ys) = x # ys"
  by (induction lt x ys rule: run_split.induct) (auto split: prod.splits)

lemma run_split_Cons: "\<exists>r. fst (run_split lt x ys) = x # r"
  by (cases ys) (auto split: prod.splits)

lemma run_split_in_order: "in_order lt (fst (run_split lt x ys))"
proof (induction ys arbitrary: x)
  case (Cons y ys)
  obtain r where "fst (run_split lt y ys) = y # r" using run_split_Cons[of lt y ys] ..
  then show ?case using Cons[of y] by (simp add: case_prod_unfold)
qed simp

lemma run_split_length: "length (snd (run_split lt x ys)) \<le> length ys"
  using arg_cong[OF run_split_append[of lt x ys], of length] run_split_Cons[of lt x ys] by auto

lemma find_end_of_run_loop_rep:
  "list_rep h l (pre @ x # ys) \<Longrightarrow> length ys < n \<Longrightarrow>
   find_end_of_run_loop n lt x (list_tail l) h = Inr (pos l (snd (run_split lt x ys)))"
proof (induction ys arbitrary: pre x n)
  case Nil
  then obtain m where "n = Suc m" by (cases n) auto
  then show ?case using list_next_rep[OF Nil(1)] by simp
next
  case (Cons y ys)
  then obtain m where n: "n = Suc m" "length ys < m" by (cases n) auto
  have "list_next x h = Inr y" using list_next_rep[OF Cons.prems(1)] by simp
  moreover have "y \<noteq> list_tail l" using list_rep_elem(7)[of h l "pre @ [x]" y ys] Cons.prems(1) by simp
  moreover have "list_prev y h = Inr x"
    using list_prev_rep[of h l "pre @ [x]" "y # ys"] Cons.prems(1) by simp
  moreover have "find_end_of_run_loop m lt y (list_tail l) h = Inr (pos l (snd (run_split lt y ys)))"
    using Cons.IH[of "pre @ [x]" y m] Cons.prems n by simp
  ultimately show ?case using n by (simp split: prod.splits)
qed

lemma find_end_of_run_rep:
  assumes "list_rep h l (pre @ x # ys)" "length ys < n"
  shows "find_end_of_run n lt x (list_tail l) h = Inr (pos l (snd (run_split lt x ys)))"
  using find_end_of_run_loop_rep[OF assms] list_rep_elem[OF assms(1)] list_rep_ends[OF assms(1)]
  by (simp add: find_end_of_run_def)

fun amerge :: "('a \<Rightarrow> 'a \<Rightarrow> bool) \<Rightarrow> 'a list \<Rightarrow> 'a list \<Rightarrow> 'a list" where
  "amerge lt [] bs = bs"
| "amerge lt as [] = as"
| "amerge lt (a # as) (b # bs) =
     (if \<not> lt b a then a # amerge lt as (b # bs) else b # amerge lt (a # as) bs)"

lemma amerge_Nil2 [simp]: "amerge lt as [] = as"
  by (cases as) simp_all

lemma mset_amerge [simp]: "mset (amerge lt as bs) = mset as + mset bs"
  by (induction lt as bs rule: amerge.induct) auto

lemma set_amerge [simp]: "set (amerge lt as bs) = set as \<union> set bs"
  by (metis mset_amerge set_mset_mset set_mset_union)

lemma length_amerge [simp]: "length (amerge lt as bs) = length as + length bs"
  by (metis mset_amerge size_mset size_union)

lemma nodes_perm: "mset xs = mset ys \<Longrightarrow> set (nodes l xs) = set (nodes l ys)"
  by (auto simp: nodes_def dest: mset_eq_setD)

lemma inplace_merge_loop_rep:
  "list_rep h l (pre @ as @ bs @ post) \<Longrightarrow> length as + length bs < n \<Longrightarrow>
   \<exists>h'. inplace_merge_loop n lt (pos l (as @ bs @ post)) (pos l (bs @ post)) (pos l post) h = Inr h'
     \<and> list_rep h' l (pre @ amerge lt as bs @ post)
     \<and> same_outside (set (nodes l (pre @ as @ bs @ post))) h h'"
proof (induction lt as bs arbitrary: pre n h rule: amerge.induct)
  case (1 lt bs)
  then obtain m where "n = Suc m" by (cases n) auto
  then show ?case using 1 by simp
next
  case (2 lt a as)
  then obtain m where "n = Suc m" by (cases n) auto
  then show ?case using 2 by simp
next
  case (3 lt a as b bs)
  then obtain m where n: "n = Suc m" "length as + length bs + 1 < m" by (cases n) auto
  have ab: "a \<noteq> b" "b \<noteq> pos l post"
    using pos_eq_iff[of h l pre "a # as" "b # bs @ post"] pos_eq_iff[of h l "pre @ a # as" "b # bs" post]
      3(3) by simp_all
  show ?case
  proof (cases "lt b a")
    case False
    have "list_next a h = Inr (pos l (as @ b # bs @ post))"
      using list_next_rep[of h l pre a "as @ b # bs @ post"] 3(3) by simp
    then show ?thesis
      using 3(1)[of h "pre @ [a]" m] 3(3) n False ab by simp
  next
    case True
    have nx: "list_next b h = Inr (pos l (bs @ post))"
      using list_next_rep[of h l "pre @ a # as" b "bs @ post"] 3(3) by simp
    have pv: "list_prev (pos l (bs @ post)) h = Inr b"
      using list_prev_rep[of h l "pre @ a # as @ [b]" "bs @ post"] 3(3) by simp
    obtain h1 where h1: "list_splice a b (pos l (bs @ post)) h = Inr h1"
      "list_rep h1 l ((pre @ [b]) @ (a # as) @ bs @ post)"
      "same_outside (set (nodes l (pre @ (a # as) @ (b # bs) @ post))) h h1"
      using list_splice_rep[of h l pre "a # as" "[b]" "bs @ post"] 3(3) by auto
    have "set (nodes l ((pre @ [b]) @ (a # as) @ bs @ post)) = set (nodes l (pre @ (a # as) @ (b # bs) @ post))"
      by (rule nodes_perm) simp
    then show ?thesis
      using 3(2)[of h1 "pre @ [b]" m] h1 nx pv n True ab same_outside_trans[OF h1(3)] by auto
  qed
qed

lemma pos_not_NULL: "list_rep h l (xs @ ys) \<Longrightarrow> pos l ys \<noteq> NULL"
  using list_repD(2)[of h l "xs @ ys"] pos_in[of l ys xs] by metis

lemma inplace_merge_rep:
  assumes rep: "list_rep h l (pre @ as @ bs @ post)" and n: "length as + length bs < n"
    and s: "in_order lt as" "in_order lt bs"
  shows "\<exists>h'. inplace_merge n lt (pos l (as @ bs @ post)) (pos l (bs @ post)) (pos l post) h = Inr h'
     \<and> list_rep h' l (pre @ amerge lt as bs @ post)
     \<and> same_outside (set (nodes l (pre @ as @ bs @ post))) h h'"
proof -
  have rep2: "list_rep h l ((pre @ as) @ bs @ post)" and rep3: "list_rep h l ((pre @ as @ bs) @ post)"
    using rep by simp_all
  have "is_sorted n lt (pos l (as @ bs @ post)) (pos l (bs @ post)) h = Inr True"
    "is_sorted n lt (pos l (bs @ post)) (pos l post) h = Inr True"
    using is_sorted_rep[OF rep, of n lt] is_sorted_rep[OF rep2, of n lt] n s by simp_all
  then show ?thesis
    using inplace_merge_loop_rep[OF rep n, of lt] pos_not_NULL[OF rep] pos_not_NULL[OF rep2]
      pos_not_NULL[OF rep3]
    by (simp add: inplace_merge_def)
qed

section \<open>Passes\<close>

lemma run_split_le: "(r, s) = run_split lt x xs \<Longrightarrow> length s \<le> length xs"
  using run_split_length[of lt x xs] by (metis snd_conv)

function apass :: "('a \<Rightarrow> 'a \<Rightarrow> bool) \<Rightarrow> 'a list \<Rightarrow> nat \<times> 'a list" where
  "apass lt [] = (0, [])"
| "apass lt (x # xs) =
     (case run_split lt x xs of
        (r, []) \<Rightarrow> (1, r)
      | (r, y # ys) \<Rightarrow>
          let (r', s') = run_split lt y ys; (c, out) = apass lt s'
          in (Suc c, amerge lt r r' @ out))"
  by pat_completeness auto
termination
  by (relation "measure (length \<circ> snd)") (auto dest!: run_split_le)

text \<open>Induction over the list by pairs of runs.\<close>

lemma pass_induct [case_names Nil single pair]:
  assumes "P []"
    and "\<And>x xs r. run_split lt x xs = (r, []) \<Longrightarrow> P (x # xs)"
    and "\<And>x xs r y ys r' s'. run_split lt x xs = (r, y # ys) \<Longrightarrow> run_split lt y ys = (r', s') \<Longrightarrow>
       P s' \<Longrightarrow> P (x # xs)"
  shows "P xs"
proof (induction xs rule: length_induct)
  case (1 xs)
  show ?case
  proof (cases xs)
    case (Cons x xs')
    obtain r s where rs: "run_split lt x xs' = (r, s)" by fastforce
    show ?thesis
    proof (cases s)
      case (Cons y ys)
      obtain r' s' where rs': "run_split lt y ys = (r', s')" by fastforce
      have "length s' \<le> length ys" "length s \<le> length xs'"
        using run_split_length[of lt y ys] run_split_length[of lt x xs'] rs rs' by simp_all
      then have "P s'" using 1 Cons \<open>xs = x # xs'\<close> by simp
      then show ?thesis using assms(3) rs rs' Cons \<open>xs = x # xs'\<close> by blast
    qed (use assms(2) rs Cons in blast)
  qed (use assms(1) in simp)
qed

lemma run_split_parts:
  assumes "run_split lt x xs = (r, s)"
  shows "x # xs = r @ s" and "in_order lt r" and "r \<noteq> []" and "hd r = x"
  using run_split_append[of lt x xs] run_split_in_order[of lt x xs] run_split_Cons[of lt x xs] assms
  by auto

lemma apass_pair:
  assumes "run_split lt x xs = (r, y # ys)" "run_split lt y ys = (r', s')"
  shows "apass lt (x # xs) = (Suc (fst (apass lt s')), amerge lt r r' @ snd (apass lt s'))"
  using assms by (simp add: case_prod_unfold Let_def)

lemma apass_mset: "mset (snd (apass lt xs)) = mset xs"
proof (induction xs rule: pass_induct[of _ lt])
  case (single x xs r)
  then show ?case using arg_cong[OF run_split_parts(1)[OF single], of mset] by simp
next
  case (pair x xs r y ys r' s')
  have "x # xs = r @ r' @ s'"
    using run_split_parts(1)[OF pair(1)] run_split_parts(1)[OF pair(2)] by simp
  from arg_cong[OF this, of mset] show ?case
    using pair(3) apass_pair[OF pair(1,2)] by (simp add: ac_simps)
qed simp

lemma apass_loop_rep:
  "list_rep h l (pre @ xs) \<Longrightarrow> length xs < n \<Longrightarrow> length xs < m \<Longrightarrow>
   \<exists>h'. list_sort_pass n m lt l (pos l xs) cnt h = Inr (cnt + fst (apass lt xs), h')
     \<and> list_rep h' l (pre @ snd (apass lt xs)) \<and> same_outside (set (nodes l (pre @ xs))) h h'"
proof (induction xs arbitrary: h pre n cnt rule: pass_induct[of _ lt])
  case Nil
  then obtain k where "n = Suc k" by (cases n) auto
  then show ?case using Nil by (simp add: list_end_rep)
next
  case (single x xs r)
  then obtain k where n: "n = Suc k" by (cases n) auto
  have "r = x # xs" using run_split_parts(1)[OF single(1)] by simp
  moreover have "find_end_of_run m lt x (list_tail l) h = Inr (list_tail l)"
    using find_end_of_run_rep[OF single(2)] single by simp
  ultimately show ?case
    using single n list_rep_elem(7)[OF single(2)] by (simp add: list_end_rep)
next
  case (pair x xs r y ys r' s')
  then obtain k where n: "n = Suc k" by (cases n) auto
  note p = run_split_parts[OF pair(1)] and p' = run_split_parts[OF pair(2)]
  have xs: "x # xs = r @ r' @ s'" using p(1) p'(1) by simp
  have len: "length (x # xs) = length r + length r' + length s'" "length (x # xs) = length r + Suc (length ys)"
    using arg_cong[OF xs, of length] arg_cong[OF p(1), of length] by simp_all
  have rep: "list_rep h l (pre @ r @ r' @ s')" and repy: "list_rep h l ((pre @ r) @ y # ys)"
    using pair(4) p(1) p'(1) by simp_all
  have f1: "find_end_of_run m lt x (list_tail l) h = Inr y"
    using find_end_of_run_rep[OF pair(4)] pair by simp
  have f2: "find_end_of_run m lt y (list_tail l) h = Inr (pos l s')"
    using find_end_of_run_rep[OF repy, of m lt] pair len by simp
  have px: "pos l (r @ r' @ s') = x" "pos l (r' @ s') = y" by (metis pos_Cons xs, metis pos_Cons p'(1))
  obtain h1 where h1: "inplace_merge m lt x y (pos l s') h = Inr h1"
    "list_rep h1 l ((pre @ amerge lt r r') @ s')" "same_outside (set (nodes l (pre @ x # xs))) h h1"
    using inplace_merge_rep[OF rep _ p(2) p'(2), of m] len pair(6) unfolding px xs by auto
  have "length s' < k" using len n pair(5) p(3) by (cases r) auto
  then obtain h' where h': "list_sort_pass k m lt l (pos l s') (Suc cnt) h1 = Inr (Suc cnt + fst (apass lt s'), h')"
    "list_rep h' l ((pre @ amerge lt r r') @ snd (apass lt s'))"
    "same_outside (set (nodes l ((pre @ amerge lt r r') @ s'))) h1 h'"
    using pair(3)[OF h1(2), of k "Suc cnt"] len pair(6) by auto
  have "set (nodes l ((pre @ amerge lt r r') @ s')) = set (nodes l (pre @ x # xs))"
    unfolding xs by (rule nodes_perm) simp
  then have "same_outside (set (nodes l (pre @ x # xs))) h h'"
    using same_outside_trans[OF h1(3)] h'(3) by simp
  moreover have "y \<noteq> list_tail l" "x \<noteq> list_tail l"
    using list_rep_elem(7)[OF repy] list_rep_elem(7)[OF pair(4)] by simp_all
  ultimately show ?case
    using h'(1,2) h1(1) f1 f2 n apass_pair[OF pair(1,2)] list_end_rep[OF rep] by simp
qed

section \<open>The number of runs\<close>

fun descents :: "('a \<Rightarrow> 'a \<Rightarrow> bool) \<Rightarrow> 'a list \<Rightarrow> nat" where
  "descents lt (x # y # ys) = (if lt y x then 1 else 0) + descents lt (y # ys)"
| "descents lt _ = 0"

definition nruns :: "('a \<Rightarrow> 'a \<Rightarrow> bool) \<Rightarrow> 'a list \<Rightarrow> nat" where
  "nruns lt xs = (if xs = [] then 0 else Suc (descents lt xs))"

lemma descents_in_order: "descents lt xs = 0 \<longleftrightarrow> in_order lt xs"
  by (induction lt xs rule: descents.induct) auto

lemma descents_append: "descents lt (xs @ y # ys) \<le> Suc (descents lt xs + descents lt (y # ys))"
proof (induction xs)
  case Nil
  then show ?case by (simp add: le_SucI)
next
  case (Cons x xs)
  then show ?case by (cases xs) auto
qed

lemma nruns_append: "nruns lt (xs @ ys) \<le> nruns lt xs + nruns lt ys"
  using descents_append[of lt xs] by (cases ys) (auto simp: nruns_def)

lemma nruns_in_order: "in_order lt xs \<Longrightarrow> nruns lt xs \<le> 1"
  using descents_in_order[of lt xs] by (simp add: nruns_def)

lemma in_order_nruns: "nruns lt xs \<le> 1 \<Longrightarrow> in_order lt xs"
  using descents_in_order[of lt xs] by (auto simp: nruns_def split: if_splits)

lemma nruns_le_length: "nruns lt xs \<le> length xs"
proof -
  have "descents lt (x # xs) \<le> length xs" for x xs
    by (induction xs arbitrary: x) (simp_all add: le_SucI)
  then show ?thesis by (cases xs) (simp_all add: nruns_def)
qed

lemma nruns_run_split: "nruns lt (x # xs) = Suc (nruns lt (snd (run_split lt x xs)))"
  by (induction lt x xs rule: run_split.induct) (auto simp: nruns_def case_prod_unfold Let_def)

lemma apass_count: "2 * fst (apass lt xs) \<le> Suc (nruns lt xs)"
proof (induction xs rule: pass_induct[of _ lt])
  case (single x xs r)
  then show ?case using nruns_run_split[of lt x xs] by simp
next
  case (pair x xs r y ys r' s')
  then show ?case
    using nruns_run_split[of lt x xs] nruns_run_split[of lt y ys] apass_pair[OF pair(1,2)] by simp
qed simp

section \<open>Comparison functions\<close>

definition same_rank :: "('a \<Rightarrow> 'a \<Rightarrow> bool) \<Rightarrow> 'a \<Rightarrow> 'a \<Rightarrow> bool" where
  "same_rank lt k x \<longleftrightarrow> \<not> lt k x \<and> \<not> lt x k"

text \<open>A permutation that keeps the order of the elements of equal rank.\<close>

definition stable_perm :: "('a \<Rightarrow> 'a \<Rightarrow> bool) \<Rightarrow> 'a list \<Rightarrow> 'a list \<Rightarrow> bool" where
  "stable_perm lt xs ys \<longleftrightarrow>
     mset ys = mset xs \<and> (\<forall>k. filter (same_rank lt k) ys = filter (same_rank lt k) xs)"

lemma stable_perm_refl [simp]: "stable_perm lt xs xs"
  by (simp add: stable_perm_def)

lemma stable_perm_trans: "stable_perm lt xs ys \<Longrightarrow> stable_perm lt ys zs \<Longrightarrow> stable_perm lt xs zs"
  by (simp add: stable_perm_def)

lemma stable_perm_append:
  "stable_perm lt xs ys \<Longrightarrow> stable_perm lt xs' ys' \<Longrightarrow> stable_perm lt (xs @ xs') (ys @ ys')"
  by (simp add: stable_perm_def)

text \<open>The contract of a \<open>list_less_func\<close>: a strict weak order.\<close>

locale strict_weak_order =
  fixes lt :: "'a \<Rightarrow> 'a \<Rightarrow> bool"
  assumes asym: "lt a b \<Longrightarrow> \<not> lt b a"
    and cotrans: "lt a c \<Longrightarrow> lt a b \<or> lt b c"
begin

lemma in_order_sorted_wrt: "in_order lt xs \<longleftrightarrow> sorted_wrt (\<lambda>a b. \<not> lt b a) xs"
  by (rule successively_conv_sorted_wrt) (auto intro!: transpI dest: cotrans)

lemma hd_amerge: "hd (amerge lt as (b # bs)) = (if as = [] \<or> lt b (hd as) then b else hd as)"
  by (cases as) simp_all

lemma in_order_amerge: "in_order lt as \<Longrightarrow> in_order lt bs \<Longrightarrow> in_order lt (amerge lt as bs)"
proof (induction "length as + length bs" arbitrary: as bs rule: less_induct)
  case less
  show ?case
  proof (cases as; cases bs)
    fix a as' b bs'
    assume ab: "as = a # as'" "bs = b # bs'"
    show ?thesis
    proof (cases "lt b a")
      case True
      then have "in_order lt (amerge lt as bs')"
        using less.prems less.hyps[of as bs'] ab by (cases bs') auto
      moreover have "\<not> lt (hd (amerge lt as bs')) b"
        using asym[OF True] less.prems ab by (cases bs') auto
      ultimately show ?thesis using True ab by (simp add: successively_Cons)
    next
      case False
      then have "in_order lt (amerge lt as' bs)"
        using less.prems less.hyps[of as' bs] ab by (cases as') auto
      moreover have "\<not> lt (hd (amerge lt as' bs)) a"
        using False less.prems ab hd_amerge[of as' b bs'] by (cases as') auto
      ultimately show ?thesis using False ab by (simp add: successively_Cons)
    qed
  qed (use less.prems in simp_all)
qed

lemma filter_amerge:
  "in_order lt as \<Longrightarrow>
   filter (same_rank lt k) (amerge lt as bs) = filter (same_rank lt k) as @ filter (same_rank lt k) bs"
proof (induction "length as + length bs" arbitrary: as bs rule: less_induct)
  case less
  show ?case
  proof (cases as; cases bs)
    fix a as' b bs'
    assume ab: "as = a # as'" "bs = b # bs'"
    show ?thesis
    proof (cases "lt b a")
      case True
      have "\<forall>x\<in>set as'. \<not> lt x a" using less.prems ab in_order_sorted_wrt by auto
      then have "\<forall>x\<in>set as. lt b x" using cotrans[OF True] True ab by auto
      then have "filter (same_rank lt k) as = []" if "same_rank lt k b"
        using that cotrans[of b _ k] by (auto simp: filter_empty_conv same_rank_def)
      then show ?thesis
        using True less.hyps[of as bs'] less.prems ab by auto
    next
      case False
      have "in_order lt as'" using less.prems ab by (cases as') auto
      then show ?thesis using False less.hyps[of as' bs] ab by auto
    qed
  qed simp_all
qed

lemma stable_amerge: "in_order lt as \<Longrightarrow> stable_perm lt (as @ bs) (amerge lt as bs)"
  by (simp add: stable_perm_def filter_amerge)

lemma apass_stable: "stable_perm lt xs (snd (apass lt xs))"
proof (induction xs rule: pass_induct[of _ lt])
  case (single x xs r)
  then show ?case using run_split_parts(1)[OF single, symmetric] by simp
next
  case (pair x xs r y ys r' s')
  have xs: "x # xs = (r @ r') @ s'"
    using run_split_parts(1)[OF pair(1)] run_split_parts(1)[OF pair(2)] by simp
  show ?case
    unfolding apass_pair[OF pair(1,2)] snd_conv unfolding xs
    by (rule stable_perm_append[OF stable_amerge[OF run_split_parts(2)[OF pair(1)]] pair(3)])
qed simp

lemma apass_nruns: "nruns lt (snd (apass lt xs)) \<le> fst (apass lt xs)"
proof (induction xs rule: pass_induct[of _ lt])
  case Nil
  then show ?case by (simp add: nruns_def)
next
  case (single x xs r)
  then show ?case using run_split_parts(2)[OF single] nruns_in_order by simp
next
  case (pair x xs r y ys r' s')
  have "nruns lt (amerge lt r r') \<le> 1"
    by (intro nruns_in_order in_order_amerge run_split_parts(2)[OF pair(1)] run_split_parts(2)[OF pair(2)])
  then show ?case
    using nruns_append[of lt "amerge lt r r'" "snd (apass lt s')"] pair(3)
    unfolding apass_pair[OF pair(1,2)] by simp
qed

lemma in_order_ins_ordered: "in_order lt xs \<Longrightarrow> in_order lt (ins_ordered lt e xs)"
proof (induction xs)
  case (Cons x xs)
  then show ?case
    by (cases "lt e x"; cases xs) (auto simp: ins_ordered_def successively_Cons dest: asym)
qed (simp add: ins_ordered_def)

text \<open>An ordered insertion puts the element behind all others of its rank.\<close>

lemma stable_ins_ordered: "in_order lt xs \<Longrightarrow> stable_perm lt (xs @ [e]) (ins_ordered lt e xs)"
proof -
  assume s: "in_order lt xs"
  let ?t = "takeWhile (\<lambda>y. \<not> lt e y) xs" and ?d = "dropWhile (\<lambda>y. \<not> lt e y) xs"
  have sd: "sorted_wrt (\<lambda>a b. \<not> lt b a) ?d"
    using s unfolding in_order_sorted_wrt by (metis sorted_wrt_append takeWhile_dropWhile_id)
  have "lt e x" if "x \<in> set ?d" for x
  proof -
    have "?d \<noteq> []" using that by force
    then obtain d ds where d: "?d = d # ds" by (meson list.exhaust)
    then have "lt e d" using hd_dropWhile[of "\<lambda>y. \<not> lt e y" xs] by simp
    moreover have "x = d \<or> x \<in> set ds" using that unfolding d by simp
    moreover have "\<forall>x\<in>set ds. \<not> lt x d" using sd unfolding d by simp
    ultimately show ?thesis using cotrans[of e d x] by auto
  qed
  then have "\<not> same_rank lt k x" if "same_rank lt k e" "x \<in> set ?d" for k x
    using that cotrans[of e x k] unfolding same_rank_def by blast
  then have none: "filter (same_rank lt k) ?d = []" if "same_rank lt k e" for k
    using that unfolding filter_empty_conv by blast
  have "filter (same_rank lt k) (ins_ordered lt e xs) = filter (same_rank lt k) (xs @ [e])" for k
  proof -
    have "filter (same_rank lt k) xs = filter (same_rank lt k) ?t @ filter (same_rank lt k) ?d"
      by (metis filter_append takeWhile_dropWhile_id)
    then show ?thesis using none[of k] by (auto simp: ins_ordered_def)
  qed
  moreover have "mset (ins_ordered lt e xs) = mset (xs @ [e])"
    by (simp add: ins_ordered_def) (metis mset_append takeWhile_dropWhile_id)
  ultimately show ?thesis by (simp add: stable_perm_def)
qed

text \<open>\<open>list_max\<close> returns the earliest of the greatest elements, \<open>list_min\<close> the earliest of
  the least.\<close>

lemma fold_max:
  "\<exists>us vs. x # xs = us @ fold (\<lambda>e m. if lt m e then e else m) xs x # vs
     \<and> (\<forall>u\<in>set us. lt u (fold (\<lambda>e m. if lt m e then e else m) xs x))
     \<and> (\<forall>v\<in>set vs. \<not> lt (fold (\<lambda>e m. if lt m e then e else m) xs x) v)"
proof (induction xs rule: rev_induct)
  case (snoc e xs)
  let ?r = "fold (\<lambda>e m. if lt m e then e else m) xs x"
  obtain us vs where uv: "x # xs = us @ ?r # vs" "\<forall>u\<in>set us. lt u ?r" "\<forall>v\<in>set vs. \<not> lt ?r v"
    using snoc by blast
  show ?case
  proof (cases "lt ?r e")
    case True
    have "lt u e" if "u \<in> set (us @ ?r # vs)" for u
      using that uv(2,3) True cotrans[of u ?r e] cotrans[of ?r e u] asym by auto
    then have "\<forall>u\<in>set (x # xs). lt u e" unfolding uv(1) by blast
    then show ?thesis using True by (intro exI[of _ "x # xs"] exI[of _ "[]"]) simp
  next
    case False
    have "(x # xs) @ [e] = us @ ?r # (vs @ [e])" unfolding uv(1) by simp
    moreover have "\<forall>v\<in>set (vs @ [e]). \<not> lt ?r v" using uv(3) False by simp
    ultimately show ?thesis using False uv(2) by (intro exI[of _ us] exI[of _ "vs @ [e]"]) simp
  qed
qed (intro exI[of _ "[]"], simp)

lemma strict_weak_order_rev: "strict_weak_order (\<lambda>a b. lt b a)"
  by unfold_locales (auto dest: asym cotrans)

end

lemma fold_min:
  assumes "strict_weak_order lt"
  shows "\<exists>us vs. x # xs = us @ fold (\<lambda>e m. if lt e m then e else m) xs x # vs
     \<and> (\<forall>u\<in>set us. lt (fold (\<lambda>e m. if lt e m then e else m) xs x) u)
     \<and> (\<forall>v\<in>set vs. \<not> lt v (fold (\<lambda>e m. if lt e m then e else m) xs x))"
  using strict_weak_order.fold_max[OF strict_weak_order.strict_weak_order_rev[OF assms]] .

section \<open>The sort\<close>

lemma list_sort_loop_rep:
  assumes swo: "strict_weak_order lt"
  shows "list_rep h l xs \<Longrightarrow> length xs < m \<Longrightarrow> nruns lt xs < n \<Longrightarrow>
   \<exists>h' ys. list_sort_loop n m lt l h = Inr h' \<and> list_rep h' l ys
     \<and> in_order lt ys \<and> stable_perm lt xs ys \<and> same_outside (set (nodes l xs)) h h'"
proof (induction n arbitrary: h xs)
  case (Suc n)
  let ?c = "fst (apass lt xs)" and ?out = "snd (apass lt xs)"
  obtain h1 where h1: "list_sort_pass m m lt l (pos l xs) 0 h = Inr (?c, h1)"
    "list_rep h1 l ?out" "same_outside (set (nodes l xs)) h h1"
    using apass_loop_rep[of h l "[]" xs m m lt 0] Suc.prems by auto
  have st: "stable_perm lt xs ?out" by (rule strict_weak_order.apass_stable[OF swo])
  then have perm: "mset ?out = mset xs" by (simp add: stable_perm_def)
  show ?case
  proof (cases "?c > 1")
    case False
    then have "in_order lt ?out" using strict_weak_order.apass_nruns[OF swo, of xs] by (intro in_order_nruns) simp
    then show ?thesis using False h1 st list_begin_rep[OF Suc.prems(1)] by auto
  next
    case True
    have "length ?out < m" using Suc.prems(2) mset_eq_length[OF perm] by simp
    moreover have "nruns lt ?out < n"
      using strict_weak_order.apass_nruns[OF swo, of xs] apass_count[of lt xs] True Suc.prems(3) by simp
    ultimately obtain h' ys where "list_sort_loop n m lt l h1 = Inr h'" "list_rep h' l ys"
      "in_order lt ys" "stable_perm lt ?out ys" "same_outside (set (nodes l ?out)) h1 h'"
      using Suc.IH[OF h1(2)] by blast
    then show ?thesis
      using True h1 list_begin_rep[OF Suc.prems(1)] stable_perm_trans[OF st]
        same_outside_trans[OF h1(3)] nodes_perm[OF perm, of l] by auto
  qed
qed simp

lemma list_sort_rep:
  assumes swo: "strict_weak_order lt" and rep: "list_rep h l xs" and n: "length xs < n"
  shows "\<exists>h' ys. list_sort n l lt h = Inr h' \<and> list_rep h' l ys
     \<and> sorted_wrt (\<lambda>a b. \<not> lt b a) ys \<and> stable_perm lt xs ys \<and> same_outside (set (nodes l xs)) h h'"
proof -
  obtain h' ys where h': "list_sort_loop n n lt l h = Inr h'" "list_rep h' l ys" "in_order lt ys"
    "stable_perm lt xs ys" "same_outside (set (nodes l xs)) h h'"
    using list_sort_loop_rep[OF swo rep n, of n] nruns_le_length[of lt xs] n by auto
  have "length ys = length xs" using h'(4) by (auto simp: stable_perm_def dest: mset_eq_length)
  then have "is_sorted n lt (pos l ys) (list_tail l) h' = Inr True"
    using is_sorted_rep[of h' l "[]" ys "[]" n lt] h' n by simp
  then show ?thesis
    using h' list_rep_ends(1)[OF rep] strict_weak_order.in_order_sorted_wrt[OF swo, of ys]
    by (simp add: list_sort_def list_begin_rep list_end_rep) blast
qed

section \<open>Properties\<close>

text \<open>A memory that holds one list, of two elements, and a spare element.\<close>

definition wheap :: lheap where
  "wheap = [16 \<mapsto> \<lparr>prv = 0, nxt = 48\<rparr>, 48 \<mapsto> \<lparr>prv = 16, nxt = 40\<rparr>, 40 \<mapsto> \<lparr>prv = 48, nxt = 24\<rparr>,
     24 \<mapsto> \<lparr>prv = 40, nxt = 0\<rparr>, 56 \<mapsto> \<lparr>prv = 0, nxt = 0\<rparr>]"

lemma wheap_rep: "list_rep wheap 16 [48, 40]"
  by (simp add: list_rep_def nodes_def wheap_def list_head_def list_tail_def nx_def pv_def)

lemma wheap_spare: "(56 :: ptr) \<in> dom wheap" "(56 :: ptr) \<notin> set (nodes 16 [48, 40])"
  by (simp_all add: nodes_def wheap_def list_head_def list_tail_def)

lemma less_strict_weak_order: "strict_weak_order ((<) :: ptr \<Rightarrow> ptr \<Rightarrow> bool)"
  by unfold_locales auto

text \<open>C2.  \<open>list_sort\<close> on a well-formed list with a comparison function that is a strict weak
  order returns (no assertion of \<open>list_sort\<close>, \<open>inplace_merge\<close> or \<open>find_end_of_run\<close>
  fails and no loop runs forever), leaves a well-formed list of the same elements in
  ascending order in which elements of equal rank keep their order, and changes no memory
  outside the list.\<close>

theorem list_sort_correct:
  assumes "strict_weak_order lt" and "list_rep h l xs" and "length xs < n"
  shows "\<exists>h' ys. list_sort n l lt h = Inr h' \<and> list_rep h' l ys
     \<and> sorted_wrt (\<lambda>a b. \<not> lt b a) ys \<and> stable_perm lt xs ys \<and> same_outside (set (nodes l xs)) h h'"
  by (rule list_sort_rep[OF assms])

theorem list_sort_correct_witness:
  "\<exists>h' ys. list_sort 3 16 (<) wheap = Inr h' \<and> list_rep h' 16 ys
     \<and> sorted_wrt (\<lambda>a b. \<not> b < a) ys \<and> stable_perm (<) [48, 40] ys
     \<and> same_outside (set (nodes 16 [48, 40])) wheap h'"
  by (rule list_sort_correct[OF less_strict_weak_order wheap_rep]) simp

text \<open>C23.  \<open>list_insert_ordered\<close> into a list in order returns, and leaves the list in order
  with the new element behind all elements of its rank; it changes only the list and the new
  element.\<close>

theorem list_insert_ordered_correct:
  assumes "strict_weak_order lt" and "list_rep h l xs" and "sorted_wrt (\<lambda>a b. \<not> lt b a) xs"
    and "length xs < n" and "e \<noteq> NULL" and "e \<in> dom h" and "e \<notin> set (nodes l xs)"
  shows "\<exists>h' ys. list_insert_ordered n l e lt h = Inr h' \<and> list_rep h' l ys
     \<and> sorted_wrt (\<lambda>a b. \<not> lt b a) ys \<and> stable_perm lt (xs @ [e]) ys
     \<and> same_outside (insert e (set (nodes l xs))) h h'"
  using list_insert_ordered_rep[OF assms(2,4-7), of lt] assms(3)
    strict_weak_order.in_order_ins_ordered[OF assms(1), of xs e]
    strict_weak_order.stable_ins_ordered[OF assms(1), of xs e]
    strict_weak_order.in_order_sorted_wrt[OF assms(1)]
  by blast

theorem list_insert_ordered_correct_witness:
  "\<exists>h' ys. list_insert_ordered 3 16 56 (>) wheap = Inr h' \<and> list_rep h' 16 ys
     \<and> sorted_wrt (\<lambda>a b. \<not> b > a) ys \<and> stable_perm (>) ([48, 40] @ [56]) ys
     \<and> same_outside (insert 56 (set (nodes 16 [48, 40]))) wheap h'"
  by (rule list_insert_ordered_correct[OF strict_weak_order.strict_weak_order_rev[OF less_strict_weak_order]
        wheap_rep _ _ _ wheap_spare]) simp_all

text \<open>\<open>list_reverse\<close> returns and reverses the list, within the list's own memory.\<close>

theorem list_reverse_correct:
  assumes "list_rep h l xs" and "length xs < n"
  shows "\<exists>h'. list_reverse n l h = Inr h' \<and> list_rep h' l (rev xs)
     \<and> same_outside (set (nodes l xs)) h h'"
  by (rule list_reverse_rep[OF assms])

theorem list_reverse_correct_witness:
  "\<exists>h'. list_reverse 3 16 wheap = Inr h' \<and> list_rep h' 16 (rev [48, 40])
     \<and> same_outside (set (nodes 16 [48, 40])) wheap h'"
  by (rule list_reverse_correct[OF wheap_rep]) simp

text \<open>\<open>list_unique\<close> keeps the first element of every maximal stretch of adjacent equals
  (\<open>uniq\<close>) and moves the others, in order, to the end of the list of duplicates if there is
  one.\<close>

theorem list_unique_correct:
  assumes "list_rep h l (x # ys)" and "dups_rep h d ds (set (nodes l (x # ys)))" and "length ys < n"
  shows "\<exists>h'. list_unique n l d lt h = Inr h' \<and> list_rep h' l (fst (uniq lt x ys))
     \<and> (d = NULL \<or> list_rep h' d (ds @ snd (uniq lt x ys)))
     \<and> same_outside (uniq_area l (x # ys) d ds) h h'"
  by (rule list_unique_rep[OF assms])

theorem list_unique_correct_witness:
  "\<exists>h'. list_unique 2 16 0 (\<lambda>a b. False) wheap = Inr h' \<and> list_rep h' 16 (fst (uniq (\<lambda>a b. False) 48 [40]))
     \<and> ((0 :: ptr) = NULL \<or> list_rep h' 0 ([] @ snd (uniq (\<lambda>a b. False) 48 [40])))
     \<and> same_outside (uniq_area 16 (48 # [40]) 0 []) wheap h'"
  by (rule list_unique_correct[OF wheap_rep]) (simp_all add: dups_rep_def)

text \<open>On a non-empty list \<open>list_max\<close> returns the first of the greatest elements, and
  \<open>list_min\<close> the first of the least.\<close>

theorem list_max_min_correct:
  assumes "strict_weak_order lt" and "list_rep h l (x # xs)" and "length xs < n"
  shows "(\<exists>m us vs. list_max n l lt h = Inr m \<and> x # xs = us @ m # vs
        \<and> (\<forall>u\<in>set us. lt u m) \<and> (\<forall>v\<in>set vs. \<not> lt m v))
     \<and> (\<exists>m us vs. list_min n l lt h = Inr m \<and> x # xs = us @ m # vs
        \<and> (\<forall>u\<in>set us. lt m u) \<and> (\<forall>v\<in>set vs. \<not> lt v m))"
  using list_max_rep[OF assms(2,3), of lt] strict_weak_order.fold_max[OF assms(1), of x xs]
    fold_min[OF assms(1), of x xs] by blast

theorem list_max_min_correct_witness:
  "(\<exists>m us vs. list_max 2 16 (<) wheap = Inr m \<and> 48 # [40] = us @ m # vs
        \<and> (\<forall>u\<in>set us. u < m) \<and> (\<forall>v\<in>set vs. \<not> m < v))
     \<and> (\<exists>m us vs. list_min 2 16 (<) wheap = Inr m \<and> 48 # [40] = us @ m # vs
        \<and> (\<forall>u\<in>set us. m < u) \<and> (\<forall>v\<in>set vs. \<not> v < m))"
  by (rule list_max_min_correct[OF less_strict_weak_order wheap_rep]) simp

end
