(* ===== verification/Intq.thy ===== *)
theory Intq
  imports Prelude
begin

text \<open>
  Interrupt queues, \<open>src/devices/intq.c\<close>: a circular buffer of 64 bytes with at most one
  sleeping reader and one sleeping writer.

  The calls run with interrupts off, so each is atomic until it sleeps; the assertions
  \<open>intr_get_level () == INTR_OFF\<close> are not repeated.  \<open>intr_ctx\<close> says whether the caller is
  an interrupt handler, \<open>cur\<close> is the running thread.  A call either completes, with the
  thread it unblocked if any, or sleeps: on the lock of the queue, or in \<open>wait\<close> with itself
  registered as the waiter.  A thread that is woken from \<open>wait\<close> releases the lock
  (\<open>intq_woken\<close>) and starts over.

  The locale \<open>byte_fifo\<close> is the contract that the serial driver and the input buffer rely
  on; its interpretation discharges it for \<open>struct intq\<close>.
\<close>

type_synonym tid = nat

abbreviation INTQ_BUFSIZE :: nat where
  "INTQ_BUFSIZE \<equiv> 64"

record intq =
  iq_lock :: "tid option"
  not_full :: "tid option"
  not_empty :: "tid option"
  iq_buf :: "u8 list"
  iq_head :: nat
  iq_tail :: nat

datatype 'a outcome = Done 'a intq "tid option" | Sleep intq | Wait_lock

section \<open>The operations of intq.c\<close>

definition iq_next :: "nat \<Rightarrow> nat" where
  "iq_next p = (p + 1) mod INTQ_BUFSIZE"

text \<open>\<open>intq_init\<close> leaves the buffer's bytes as they are.\<close>

definition intq_init :: "intq \<Rightarrow> intq" where
  "intq_init q = q\<lparr>iq_lock := None, not_full := None, not_empty := None, iq_head := 0, iq_tail := 0\<rparr>"

definition intq_empty :: "intq \<Rightarrow> bool" where
  "intq_empty q \<longleftrightarrow> iq_head q = iq_tail q"

definition intq_full :: "intq \<Rightarrow> bool" where
  "intq_full q \<longleftrightarrow> iq_next (iq_head q) = iq_tail q"

definition wait_not_empty :: "bool \<Rightarrow> tid \<Rightarrow> intq \<Rightarrow> intq res" where
  "wait_not_empty intr_ctx cur q =
     ebind (kassert (\<not> intr_ctx)) (\<lambda>_. ebind (kassert (intq_empty q)) (\<lambda>_.
     Inr (q\<lparr>not_empty := Some cur\<rparr>)))"

definition wait_not_full :: "bool \<Rightarrow> tid \<Rightarrow> intq \<Rightarrow> intq res" where
  "wait_not_full intr_ctx cur q =
     ebind (kassert (\<not> intr_ctx)) (\<lambda>_. ebind (kassert (intq_full q)) (\<lambda>_.
     Inr (q\<lparr>not_full := Some cur\<rparr>)))"

text \<open>\<open>signal\<close> returns the thread that it unblocks.\<close>

definition signal_not_empty :: "intq \<Rightarrow> (intq \<times> tid option) res" where
  "signal_not_empty q =
     ebind (kassert (\<not> intq_empty q)) (\<lambda>_. Inr (q\<lparr>not_empty := None\<rparr>, not_empty q))"

definition signal_not_full :: "intq \<Rightarrow> (intq \<times> tid option) res" where
  "signal_not_full q =
     ebind (kassert (\<not> intq_full q)) (\<lambda>_. Inr (q\<lparr>not_full := None\<rparr>, not_full q))"

text \<open>\<open>lock_acquire\<close> on the queue's lock, up to the point where it gets the lock or sleeps.\<close>

definition lock_then :: "tid \<Rightarrow> intq \<Rightarrow> (intq \<Rightarrow> intq res) \<Rightarrow> 'a outcome res" where
  "lock_then cur q f =
     (case iq_lock q of
        Some t \<Rightarrow> Inr Wait_lock
      | None \<Rightarrow> ebind (f (q\<lparr>iq_lock := Some cur\<rparr>)) (\<lambda>q. Inr (Sleep q)))"

definition intq_woken :: "intq \<Rightarrow> intq" where
  "intq_woken q = q\<lparr>iq_lock := None\<rparr>"

definition intq_getc :: "bool \<Rightarrow> tid \<Rightarrow> intq \<Rightarrow> u8 outcome res" where
  "intq_getc intr_ctx cur q =
     (if intq_empty q
      then ebind (kassert (\<not> intr_ctx)) (\<lambda>_. lock_then cur q (wait_not_empty intr_ctx cur))
      else if iq_tail q < length (iq_buf q) then
        let byte = iq_buf q ! iq_tail q;
            q = q\<lparr>iq_tail := iq_next (iq_tail q)\<rparr>
        in ebind (signal_not_full q) (\<lambda>(q, w). Inr (Done byte q w))
      else Inl Bad_access)"

definition intq_putc :: "bool \<Rightarrow> tid \<Rightarrow> intq \<Rightarrow> u8 \<Rightarrow> unit outcome res" where
  "intq_putc intr_ctx cur q byte =
     (if intq_full q
      then ebind (kassert (\<not> intr_ctx)) (\<lambda>_. lock_then cur q (wait_not_full intr_ctx cur))
      else if iq_head q < length (iq_buf q) then
        let q = q\<lparr>iq_buf := (iq_buf q)[iq_head q := byte], iq_head := iq_next (iq_head q)\<rparr>
        in ebind (signal_not_empty q) (\<lambda>(q, w). Inr (Done () q w))
      else Inl Bad_access)"

section \<open>The queue as a list\<close>

definition intq_wf :: "intq \<Rightarrow> bool" where
  "intq_wf q \<longleftrightarrow> length (iq_buf q) = INTQ_BUFSIZE \<and> iq_head q < INTQ_BUFSIZE \<and> iq_tail q < INTQ_BUFSIZE"

definition intq_len :: "intq \<Rightarrow> nat" where
  "intq_len q = (iq_head q + INTQ_BUFSIZE - iq_tail q) mod INTQ_BUFSIZE"

definition intq_contents :: "intq \<Rightarrow> u8 list" where
  "intq_contents q = map (\<lambda>k. iq_buf q ! ((iq_tail q + k) mod INTQ_BUFSIZE)) [0..<intq_len q]"

lemma intq_len_less: "intq_len q < INTQ_BUFSIZE"
  by (simp add: intq_len_def)

lemma iq_next_if: "p < INTQ_BUFSIZE \<Longrightarrow> iq_next p = (if p = 63 then 0 else p + 1)"
  by (simp add: iq_next_def)

lemma intq_len_if:
  assumes "intq_wf q"
  shows "intq_len q = (if iq_tail q \<le> iq_head q then iq_head q - iq_tail q
                       else iq_head q + INTQ_BUFSIZE - iq_tail q)"
proof (cases "iq_tail q \<le> iq_head q")
  case True
  then have "intq_len q = (iq_head q - iq_tail q) mod INTQ_BUFSIZE"
    unfolding intq_len_def by (metis Nat.add_diff_assoc2 mod_add_self2)
  moreover have "iq_head q - iq_tail q < INTQ_BUFSIZE" using assms by (auto simp: intq_wf_def)
  ultimately show ?thesis using True by simp
qed (use assms in \<open>simp add: intq_len_def intq_wf_def\<close>)

lemma mod_wrap: "a < 2 * n \<Longrightarrow> a mod n = (if a < n then a else a - n)" for a n :: nat
  by (simp add: le_mod_geq)

lemma intq_empty_len: "intq_wf q \<Longrightarrow> intq_empty q \<longleftrightarrow> intq_len q = 0"
  by (auto simp: intq_len_if intq_empty_def) (auto simp: intq_wf_def)

lemma intq_full_len: "intq_wf q \<Longrightarrow> intq_full q \<longleftrightarrow> intq_len q = 63"
  by (auto simp: intq_len_if intq_full_def iq_next_if intq_wf_def)

lemma head_position: "intq_wf q \<Longrightarrow> (iq_tail q + intq_len q) mod INTQ_BUFSIZE = iq_head q"
  by (auto simp: intq_len_if intq_wf_def)

lemma intq_empty_contents: "intq_wf q \<Longrightarrow> intq_empty q \<longleftrightarrow> intq_contents q = []"
  by (simp add: intq_empty_len intq_contents_def)

lemma intq_full_contents: "intq_wf q \<Longrightarrow> intq_full q \<longleftrightarrow> length (intq_contents q) = 63"
  by (simp add: intq_full_len intq_contents_def)

lemma intq_put_len:
  assumes "intq_wf q" "\<not> intq_full q" "length b = INTQ_BUFSIZE"
  shows "intq_wf (q\<lparr>iq_buf := b, iq_head := iq_next (iq_head q)\<rparr>)"
    and "intq_len (q\<lparr>iq_buf := b, iq_head := iq_next (iq_head q)\<rparr>) = Suc (intq_len q)"
proof -
  show wf: "intq_wf (q\<lparr>iq_buf := b, iq_head := iq_next (iq_head q)\<rparr>)"
    using assms by (simp add: intq_wf_def iq_next_def)
  show "intq_len (q\<lparr>iq_buf := b, iq_head := iq_next (iq_head q)\<rparr>) = Suc (intq_len q)"
    using assms(1,2) unfolding intq_len_if[OF wf] intq_len_if[OF assms(1)]
    by (auto simp: intq_full_def iq_next_if intq_wf_def)
qed

lemma intq_get_len:
  assumes "intq_wf q" "\<not> intq_empty q"
  shows "intq_wf (q\<lparr>iq_tail := iq_next (iq_tail q)\<rparr>)"
    and "intq_len q = Suc (intq_len (q\<lparr>iq_tail := iq_next (iq_tail q)\<rparr>))"
proof -
  show wf: "intq_wf (q\<lparr>iq_tail := iq_next (iq_tail q)\<rparr>)"
    using assms by (simp add: intq_wf_def iq_next_def)
  show "intq_len q = Suc (intq_len (q\<lparr>iq_tail := iq_next (iq_tail q)\<rparr>))"
    using assms unfolding intq_len_if[OF wf] intq_len_if[OF assms(1)]
    by (auto simp: intq_empty_def iq_next_if intq_wf_def)
qed

lemma intq_put_contents:
  assumes wf: "intq_wf q" and nf: "\<not> intq_full q"
  shows "intq_contents (q\<lparr>iq_buf := (iq_buf q)[iq_head q := c], iq_head := iq_next (iq_head q)\<rparr>)
     = intq_contents q @ [c]"
proof -
  let ?q = "q\<lparr>iq_buf := (iq_buf q)[iq_head q := c], iq_head := iq_next (iq_head q)\<rparr>"
  have len: "intq_len ?q = Suc (intq_len q)" using wf nf by (intro intq_put_len) (simp_all add: intq_wf_def)
  have "(iq_tail q + k) mod INTQ_BUFSIZE \<noteq> iq_head q" if "k < intq_len q" for k
  proof
    assume eq: "(iq_tail q + k) mod INTQ_BUFSIZE = iq_head q"
    have "iq_tail q + k < 2 * INTQ_BUFSIZE" using wf that intq_len_less[of q] by (simp add: intq_wf_def)
    from eq[unfolded mod_wrap[OF this]] show False
      using that wf unfolding intq_len_if[OF wf] by (auto simp: intq_wf_def split: if_splits)
  qed
  then have "\<forall>k\<in>set [0..<intq_len q]. (iq_buf q)[iq_head q := c] ! ((iq_tail q + k) mod INTQ_BUFSIZE)
      = iq_buf q ! ((iq_tail q + k) mod INTQ_BUFSIZE)" by (metis atLeastLessThan_iff nth_list_update_neq set_upt)
  moreover have "iq_head q < length (iq_buf q)" using wf by (simp add: intq_wf_def)
  ultimately show ?thesis using head_position[OF wf] by (simp add: intq_contents_def len)
qed

lemma intq_get_contents:
  assumes wf: "intq_wf q" and ne: "\<not> intq_empty q"
  shows "intq_contents q = iq_buf q ! iq_tail q # intq_contents (q\<lparr>iq_tail := iq_next (iq_tail q)\<rparr>)"
proof -
  let ?q = "q\<lparr>iq_tail := iq_next (iq_tail q)\<rparr>"
  have "[0..<intq_len q] = 0 # map Suc [0..<intq_len ?q]"
    using intq_get_len(2)[OF wf ne] by (simp add: upt_conv_Cons map_Suc_upt del: upt_Suc)
  moreover have "(iq_tail q + Suc k) mod INTQ_BUFSIZE = (iq_next (iq_tail q) + k) mod INTQ_BUFSIZE" for k
    by (simp add: iq_next_def mod_Suc_eq mod_add_left_eq)
  ultimately show ?thesis using wf by (simp add: intq_contents_def intq_wf_def)
qed

lemma intq_contents_upd [simp]:
  "intq_contents (q\<lparr>not_empty := w\<rparr>) = intq_contents q" "intq_contents (q\<lparr>not_full := w\<rparr>) = intq_contents q"
  "intq_contents (q\<lparr>iq_lock := w\<rparr>) = intq_contents q"
  "intq_wf (q\<lparr>not_empty := w\<rparr>) = intq_wf q" "intq_wf (q\<lparr>not_full := w\<rparr>) = intq_wf q"
  "intq_wf (q\<lparr>iq_lock := w\<rparr>) = intq_wf q"
  "intq_empty (q\<lparr>iq_lock := w\<rparr>) = intq_empty q" "intq_full (q\<lparr>iq_lock := w\<rparr>) = intq_full q"
  by (simp_all add: intq_contents_def intq_len_def intq_wf_def intq_empty_def intq_full_def)

lemma intq_putc_done:
  assumes wf: "intq_wf q" and nf: "\<not> intq_full q"
  shows "\<exists>q'. intq_putc ic cur q c = Inr (Done () q' (not_empty q)) \<and> intq_wf q'
     \<and> intq_contents q' = intq_contents q @ [c] \<and> not_empty q' = None \<and> not_full q' = not_full q
     \<and> iq_lock q' = iq_lock q"
proof -
  let ?q = "q\<lparr>iq_buf := (iq_buf q)[iq_head q := c], iq_head := iq_next (iq_head q)\<rparr>"
  have wf': "intq_wf ?q" using wf nf by (intro intq_put_len) (simp_all add: intq_wf_def)
  then have "\<not> intq_empty ?q"
    using intq_put_contents[OF wf nf, of c] by (simp add: intq_empty_contents)
  then show ?thesis
    using wf wf' nf intq_put_contents[OF wf nf, of c]
    by (simp add: intq_putc_def signal_not_empty_def Let_def intq_wf_def)
qed

lemma intq_getc_done:
  assumes wf: "intq_wf q" and c: "intq_contents q = c # cs"
  shows "\<exists>q'. intq_getc ic cur q = Inr (Done c q' (not_full q)) \<and> intq_wf q'
     \<and> intq_contents q' = cs \<and> not_full q' = None \<and> not_empty q' = not_empty q
     \<and> iq_lock q' = iq_lock q"
proof -
  let ?q = "q\<lparr>iq_tail := iq_next (iq_tail q)\<rparr>"
  have ne: "\<not> intq_empty q" using wf c by (simp add: intq_empty_contents)
  have wf': "intq_wf ?q" using intq_get_len(1)[OF wf ne] .
  have cs: "iq_buf q ! iq_tail q = c" "intq_contents ?q = cs" using intq_get_contents[OF wf ne] c by simp_all
  have "Suc (length cs) = intq_len q" using c by (metis intq_contents_def length_Cons length_map length_upt minus_nat.diff_0)
  then have "\<not> intq_full ?q" using intq_full_contents[OF wf'] cs intq_len_less[of q] by simp
  then show ?thesis
    using wf wf' ne cs by (simp add: intq_getc_def signal_not_full_def Let_def intq_wf_def)
qed

lemma intq_getc_sleep:
  assumes "intq_wf q" "intq_contents q = []"
  shows "intq_getc ic cur q =
     (if ic then Inl Assert_failed
      else if iq_lock q = None then Inr (Sleep (q\<lparr>iq_lock := Some cur, not_empty := Some cur\<rparr>))
      else Inr Wait_lock)"
  using assms by (auto simp: intq_getc_def intq_empty_contents lock_then_def wait_not_empty_def)

lemma intq_putc_sleep:
  assumes "intq_wf q" "length (intq_contents q) = 63"
  shows "intq_putc ic cur q c =
     (if ic then Inl Assert_failed
      else if iq_lock q = None then Inr (Sleep (q\<lparr>iq_lock := Some cur, not_full := Some cur\<rparr>))
      else Inr Wait_lock)"
  using assms by (auto simp: intq_putc_def intq_full_contents lock_then_def wait_not_full_def)

section \<open>The contract of a byte queue\<close>

locale byte_fifo =
  fixes wf :: "'q \<Rightarrow> bool" and contents :: "'q \<Rightarrow> 'b list" and cap :: nat
    and put :: "'q \<Rightarrow> 'b \<Rightarrow> 'q res" and get :: "'q \<Rightarrow> ('b \<times> 'q) res"
  assumes put_ok: "wf q \<Longrightarrow> length (contents q) < cap \<Longrightarrow>
      \<exists>q'. put q c = Inr q' \<and> wf q' \<and> contents q' = contents q @ [c]"
    and get_ok: "wf q \<Longrightarrow> contents q = c # cs \<Longrightarrow>
      \<exists>q'. get q = Inr (c, q') \<and> wf q' \<and> contents q' = cs"
begin

fun puts :: "'q \<Rightarrow> 'b list \<Rightarrow> 'q res" where
  "puts q [] = Inr q"
| "puts q (c # cs) = ebind (put q c) (\<lambda>q. puts q cs)"

fun gets :: "nat \<Rightarrow> 'q \<Rightarrow> ('b list \<times> 'q) res" where
  "gets 0 q = Inr ([], q)"
| "gets (Suc n) q = ebind (get q) (\<lambda>(c, q). ebind (gets n q) (\<lambda>(cs, q). Inr (c # cs, q)))"

lemma puts_ok:
  "wf q \<Longrightarrow> length (contents q) + length cs \<le> cap \<Longrightarrow>
   \<exists>q'. puts q cs = Inr q' \<and> wf q' \<and> contents q' = contents q @ cs"
proof (induction cs arbitrary: q)
  case (Cons c cs)
  obtain q1 where q1: "put q c = Inr q1" "wf q1" "contents q1 = contents q @ [c]"
    using put_ok[OF Cons.prems(1), of c] Cons.prems(2) by auto
  then show ?case using Cons.IH[of q1] Cons.prems(2) by auto
qed simp

lemma gets_ok:
  "wf q \<Longrightarrow> n \<le> length (contents q) \<Longrightarrow>
   \<exists>q'. gets n q = Inr (take n (contents q), q') \<and> wf q' \<and> contents q' = drop n (contents q)"
proof (induction n arbitrary: q)
  case (Suc n)
  then obtain c cs where c: "contents q = c # cs" by (cases "contents q") auto
  obtain q1 where q1: "get q = Inr (c, q1)" "wf q1" "contents q1 = cs"
    using get_ok[OF Suc.prems(1) c] by auto
  then show ?case using Suc.IH[of q1] Suc.prems(2) c by auto
qed simp

text \<open>First in, first out: what is put into an empty queue comes out in the same order.\<close>

lemma fifo_order:
  assumes "wf q" "contents q = []" "length cs \<le> cap"
  shows "\<exists>q1 q2. puts q cs = Inr q1 \<and> gets (length cs) q1 = Inr (cs, q2) \<and> contents q2 = []"
  using puts_ok[of q cs] gets_ok[of _ "length cs"] assms by fastforce

end

text \<open>The two operations as an interrupt handler calls them.\<close>

definition intq_put_handler :: "intq \<Rightarrow> u8 \<Rightarrow> intq res" where
  "intq_put_handler q c =
     ebind (intq_putc True 0 q c) (\<lambda>r. case r of Done _ q' _ \<Rightarrow> Inr q' | _ \<Rightarrow> Inl Assert_failed)"

definition intq_get_handler :: "intq \<Rightarrow> (u8 \<times> intq) res" where
  "intq_get_handler q =
     ebind (intq_getc True 0 q) (\<lambda>r. case r of Done c q' _ \<Rightarrow> Inr (c, q') | _ \<Rightarrow> Inl Assert_failed)"

lemma intq_contents_bound: "intq_wf q \<Longrightarrow> length (intq_contents q) \<le> 63"
  using intq_len_less[of q] by (simp add: intq_contents_def)

interpretation iq: byte_fifo intq_wf intq_contents 63 intq_put_handler intq_get_handler
proof unfold_locales
  fix q c cs
  assume wf: "intq_wf q"
  show "\<exists>q'. intq_put_handler q c = Inr q' \<and> intq_wf q' \<and> intq_contents q' = intq_contents q @ [c]"
    if "length (intq_contents q) < 63"
    using intq_putc_done[OF wf, of True 0 c] that wf
    by (auto simp: intq_put_handler_def intq_full_contents)
  show "\<exists>q'. intq_get_handler q = Inr (c, q') \<and> intq_wf q' \<and> intq_contents q' = cs"
    if "intq_contents q = c # cs"
    using intq_getc_done[OF wf that, of True 0] by (auto simp: intq_get_handler_def)
qed

section \<open>Properties\<close>

definition wintq :: intq where
  "wintq = \<lparr>iq_lock = None, not_full = None, not_empty = Some 5, iq_buf = replicate 64 0, iq_head = 63, iq_tail = 63\<rparr>"

lemma wintq_wf: "intq_wf wintq" "intq_contents wintq = []"
  by (simp_all add: wintq_def intq_wf_def intq_contents_def intq_len_def)

text \<open>\<open>intq_putc\<close> appends the byte when there is room, and unblocks the thread that waits
  for data; on a full queue an interrupt handler fails an assertion, and a thread registers
  itself as the writer to be woken, or waits for the queue's lock.\<close>

theorem intq_putc_correct:
  assumes "intq_wf q"
  shows "if length (intq_contents q) < 63
     then \<exists>q'. intq_putc ic cur q c = Inr (Done () q' (not_empty q)) \<and> intq_wf q'
       \<and> intq_contents q' = intq_contents q @ [c] \<and> not_empty q' = None
     else intq_putc ic cur q c =
       (if ic then Inl Assert_failed
        else if iq_lock q = None then Inr (Sleep (q\<lparr>iq_lock := Some cur, not_full := Some cur\<rparr>))
        else Inr Wait_lock)"
proof (cases "length (intq_contents q) < 63")
  case True
  then show ?thesis
    using intq_putc_done[OF assms, of ic cur c] intq_full_contents[OF assms] by auto
next
  case False
  then have "length (intq_contents q) = 63" using intq_contents_bound[OF assms] by simp
  then show ?thesis using intq_putc_sleep[OF assms, of ic cur c] by simp
qed

theorem intq_putc_correct_witness:
  "if length (intq_contents wintq) < 63
     then \<exists>q'. intq_putc False 1 wintq 65 = Inr (Done () q' (not_empty wintq)) \<and> intq_wf q'
       \<and> intq_contents q' = intq_contents wintq @ [65] \<and> not_empty q' = None
     else intq_putc False 1 wintq 65 =
       (if False then Inl Assert_failed
        else if iq_lock wintq = None then Inr (Sleep (wintq\<lparr>iq_lock := Some 1, not_full := Some 1\<rparr>))
        else Inr Wait_lock)"
  by (rule intq_putc_correct[OF wintq_wf(1)])

text \<open>\<open>intq_getc\<close> removes and returns the oldest byte, and unblocks the thread that waits
  for room; on an empty queue an interrupt handler fails an assertion, and a thread registers
  itself as the reader to be woken, or waits for the queue's lock.\<close>

theorem intq_getc_correct:
  assumes "intq_wf q"
  shows "case intq_contents q of
       c # cs \<Rightarrow> \<exists>q'. intq_getc ic cur q = Inr (Done c q' (not_full q)) \<and> intq_wf q'
         \<and> intq_contents q' = cs \<and> not_full q' = None
     | [] \<Rightarrow> intq_getc ic cur q =
         (if ic then Inl Assert_failed
          else if iq_lock q = None then Inr (Sleep (q\<lparr>iq_lock := Some cur, not_empty := Some cur\<rparr>))
          else Inr Wait_lock)"
proof (cases "intq_contents q")
  case Nil
  then show ?thesis using intq_getc_sleep[OF assms Nil, of ic cur] by simp
next
  case (Cons c cs)
  then show ?thesis using intq_getc_done[OF assms Cons, of ic cur] by auto
qed

theorem intq_getc_correct_witness:
  "case intq_contents wintq of
       c # cs \<Rightarrow> \<exists>q'. intq_getc True 1 wintq = Inr (Done c q' (not_full wintq)) \<and> intq_wf q'
         \<and> intq_contents q' = cs \<and> not_full q' = None
     | [] \<Rightarrow> intq_getc True 1 wintq =
         (if True then Inl Assert_failed
          else if iq_lock wintq = None then Inr (Sleep (wintq\<lparr>iq_lock := Some 1, not_empty := Some 1\<rparr>))
          else Inr Wait_lock)"
  by (rule intq_getc_correct[OF wintq_wf(1)])

end
