(* ===== verification/Serial.thy ===== *)
theory Serial
  imports Intq
begin

text \<open>
  The serial port driver and the input buffer, \<open>src/devices/serial.c\<close> and
  \<open>src/devices/input.c\<close>.

  The state holds the driver's variables (\<open>mode\<close>, \<open>txq\<close>, the input \<open>buffer\<close>), the log
  of all writes to I/O ports, and the values that reads of the line status register and of the
  receive register return, as functions of how often they were read (the device is not part of
  the sources).  \<open>uart_sent\<close> reads off the log which bytes the 16550A was given to
  transmit: the writes to its first port while the divisor latch is not selected.  Loops take
  an iteration bound.

  The lemmas show that no byte given to \<open>serial_putc\<close> is lost or reordered, and that a
  queued byte always has its transmit interrupt enabled.
\<close>

unbundle bit_operations_syntax

datatype smode = UNINIT | POLL | QUEUE

record serial =
  ser_mode :: smode
  txq :: intq
  buffer :: intq
  lsr :: "nat \<Rightarrow> u8"
  lsr_pos :: nat
  rbr :: "nat \<Rightarrow> u8"
  rbr_pos :: nat
  outs :: "(u16 \<times> u8) list"

section \<open>The operations of serial.c and input.c\<close>

abbreviation IO_BASE :: u16 where "IO_BASE \<equiv> 0x3f8"
abbreviation THR_REG :: u16 where "THR_REG \<equiv> IO_BASE"
abbreviation LS_REG :: u16 where "LS_REG \<equiv> IO_BASE"
abbreviation IER_REG :: u16 where "IER_REG \<equiv> 0x3f9"
abbreviation MS_REG :: u16 where "MS_REG \<equiv> 0x3f9"
abbreviation FCR_REG :: u16 where "FCR_REG \<equiv> 0x3fa"
abbreviation LCR_REG :: u16 where "LCR_REG \<equiv> 0x3fb"
abbreviation MCR_REG :: u16 where "MCR_REG \<equiv> 0x3fc"
abbreviation IER_RECV :: u8 where "IER_RECV \<equiv> 1"
abbreviation IER_XMIT :: u8 where "IER_XMIT \<equiv> 2"
abbreviation LCR_N81 :: u8 where "LCR_N81 \<equiv> 3"
abbreviation LCR_DLAB :: u8 where "LCR_DLAB \<equiv> 0x80"
abbreviation MCR_OUT2 :: u8 where "MCR_OUT2 \<equiv> 8"
abbreviation LSR_DR :: u8 where "LSR_DR \<equiv> 1"
abbreviation LSR_THRE :: u8 where "LSR_THRE \<equiv> 0x20"

definition outb :: "u16 \<Rightarrow> u8 \<Rightarrow> serial \<Rightarrow> serial" where
  "outb p v s = s\<lparr>outs := outs s @ [(p, v)]\<rparr>"

definition inb_lsr :: "serial \<Rightarrow> u8 \<times> serial" where
  "inb_lsr s = (lsr s (lsr_pos s), s\<lparr>lsr_pos := Suc (lsr_pos s)\<rparr>)"

definition inb_rbr :: "serial \<Rightarrow> u8 \<times> serial" where
  "inb_rbr s = (rbr s (rbr_pos s), s\<lparr>rbr_pos := Suc (rbr_pos s)\<rparr>)"

definition set_serial :: "int \<Rightarrow> serial \<Rightarrow> serial res" where
  "set_serial bps s =
     (let base_rate = 1843200 div 16;
          divisor = (word_of_int (base_rate div bps) :: u16)
      in ebind (kassert (bps \<ge> 300 \<and> bps \<le> 115200)) (\<lambda>_.
         Inr (outb LCR_REG LCR_N81 (outb MS_REG (ucast (drop_bit 8 divisor))
              (outb LS_REG (ucast (divisor AND 0xff)) (outb LCR_REG (LCR_N81 OR LCR_DLAB) s))))))"

definition init_poll :: "serial \<Rightarrow> serial res" where
  "init_poll s =
     ebind (kassert (ser_mode s = UNINIT)) (\<lambda>_.
     ebind (set_serial 9600 (outb FCR_REG 0 (outb IER_REG 0 s))) (\<lambda>s.
     let s = outb MCR_REG MCR_OUT2 s
     in Inr (s\<lparr>txq := intq_init (txq s), ser_mode := POLL\<rparr>)))"

definition input_full :: "serial \<Rightarrow> bool" where
  "input_full s = intq_full (buffer s)"

definition write_ier :: "serial \<Rightarrow> serial" where
  "write_ier s =
     (let ier = 0;
          ier = (if \<not> intq_empty (txq s) then ier OR IER_XMIT else ier);
          ier = (if \<not> input_full s then ier OR IER_RECV else ier)
      in outb IER_REG ier s)"

definition serial_init_queue :: "serial \<Rightarrow> serial res" where
  "serial_init_queue s =
     ebind (if ser_mode s = UNINIT then init_poll s else Inr s) (\<lambda>s.
     ebind (kassert (ser_mode s = POLL)) (\<lambda>_.
     Inr (write_ier (s\<lparr>ser_mode := QUEUE\<rparr>))))"

definition serial_notify :: "serial \<Rightarrow> serial" where
  "serial_notify s = (if ser_mode s = QUEUE then write_ier s else s)"

fun poll_thre :: "nat \<Rightarrow> serial \<Rightarrow> serial res" where
  "poll_thre 0 s = Inl Out_of_fuel"
| "poll_thre (Suc n) s =
     (let (v, s) = inb_lsr s in if v AND LSR_THRE = 0 then poll_thre n s else Inr s)"

definition putc_poll :: "nat \<Rightarrow> u8 \<Rightarrow> serial \<Rightarrow> serial res" where
  "putc_poll n byte s = ebind (poll_thre n s) (\<lambda>s. Inr (outb THR_REG byte s))"

text \<open>\<open>serial_putc\<close>: the result says whether the byte was taken (\<open>True\<close>) or the thread
  sleeps in \<open>intq_putc\<close>.  \<open>off\<close>: interrupts were off when it was called.\<close>

definition txq_getc :: "bool \<Rightarrow> tid \<Rightarrow> serial \<Rightarrow> (u8 \<times> serial) res" where
  "txq_getc ic cur s =
     ebind (intq_getc ic cur (txq s)) (\<lambda>r. case r of
        Done c q _ \<Rightarrow> Inr (c, s\<lparr>txq := q\<rparr>) | _ \<Rightarrow> Inl Assert_failed)"

definition serial_putc :: "nat \<Rightarrow> bool \<Rightarrow> bool \<Rightarrow> tid \<Rightarrow> u8 \<Rightarrow> serial \<Rightarrow> (bool \<times> serial) res" where
  "serial_putc n ic off cur byte s =
     (if ser_mode s \<noteq> QUEUE then
        ebind (if ser_mode s = UNINIT then init_poll s else Inr s) (\<lambda>s.
        ebind (putc_poll n byte s) (\<lambda>s. Inr (True, s)))
      else
        ebind (if off \<and> intq_full (txq s)
               then ebind (txq_getc ic cur s) (\<lambda>(c, s). putc_poll n c s)
               else Inr s) (\<lambda>s.
        ebind (intq_putc ic cur (txq s) byte) (\<lambda>r. case r of
           Done _ q _ \<Rightarrow> Inr (True, write_ier (s\<lparr>txq := q\<rparr>))
         | Sleep q \<Rightarrow> Inr (False, s\<lparr>txq := q\<rparr>)
         | Wait_lock \<Rightarrow> Inr (False, s))))"

fun serial_flush :: "nat \<Rightarrow> nat \<Rightarrow> bool \<Rightarrow> tid \<Rightarrow> serial \<Rightarrow> serial res" where
  "serial_flush 0 n ic cur s = Inl Out_of_fuel"
| "serial_flush (Suc m) n ic cur s =
     (if intq_empty (txq s) then Inr s
      else ebind (txq_getc ic cur s) (\<lambda>(c, s). ebind (putc_poll n c s) (\<lambda>s. serial_flush m n ic cur s)))"

definition input_init :: "serial \<Rightarrow> serial" where
  "input_init s = s\<lparr>buffer := intq_init (buffer s)\<rparr>"

definition input_putc :: "bool \<Rightarrow> tid \<Rightarrow> u8 \<Rightarrow> serial \<Rightarrow> serial res" where
  "input_putc ic cur key s =
     ebind (kassert (\<not> intq_full (buffer s))) (\<lambda>_.
     ebind (intq_putc ic cur (buffer s) key) (\<lambda>r. case r of
        Done _ q _ \<Rightarrow> Inr (serial_notify (s\<lparr>buffer := q\<rparr>)) | _ \<Rightarrow> Inl Assert_failed))"

text \<open>\<open>input_getc\<close>: the key, or \<open>None\<close> when the thread sleeps for one.\<close>

definition input_getc :: "bool \<Rightarrow> tid \<Rightarrow> serial \<Rightarrow> (u8 option \<times> serial) res" where
  "input_getc ic cur s =
     ebind (intq_getc ic cur (buffer s)) (\<lambda>r. case r of
        Done c q _ \<Rightarrow> Inr (Some c, serial_notify (s\<lparr>buffer := q\<rparr>))
      | Sleep q \<Rightarrow> Inr (None, s\<lparr>buffer := q\<rparr>)
      | Wait_lock \<Rightarrow> Inr (None, s))"

fun serial_recv_loop :: "nat \<Rightarrow> tid \<Rightarrow> serial \<Rightarrow> serial res" where
  "serial_recv_loop 0 cur s = Inl Out_of_fuel"
| "serial_recv_loop (Suc m) cur s =
     (if input_full s then Inr s
      else let (v, s) = inb_lsr s in
        if v AND LSR_DR = 0 then Inr s
        else let (c, s) = inb_rbr s in ebind (input_putc True cur c s) (\<lambda>s. serial_recv_loop m cur s))"

fun serial_xmit_loop :: "nat \<Rightarrow> tid \<Rightarrow> serial \<Rightarrow> serial res" where
  "serial_xmit_loop 0 cur s = Inl Out_of_fuel"
| "serial_xmit_loop (Suc m) cur s =
     (if intq_empty (txq s) then Inr s
      else let (v, s) = inb_lsr s in
        if v AND LSR_THRE = 0 then Inr s
        else ebind (txq_getc True cur s) (\<lambda>(c, s). serial_xmit_loop m cur (outb THR_REG c s)))"

definition serial_interrupt :: "nat \<Rightarrow> tid \<Rightarrow> serial \<Rightarrow> serial res" where
  "serial_interrupt m cur s =
     ebind (serial_recv_loop m cur s) (\<lambda>s. ebind (serial_xmit_loop m cur s) (\<lambda>s. Inr (write_ier s)))"

section \<open>What the device was told\<close>

text \<open>The state of the 16550A that matters here: whether the divisor latch is selected, the bytes
  given to transmit so far, and the interrupt enable register.\<close>

fun uart :: "bool \<times> u8 list \<times> u8 \<Rightarrow> u16 \<times> u8 \<Rightarrow> bool \<times> u8 list \<times> u8" where
  "uart (dlab, sent, ier) (p, v) =
     (if p = LCR_REG then (v AND LCR_DLAB \<noteq> 0, sent, ier)
      else if dlab then (dlab, sent, ier)
      else if p = THR_REG then (dlab, sent @ [v], ier)
      else if p = IER_REG then (dlab, sent, v)
      else (dlab, sent, ier))"

definition uart_state :: "serial \<Rightarrow> bool \<times> u8 list \<times> u8" where
  "uart_state s = foldl uart (False, [], 0) (outs s)"

definition uart_sent :: "serial \<Rightarrow> u8 list" where
  "uart_sent s = fst (snd (uart_state s))"

definition uart_ier :: "serial \<Rightarrow> u8" where
  "uart_ier s = snd (snd (uart_state s))"

definition uart_dlab :: "serial \<Rightarrow> bool" where
  "uart_dlab s = fst (uart_state s)"

text \<open>All bytes that \<open>serial_putc\<close> has taken, in order: sent, then queued.\<close>

definition taken :: "serial \<Rightarrow> u8 list" where
  "taken s = uart_sent s @ intq_contents (txq s)"

definition serial_inv :: "serial \<Rightarrow> bool" where
  "serial_inv s \<longleftrightarrow> intq_wf (txq s) \<and> intq_wf (buffer s) \<and> \<not> uart_dlab s
     \<and> (if ser_mode s = QUEUE then intq_contents (txq s) \<noteq> [] \<longrightarrow> uart_ier s AND IER_XMIT \<noteq> 0
        else intq_contents (txq s) = [])"

lemma uart_state_outb: "uart_state (outb p v s) = uart (uart_state s) (p, v)"
  by (simp add: uart_state_def outb_def)

lemma uart_state_upd [simp]:
  "uart_state (s\<lparr>txq := q\<rparr>) = uart_state s" "uart_state (s\<lparr>buffer := q\<rparr>) = uart_state s"
  "uart_state (s\<lparr>lsr_pos := n\<rparr>) = uart_state s" "uart_state (s\<lparr>rbr_pos := n\<rparr>) = uart_state s"
  "uart_state (s\<lparr>ser_mode := m\<rparr>) = uart_state s"
  by (simp_all add: uart_state_def)

lemma uart_parts_upd [simp]:
  "uart_dlab (s\<lparr>txq := q\<rparr>) = uart_dlab s" "uart_dlab (s\<lparr>buffer := q\<rparr>) = uart_dlab s"
  "uart_dlab (s\<lparr>lsr_pos := n\<rparr>) = uart_dlab s" "uart_dlab (s\<lparr>rbr_pos := n\<rparr>) = uart_dlab s"
  "uart_sent (s\<lparr>txq := q\<rparr>) = uart_sent s" "uart_sent (s\<lparr>buffer := q\<rparr>) = uart_sent s"
  "uart_sent (s\<lparr>lsr_pos := n\<rparr>) = uart_sent s" "uart_sent (s\<lparr>rbr_pos := n\<rparr>) = uart_sent s"
  "uart_ier (s\<lparr>txq := q\<rparr>) = uart_ier s" "uart_ier (s\<lparr>buffer := q\<rparr>) = uart_ier s"
  "uart_ier (s\<lparr>lsr_pos := n\<rparr>) = uart_ier s" "uart_ier (s\<lparr>rbr_pos := n\<rparr>) = uart_ier s"
  by (simp_all add: uart_dlab_def uart_sent_def uart_ier_def)

lemma uart_dlab_eq: "\<not> uart_dlab s \<Longrightarrow> uart_state s = (False, uart_sent s, uart_ier s)"
  by (simp add: uart_dlab_def uart_sent_def uart_ier_def prod_eq_iff)

lemma uart_of_state:
  assumes "uart_state s = (d, bs, i)"
  shows "uart_dlab s = d" "uart_sent s = bs" "uart_ier s = i"
  using assms by (simp_all add: uart_dlab_def uart_sent_def uart_ier_def)

lemma outb_fields [simp]:
  "ser_mode (outb p v s) = ser_mode s" "txq (outb p v s) = txq s" "buffer (outb p v s) = buffer s"
  "lsr (outb p v s) = lsr s" "lsr_pos (outb p v s) = lsr_pos s" "rbr (outb p v s) = rbr s"
  "rbr_pos (outb p v s) = rbr_pos s"
  by (simp_all add: outb_def)

text \<open>\<open>same_but_lsr s s'\<close>: a wait that only read the line status register.\<close>

definition same_but_lsr :: "serial \<Rightarrow> serial \<Rightarrow> bool" where
  "same_but_lsr s s' \<longleftrightarrow> (\<exists>n. s' = s\<lparr>lsr_pos := n\<rparr>)"

lemma poll_thre_same: "poll_thre n s = Inr s' \<Longrightarrow> same_but_lsr s s'"
proof (induction n arbitrary: s)
  case (Suc n)
  let ?s = "s\<lparr>lsr_pos := Suc (lsr_pos s)\<rparr>"
  have "poll_thre n ?s = Inr s' \<or> s' = ?s"
    using Suc.prems by (simp add: inb_lsr_def split: if_splits)
  then have "same_but_lsr ?s s' \<or> s' = ?s" using Suc.IH by blast
  then show ?case by (auto simp: same_but_lsr_def)
qed simp

lemma poll_thre_returns:
  "k < n \<Longrightarrow> lsr s (lsr_pos s + k) AND LSR_THRE \<noteq> 0 \<Longrightarrow> \<exists>s'. poll_thre n s = Inr s'"
proof (induction n arbitrary: s k)
  case (Suc n)
  show ?case
  proof (cases "lsr s (lsr_pos s) AND LSR_THRE = 0")
    case True
    then obtain k' where "k = Suc k'" using Suc.prems(2) by (cases k) auto
    then show ?thesis
      using Suc.IH[of k' "s\<lparr>lsr_pos := Suc (lsr_pos s)\<rparr>"] Suc.prems True by (simp add: inb_lsr_def)
  qed (simp add: inb_lsr_def)
qed simp

text \<open>The device becomes ready within \<open>n\<close> reads of its status, whenever it is asked.\<close>

definition ready_within :: "nat \<Rightarrow> serial \<Rightarrow> bool" where
  "ready_within n s \<longleftrightarrow> (\<forall>p. \<exists>k<n. lsr s (p + k) AND LSR_THRE \<noteq> 0)"

lemma putc_poll_ok:
  assumes "ready_within n s" "\<not> uart_dlab s"
  shows "\<exists>k. putc_poll n c s = Inr (outb THR_REG c (s\<lparr>lsr_pos := k\<rparr>))
     \<and> uart_state (outb THR_REG c (s\<lparr>lsr_pos := k\<rparr>)) = (False, uart_sent s @ [c], uart_ier s)"
proof -
  obtain k where "k < n" "lsr s (lsr_pos s + k) AND LSR_THRE \<noteq> 0"
    using assms(1) unfolding ready_within_def by blast
  then obtain s' where s': "poll_thre n s = Inr s'" using poll_thre_returns by blast
  then obtain m where "s' = s\<lparr>lsr_pos := m\<rparr>" using poll_thre_same[OF s'] unfolding same_but_lsr_def by blast
  then show ?thesis
    using s' by (auto simp: putc_poll_def uart_state_outb uart_dlab_eq[OF assms(2)])
qed

lemma write_ier_uart:
  assumes "\<not> uart_dlab s"
  shows "uart_state (write_ier s) = (False, uart_sent s,
     (if intq_empty (txq s) then 0 else IER_XMIT) OR (if input_full s then 0 else IER_RECV))"
  by (simp add: write_ier_def uart_state_outb uart_dlab_eq[OF assms] Let_def)

lemma write_ier_fields [simp]:
  "ser_mode (write_ier s) = ser_mode s" "txq (write_ier s) = txq s" "buffer (write_ier s) = buffer s"
  "lsr (write_ier s) = lsr s" "lsr_pos (write_ier s) = lsr_pos s" "rbr (write_ier s) = rbr s"
  "rbr_pos (write_ier s) = rbr_pos s"
  by (simp_all add: write_ier_def Let_def)

lemma ier_bits: "((2 :: u8) OR (if b then 0 else 1)) AND 2 \<noteq> 0"
  by simp

text \<open>Whatever was the register before, after \<open>write_ier\<close> a queued byte has its interrupt.\<close>

lemma write_ier_inv:
  assumes "intq_wf (txq s)" "intq_wf (buffer s)" "\<not> uart_dlab s" "ser_mode s = QUEUE"
  shows "serial_inv (write_ier s)" and "taken (write_ier s) = taken s"
  using assms write_ier_uart[OF assms(3)] uart_of_state[OF write_ier_uart[OF assms(3)]] ier_bits
  by (simp_all add: serial_inv_def taken_def intq_empty_contents)

lemma init_poll_ok:
  assumes "serial_inv s" "ser_mode s = UNINIT"
  shows "\<exists>s'. init_poll s = Inr s' \<and> serial_inv s' \<and> ser_mode s' = POLL \<and> taken s' = taken s
     \<and> lsr s' = lsr s \<and> buffer s' = buffer s"
proof -
  have nd: "\<not> uart_dlab s" using assms(1) by (simp add: serial_inv_def)
  have q: "intq_wf (intq_init (txq s))" "intq_contents (intq_init (txq s)) = []" "intq_contents (txq s) = []"
    using assms by (simp_all add: serial_inv_def intq_wf_def intq_init_def intq_contents_def intq_len_def)
  obtain s1 where s1: "set_serial 9600 (outb FCR_REG 0 (outb IER_REG 0 s)) = Inr s1"
    "uart_state s1 = (False, uart_sent s, 0)"
    "ser_mode s1 = ser_mode s" "txq s1 = txq s" "buffer s1 = buffer s" "lsr s1 = lsr s"
    by (simp add: set_serial_def Let_def uart_state_outb uart_dlab_eq[OF nd])
  let ?s = "(outb MCR_REG MCR_OUT2 s1)\<lparr>txq := intq_init (txq s1), ser_mode := POLL\<rparr>"
  have u: "uart_state ?s = (False, uart_sent s, 0)" by (simp add: uart_state_outb s1(2))
  have "init_poll s = Inr ?s" using s1 assms(2) by (simp add: init_poll_def Let_def)
  moreover have "serial_inv ?s" "taken ?s = taken s"
    using uart_of_state[OF u] q assms(1) s1 by (simp_all add: serial_inv_def taken_def)
  ultimately show ?thesis using s1 by simp
qed

lemma txq_getc_ok:
  assumes "intq_wf (txq s)" "intq_contents (txq s) = c # cs"
  shows "\<exists>q. txq_getc ic cur s = Inr (c, s\<lparr>txq := q\<rparr>) \<and> intq_wf q \<and> intq_contents q = cs"
  using intq_getc_done[OF assms, of ic cur] by (auto simp: txq_getc_def)

text \<open>One byte moved from the queue to the device.\<close>

lemma move_byte:
  assumes "ready_within n s" "\<not> uart_dlab s" "intq_wf (txq s)" "intq_contents (txq s) = c # cs"
  shows "\<exists>s'. ebind (txq_getc ic cur s) (\<lambda>(c, s). putc_poll n c s) = Inr s' \<and> \<not> uart_dlab s'
     \<and> taken s' = taken s \<and> intq_wf (txq s') \<and> intq_contents (txq s') = cs \<and> buffer s' = buffer s
     \<and> lsr s' = lsr s \<and> ser_mode s' = ser_mode s \<and> uart_ier s' = uart_ier s"
proof -
  obtain q where q: "txq_getc ic cur s = Inr (c, s\<lparr>txq := q\<rparr>)" "intq_wf q" "intq_contents q = cs"
    using txq_getc_ok[OF assms(3,4)] by blast
  have "ready_within n (s\<lparr>txq := q\<rparr>)" "\<not> uart_dlab (s\<lparr>txq := q\<rparr>)"
    using assms(1,2) by (simp_all add: ready_within_def uart_dlab_def)
  from putc_poll_ok[OF this, of c] obtain k where k:
    "putc_poll n c (s\<lparr>txq := q\<rparr>) = Inr (outb THR_REG c (s\<lparr>txq := q, lsr_pos := k\<rparr>))"
    and u: "uart_state (outb THR_REG c (s\<lparr>txq := q, lsr_pos := k\<rparr>))
      = (False, uart_sent (s\<lparr>txq := q\<rparr>) @ [c], uart_ier (s\<lparr>txq := q\<rparr>))" by auto
  show ?thesis
    using q k uart_of_state[OF u] assms(4)
    by (simp add: taken_def)
qed

text \<open>A byte put into a queue that has room.\<close>

lemma queue_byte:
  assumes "intq_wf (txq s)" "intq_wf (buffer s)" "\<not> uart_dlab s" "ser_mode s = QUEUE"
    and nf: "length (intq_contents (txq s)) < 63"
  shows "\<exists>q w. intq_putc ic cur (txq s) byte = Inr (Done () q w)
     \<and> serial_inv (write_ier (s\<lparr>txq := q\<rparr>)) \<and> taken (write_ier (s\<lparr>txq := q\<rparr>)) = taken s @ [byte]"
proof -
  have "\<not> intq_full (txq s)" using nf intq_full_contents[OF assms(1)] by simp
  then obtain q where q: "intq_putc ic cur (txq s) byte = Inr (Done () q (not_empty (txq s)))" "intq_wf q"
    "intq_contents q = intq_contents (txq s) @ [byte]"
    using intq_putc_done[OF assms(1)] by blast
  have "\<not> uart_dlab (s\<lparr>txq := q\<rparr>)" using assms(3) by (simp add: uart_dlab_def)
  then have "serial_inv (write_ier (s\<lparr>txq := q\<rparr>))"
    "taken (write_ier (s\<lparr>txq := q\<rparr>)) = taken (s\<lparr>txq := q\<rparr>)"
    using write_ier_inv[of "s\<lparr>txq := q\<rparr>"] q assms by simp_all
  moreover have "taken (s\<lparr>txq := q\<rparr>) = taken s @ [byte]" using q(3) by (simp add: taken_def uart_sent_def)
  ultimately show ?thesis using q(1) by simp
qed

lemma serial_putc_polled:
  assumes inv: "serial_inv s" and rdy: "ready_within n s" and m: "ser_mode s \<noteq> QUEUE"
  shows "\<exists>s'. serial_putc n ic off cur byte s = Inr (True, s') \<and> serial_inv s' \<and> lsr s' = lsr s
     \<and> taken s' = taken s @ [byte]"
proof -
  obtain s1 where s1: "(if ser_mode s = UNINIT then init_poll s else Inr s) = Inr s1" "serial_inv s1"
    "ser_mode s1 \<noteq> QUEUE" "taken s1 = taken s" "lsr s1 = lsr s"
    using init_poll_ok[OF inv] inv m by (cases "ser_mode s = UNINIT") auto
  have "ready_within n s1" "\<not> uart_dlab s1" using rdy s1 by (simp_all add: ready_within_def serial_inv_def)
  from putc_poll_ok[OF this, of byte] obtain k where k:
    "putc_poll n byte s1 = Inr (outb THR_REG byte (s1\<lparr>lsr_pos := k\<rparr>))"
    and u: "uart_state (outb THR_REG byte (s1\<lparr>lsr_pos := k\<rparr>)) = (False, uart_sent s1 @ [byte], uart_ier s1)"
    by blast
  have "serial_inv (outb THR_REG byte (s1\<lparr>lsr_pos := k\<rparr>))"
    "taken (outb THR_REG byte (s1\<lparr>lsr_pos := k\<rparr>)) = taken s1 @ [byte]"
    using s1(2,3) uart_of_state[OF u] by (simp_all add: serial_inv_def taken_def)
  then show ?thesis using s1 k m by (simp add: serial_putc_def)
qed

lemma serial_putc_sleep:
  assumes inv: "serial_inv s" and m: "ser_mode s = QUEUE" and full: "length (intq_contents (txq s)) = 63"
    and on: "\<not> ic" "\<not> off"
  shows "\<exists>s'. serial_putc n ic off cur byte s = Inr (False, s') \<and> serial_inv s' \<and> lsr s' = lsr s
     \<and> taken s' = taken s"
proof (cases "iq_lock (txq s) = None")
  case True
  then show ?thesis
    using intq_putc_sleep[of "txq s" ic cur byte] inv full m on
    by (simp add: serial_putc_def serial_inv_def taken_def uart_sent_def uart_dlab_def uart_ier_def)
next
  case False
  then show ?thesis
    using intq_putc_sleep[of "txq s" ic cur byte] inv full m on
    by (auto simp: serial_putc_def serial_inv_def)
qed

lemma serial_putc_queued:
  assumes inv: "serial_inv s" and rdy: "ready_within n s" and m: "ser_mode s = QUEUE"
    and room: "off \<or> length (intq_contents (txq s)) < 63"
  shows "\<exists>s'. serial_putc n ic off cur byte s = Inr (True, s') \<and> serial_inv s' \<and> lsr s' = lsr s
     \<and> taken s' = taken s @ [byte]"
proof -
  let ?full = "intq_full (txq s)"
  have wf: "intq_wf (txq s)" "intq_wf (buffer s)" "\<not> uart_dlab s" using inv by (simp_all add: serial_inv_def)
  have "\<exists>s1. (if off \<and> ?full then ebind (txq_getc ic cur s) (\<lambda>(c, s). putc_poll n c s) else Inr s) = Inr s1
      \<and> intq_wf (txq s1) \<and> intq_wf (buffer s1) \<and> \<not> uart_dlab s1 \<and> ser_mode s1 = QUEUE
      \<and> length (intq_contents (txq s1)) < 63 \<and> taken s1 = taken s \<and> lsr s1 = lsr s"
  proof (cases "off \<and> ?full")
    case True
    then obtain c cs where c: "intq_contents (txq s) = c # cs" "length cs = 62"
      using intq_full_contents[OF wf(1)] by (cases "intq_contents (txq s)") auto
    show ?thesis using move_byte[OF rdy wf(3,1) c(1), of ic cur] c(2) m wf True by auto
  next
    case False
    then have "length (intq_contents (txq s)) < 63"
      using room intq_full_contents[OF wf(1)] intq_contents_bound[OF wf(1)] by auto
    then show ?thesis using False m wf by auto
  qed
  then obtain s1 where s1: "(if off \<and> ?full then ebind (txq_getc ic cur s) (\<lambda>(c, s). putc_poll n c s) else Inr s) = Inr s1"
    and s1': "intq_wf (txq s1)" "intq_wf (buffer s1)" "\<not> uart_dlab s1" "ser_mode s1 = QUEUE"
      "length (intq_contents (txq s1)) < 63" "taken s1 = taken s" "lsr s1 = lsr s" by blast
  obtain q w where "intq_putc ic cur (txq s1) byte = Inr (Done () q w)"
    "serial_inv (write_ier (s1\<lparr>txq := q\<rparr>))" "taken (write_ier (s1\<lparr>txq := q\<rparr>)) = taken s1 @ [byte]"
    using queue_byte[OF s1'(1-5)] by blast
  then show ?thesis using s1 s1' m by (simp add: serial_putc_def)
qed

lemma serial_flush_ok:
  assumes "serial_inv s" "ready_within n s" "length (intq_contents (txq s)) < m"
  shows "\<exists>s'. serial_flush m n ic cur s = Inr s' \<and> serial_inv s' \<and> taken s' = taken s
     \<and> intq_contents (txq s') = [] \<and> lsr s' = lsr s"
  using assms
proof (induction m arbitrary: s)
  case (Suc m)
  have wf: "intq_wf (txq s)" "intq_wf (buffer s)" "\<not> uart_dlab s"
    using Suc.prems(1) by (simp_all add: serial_inv_def)
  show ?case
  proof (cases "intq_contents (txq s)")
    case Nil
    then show ?thesis using Suc.prems(1) wf by (simp add: intq_empty_contents)
  next
    case (Cons c cs)
    obtain s1 where s1: "ebind (txq_getc ic cur s) (\<lambda>(c, s). putc_poll n c s) = Inr s1" "\<not> uart_dlab s1"
      "taken s1 = taken s" "intq_wf (txq s1)" "intq_contents (txq s1) = cs" "buffer s1 = buffer s"
      "lsr s1 = lsr s" "ser_mode s1 = ser_mode s" "uart_ier s1 = uart_ier s"
      using move_byte[OF Suc.prems(2) wf(3,1) Cons, of ic cur] by blast
    have "serial_inv s1" "ready_within n s1" "length (intq_contents (txq s1)) < m"
      using Suc.prems s1 Cons wf by (auto simp: serial_inv_def ready_within_def)
    from Suc.IH[OF this] obtain s' where s': "serial_flush m n ic cur s1 = Inr s'" "serial_inv s'"
      "taken s' = taken s1" "intq_contents (txq s') = []" "lsr s' = lsr s1" by blast
    have "serial_flush (Suc m) n ic cur s
        = ebind (ebind (txq_getc ic cur s) (\<lambda>(c, s). putc_poll n c s)) (\<lambda>s. serial_flush m n ic cur s)"
      using Cons wf by (simp add: intq_empty_contents ebind_assoc case_prod_unfold cong del: ebind_weak_cong)
    then show ?thesis using s1 s' by simp
  qed
qed simp

lemma input_putc_ok:
  assumes "serial_inv s" "length (intq_contents (buffer s)) < 63"
  shows "\<exists>s'. input_putc ic cur c s = Inr s' \<and> serial_inv s' \<and> taken s' = taken s
     \<and> intq_contents (buffer s') = intq_contents (buffer s) @ [c] \<and> ser_mode s' = ser_mode s
     \<and> rbr s' = rbr s \<and> rbr_pos s' = rbr_pos s \<and> lsr s' = lsr s"
proof -
  have wf: "intq_wf (txq s)" "intq_wf (buffer s)" "\<not> uart_dlab s" using assms(1) by (simp_all add: serial_inv_def)
  have nf: "\<not> intq_full (buffer s)" using assms(2) intq_full_contents[OF wf(2)] by simp
  obtain q where q: "intq_putc ic cur (buffer s) c = Inr (Done () q (not_empty (buffer s)))" "intq_wf q"
    "intq_contents q = intq_contents (buffer s) @ [c]"
    using intq_putc_done[OF wf(2) nf] by blast
  have nd: "\<not> uart_dlab (s\<lparr>buffer := q\<rparr>)" using wf(3) by (simp add: uart_dlab_def)
  have t: "taken (s\<lparr>buffer := q\<rparr>) = taken s" by (simp add: taken_def uart_sent_def)
  show ?thesis
  proof (cases "ser_mode s = QUEUE")
    case True
    then show ?thesis
      using write_ier_inv[of "s\<lparr>buffer := q\<rparr>"] wf q nf nd t
      by (simp add: input_putc_def serial_notify_def)
  next
    case False
    then have "serial_inv (s\<lparr>buffer := q\<rparr>)"
      using assms(1) q nd by (simp add: serial_inv_def)
    then show ?thesis using False q nf t by (simp add: input_putc_def serial_notify_def)
  qed
qed

text \<open>The receive loop moves bytes from the device to the input buffer, in order, until the
  buffer is full or the device has no more.\<close>

lemma serial_inv_pos [simp]:
  "serial_inv (s\<lparr>lsr_pos := n\<rparr>) = serial_inv s" "serial_inv (s\<lparr>rbr_pos := n\<rparr>) = serial_inv s"
  "taken (s\<lparr>lsr_pos := n\<rparr>) = taken s" "taken (s\<lparr>rbr_pos := n\<rparr>) = taken s"
  by (simp_all add: serial_inv_def taken_def uart_dlab_def uart_sent_def uart_ier_def)

lemma serial_recv_loop_ok:
  assumes "serial_inv s" "63 - length (intq_contents (buffer s)) < m"
  shows "\<exists>s'. serial_recv_loop m cur s = Inr s' \<and> serial_inv s' \<and> taken s' = taken s
     \<and> ser_mode s' = ser_mode s \<and> rbr s' = rbr s \<and> rbr_pos s \<le> rbr_pos s' \<and> lsr s' = lsr s
     \<and> intq_contents (buffer s') = intq_contents (buffer s) @ map (rbr s) [rbr_pos s..<rbr_pos s']"
  using assms
proof (induction m arbitrary: s)
  case (Suc m)
  have wf: "intq_wf (buffer s)" using Suc.prems(1) by (simp add: serial_inv_def)
  let ?s1 = "s\<lparr>lsr_pos := Suc (lsr_pos s)\<rparr>" and ?s2 = "s\<lparr>lsr_pos := Suc (lsr_pos s), rbr_pos := Suc (rbr_pos s)\<rparr>"
  consider "input_full s" | "\<not> input_full s" "lsr s (lsr_pos s) AND LSR_DR = 0"
    | "\<not> input_full s" "lsr s (lsr_pos s) AND LSR_DR \<noteq> 0" by blast
  then show ?case
  proof cases
    case 1
    then show ?thesis using Suc.prems(1) by simp
  next
    case 2
    then show ?thesis using Suc.prems(1) by (simp add: inb_lsr_def)
  next
    case 3
    let ?c = "rbr s (rbr_pos s)"
    have nf: "length (intq_contents (buffer s)) < 63"
      using 3(1) wf intq_contents_bound[OF wf] by (simp add: input_full_def intq_full_contents)
    obtain s3 where s3: "input_putc True cur ?c ?s2 = Inr s3" "serial_inv s3" "taken s3 = taken ?s2"
      "intq_contents (buffer s3) = intq_contents (buffer ?s2) @ [?c]" "ser_mode s3 = ser_mode ?s2"
      "rbr s3 = rbr ?s2" "rbr_pos s3 = rbr_pos ?s2" "lsr s3 = lsr ?s2"
      using input_putc_ok[of ?s2 True cur ?c] Suc.prems(1) nf by auto
    have "63 - length (intq_contents (buffer s3)) < m" using Suc.prems(2) s3(4) nf by simp
    from Suc.IH[OF s3(2) this] obtain s' where s': "serial_recv_loop m cur s3 = Inr s'" "serial_inv s'"
      "taken s' = taken s3" "ser_mode s' = ser_mode s3" "rbr s' = rbr s3" "rbr_pos s3 \<le> rbr_pos s'" "lsr s' = lsr s3"
      "intq_contents (buffer s') = intq_contents (buffer s3) @ map (rbr s3) [rbr_pos s3..<rbr_pos s']" by blast
    have "[rbr_pos s..<rbr_pos s'] = rbr_pos s # [Suc (rbr_pos s)..<rbr_pos s']"
      using s'(6) s3(7) by (simp add: upt_conv_Cons)
    then show ?thesis using 3 s3 s' by (simp add: inb_lsr_def inb_rbr_def)
  qed
qed simp

lemma serial_xmit_loop_ok:
  assumes "serial_inv s" "ser_mode s = QUEUE" "length (intq_contents (txq s)) < m"
  shows "\<exists>s'. serial_xmit_loop m cur s = Inr s' \<and> serial_inv s' \<and> taken s' = taken s
     \<and> ser_mode s' = QUEUE \<and> buffer s' = buffer s \<and> rbr_pos s' = rbr_pos s \<and> lsr s' = lsr s"
  using assms
proof (induction m arbitrary: s)
  case (Suc m)
  have wf: "intq_wf (txq s)" "\<not> uart_dlab s" using Suc.prems(1) by (simp_all add: serial_inv_def)
  let ?s1 = "s\<lparr>lsr_pos := Suc (lsr_pos s)\<rparr>"
  consider "intq_contents (txq s) = []" | "intq_contents (txq s) \<noteq> []" "lsr s (lsr_pos s) AND LSR_THRE = 0"
    | c cs where "intq_contents (txq s) = c # cs" "lsr s (lsr_pos s) AND LSR_THRE \<noteq> 0"
    by (cases "intq_contents (txq s)") auto
  then show ?case
  proof cases
    case 1
    then show ?thesis using Suc.prems wf by (simp add: intq_empty_contents)
  next
    case 2
    then show ?thesis using Suc.prems wf by (simp add: intq_empty_contents inb_lsr_def)
  next
    case 3
    obtain q where q: "txq_getc True cur ?s1 = Inr (c, ?s1\<lparr>txq := q\<rparr>)" "intq_wf q" "intq_contents q = cs"
      using txq_getc_ok[of ?s1 c cs True cur] wf(1) 3(1) by auto
    let ?s2 = "outb THR_REG c (?s1\<lparr>txq := q\<rparr>)"
    have u: "uart_state ?s2 = (False, uart_sent s @ [c], uart_ier s)"
      by (simp add: uart_state_outb uart_dlab_eq[OF wf(2)])
    have "serial_inv ?s2" "ser_mode ?s2 = QUEUE" "length (intq_contents (txq ?s2)) < m"
      using Suc.prems uart_of_state[OF u] q 3(1) by (auto simp: serial_inv_def)
    from Suc.IH[OF this] obtain s' where s': "serial_xmit_loop m cur ?s2 = Inr s'" "serial_inv s'"
      "taken s' = taken ?s2" "ser_mode s' = QUEUE" "buffer s' = buffer ?s2" "rbr_pos s' = rbr_pos ?s2" "lsr s' = lsr ?s2" by blast
    have "taken ?s2 = taken s" using uart_of_state[OF u] q(3) 3(1) by (simp add: taken_def)
    then show ?thesis using s' q 3 wf by (simp add: intq_empty_contents inb_lsr_def)
  qed
qed simp

lemma serial_interrupt_ok:
  assumes "serial_inv s" "ser_mode s = QUEUE" "63 < m"
  shows "\<exists>s'. serial_interrupt m cur s = Inr s' \<and> serial_inv s' \<and> taken s' = taken s \<and> lsr s' = lsr s
     \<and> intq_contents (buffer s') = intq_contents (buffer s) @ map (rbr s) [rbr_pos s..<rbr_pos s']"
proof -
  obtain s1 where s1: "serial_recv_loop m cur s = Inr s1" "serial_inv s1" "taken s1 = taken s"
    "ser_mode s1 = QUEUE" "lsr s1 = lsr s" "intq_contents (buffer s1) = intq_contents (buffer s) @ map (rbr s) [rbr_pos s..<rbr_pos s1]"
  proof -
    have "63 - length (intq_contents (buffer s)) < m" using assms(3) by simp
    then show ?thesis using serial_recv_loop_ok[OF assms(1), of m cur] assms(2) that by auto
  qed
  have "length (intq_contents (txq s1)) < m"
    using intq_contents_bound[of "txq s1"] s1(2) assms(3) by (simp add: serial_inv_def)
  then obtain s2 where s2: "serial_xmit_loop m cur s1 = Inr s2" "serial_inv s2" "taken s2 = taken s1"
    "ser_mode s2 = QUEUE" "buffer s2 = buffer s1" "rbr_pos s2 = rbr_pos s1" "lsr s2 = lsr s1"
    using serial_xmit_loop_ok[OF s1(2,4)] by blast
  have "serial_inv (write_ier s2)" "taken (write_ier s2) = taken s2"
    using write_ier_inv[of s2] s2(2,4) by (simp_all add: serial_inv_def)
  then show ?thesis using s1 s2 by (simp add: serial_interrupt_def)
qed

lemma input_getc_ok:
  assumes "serial_inv s" "input_getc ic cur s = Inr (r, s')"
  shows "serial_inv s' \<and> taken s' = taken s \<and> lsr s' = lsr s
     \<and> intq_contents (buffer s) = (case r of None \<Rightarrow> [] | Some c \<Rightarrow> [c]) @ intq_contents (buffer s')"
proof -
  have wf: "intq_wf (txq s)" "intq_wf (buffer s)" "\<not> uart_dlab s" using assms(1) by (simp_all add: serial_inv_def)
  have t: "taken (s\<lparr>buffer := q\<rparr>) = taken s" for q by (simp add: taken_def)
  have inv: "serial_inv (s\<lparr>buffer := q\<rparr>)" if "intq_wf q" for q
    using assms(1) that by (simp add: serial_inv_def)
  show ?thesis
  proof (cases "intq_contents (buffer s)")
    case Nil
    then show ?thesis
      using assms inv intq_getc_sleep[OF wf(2) Nil, of ic cur] t wf
      by (auto simp: input_getc_def split: if_splits)
  next
    case (Cons c cs)
    obtain q where q: "intq_getc ic cur (buffer s) = Inr (Done c q (not_full (buffer s)))" "intq_wf q"
      "intq_contents q = cs" using intq_getc_done[OF wf(2) Cons] by blast
    then have "r = Some c" "s' = serial_notify (s\<lparr>buffer := q\<rparr>)" using assms(2) by (simp_all add: input_getc_def)
    then show ?thesis
      using write_ier_inv[of "s\<lparr>buffer := q\<rparr>"] wf q t inv[OF q(2)] Cons
      by (auto simp: serial_notify_def)
  qed
qed

section \<open>Properties\<close>

text \<open>The driver's calls, in any order, with the bytes handed to \<open>serial_putc\<close> and taken by it
  recorded in order.  The device is ready within \<open>n\<close> status reads.\<close>

inductive serial_run :: "nat \<Rightarrow> serial \<Rightarrow> u8 list \<Rightarrow> serial \<Rightarrow> bool" where
  start: "serial_run n s [] s"
| putc: "serial_run n s bs s1 \<Longrightarrow> serial_putc n ic off cur c s1 = Inr (True, s2) \<Longrightarrow>
    serial_run n s (bs @ [c]) s2"
| putc_sleeps: "serial_run n s bs s1 \<Longrightarrow> serial_putc n ic off cur c s1 = Inr (False, s2) \<Longrightarrow>
    serial_run n s bs s2"
| flush: "serial_run n s bs s1 \<Longrightarrow> serial_flush 64 n ic cur s1 = Inr s2 \<Longrightarrow> serial_run n s bs s2"
| interrupt: "serial_run n s bs s1 \<Longrightarrow> ser_mode s1 = QUEUE \<Longrightarrow> serial_interrupt 64 cur s1 = Inr s2 \<Longrightarrow>
    serial_run n s bs s2"
| input: "serial_run n s bs s1 \<Longrightarrow> input_getc ic cur s1 = Inr (r, s2) \<Longrightarrow> serial_run n s bs s2"

lemma serial_putc_any:
  assumes inv: "serial_inv s" and rdy: "ready_within n s" and r: "serial_putc n ic off cur c s = Inr (b, s')"
  shows "serial_inv s' \<and> lsr s' = lsr s \<and> taken s' = (if b then taken s @ [c] else taken s)"
proof -
  have wf: "intq_wf (txq s)" using inv by (simp add: serial_inv_def)
  consider "ser_mode s \<noteq> QUEUE" | "ser_mode s = QUEUE" "off \<or> length (intq_contents (txq s)) < 63"
    | "ser_mode s = QUEUE" "\<not> off" "length (intq_contents (txq s)) = 63"
    using intq_contents_bound[OF wf] by linarith
  then show ?thesis
  proof cases
    case 1
    then show ?thesis using serial_putc_polled[OF inv rdy 1, of ic off cur c] r by auto
  next
    case 2
    then show ?thesis using serial_putc_queued[OF inv rdy 2, of ic cur c] r by auto
  next
    case 3
    then have "\<not> ic" using r intq_putc_sleep[OF wf 3(3), of ic cur c] by (auto simp: serial_putc_def)
    then show ?thesis using serial_putc_sleep[OF inv 3(1,3) _ 3(2), of ic n cur c] r by auto
  qed
qed

text \<open>C25.  No byte is lost, duplicated or reordered: after any sequence of calls of the driver,
  the bytes given to the device followed by the bytes still queued are the bytes that were
  sent or queued at the start followed by all bytes taken since, in order; and the driver's
  invariant holds, in particular a queued byte has its transmit interrupt enabled.\<close>

theorem serial_in_order:
  assumes "serial_run n s bs s'" and "serial_inv s" and "ready_within n s"
  shows "serial_inv s' \<and> taken s' = taken s @ bs"
proof -
  have "serial_inv s' \<and> taken s' = taken s @ bs \<and> lsr s' = lsr s"
    using assms
  proof induction
    case (putc n s bs s1 ic off cur c s2)
    then show ?case using serial_putc_any[of s1 n ic off cur c True s2] by (simp add: ready_within_def)
  next
    case (putc_sleeps n s bs s1 ic off cur c s2)
    then show ?case using serial_putc_any[of s1 n ic off cur c False s2] by (simp add: ready_within_def)
  next
    case (flush n s bs s1 ic cur s2)
    then have "length (intq_contents (txq s1)) < 64"
      using intq_contents_bound[of "txq s1"] by (simp add: serial_inv_def)
    then show ?case
      using flush serial_flush_ok[of s1 n 64 ic cur] by (auto simp: ready_within_def)
  next
    case (interrupt n s bs s1 cur s2)
    then show ?case using serial_interrupt_ok[of s1 64 cur] by auto
  next
    case (input n s bs s1 ic cur r s2)
    then show ?case using input_getc_ok[of s1 ic cur r s2] by auto
  qed simp
  then show ?thesis by simp
qed

definition wserial :: serial where
  "wserial = \<lparr>ser_mode = UNINIT, txq = wintq, buffer = wintq, lsr = (\<lambda>_. 0x20), lsr_pos = 0,
     rbr = (\<lambda>_. 65), rbr_pos = 0, outs = []\<rparr>"

lemma wserial_inv: "serial_inv wserial" "ready_within 1 wserial"
  using wintq_wf by (simp_all add: serial_inv_def wserial_def uart_dlab_def uart_state_def ready_within_def)

theorem serial_in_order_witness:
  "\<exists>s'. serial_putc 1 False False 1 72 wserial = Inr (True, s') \<and> serial_inv s' \<and> taken s' = taken wserial @ [72]"
proof -
  obtain s' where s': "serial_putc 1 False False 1 72 wserial = Inr (True, s')"
    using serial_putc_polled[OF wserial_inv, of False False 1 72] by (auto simp: wserial_def)
  then have "serial_run 1 wserial ([] @ [72]) s'" by (rule serial_run.putc[OF serial_run.start])
  then show ?thesis using serial_in_order[OF _ wserial_inv, of "[] @ [72]" s'] s' by simp
qed

text \<open>The interrupt handler terminates with at most 64 iterations of each of its loops, and
  moves the received bytes to the input buffer in order.\<close>

theorem serial_interrupt_correct:
  assumes "serial_inv s" and "ser_mode s = QUEUE"
  shows "\<exists>s'. serial_interrupt 64 cur s = Inr s' \<and> serial_inv s' \<and> taken s' = taken s
     \<and> intq_contents (buffer s') = intq_contents (buffer s) @ map (rbr s) [rbr_pos s..<rbr_pos s']"
  using serial_interrupt_ok[OF assms, of 64 cur] by auto

theorem serial_interrupt_correct_witness:
  "\<exists>s'. serial_interrupt 64 1 (wserial\<lparr>ser_mode := QUEUE\<rparr>) = Inr s' \<and> serial_inv s'
     \<and> taken s' = taken (wserial\<lparr>ser_mode := QUEUE\<rparr>)
     \<and> intq_contents (buffer s') = intq_contents (buffer (wserial\<lparr>ser_mode := QUEUE\<rparr>))
         @ map (rbr (wserial\<lparr>ser_mode := QUEUE\<rparr>)) [rbr_pos (wserial\<lparr>ser_mode := QUEUE\<rparr>)..<rbr_pos s']"
  by (rule serial_interrupt_correct)
    (use wintq_wf in \<open>simp_all add: serial_inv_def wserial_def uart_dlab_def uart_state_def\<close>)

end
