(* ===== verification/Arith64.thy ===== *)
theory Arith64
  imports Prelude "HOL-Library.Signed_Division"
begin

text \<open>
  64-bit division on a 32-bit machine, \<open>src/lib/arithmetic.c\<close>.

  Words keep their width, so every shift, product and conversion wraps as in C; the \<open>divl\<close>
  instruction is a divide error when its quotient does not fit.  The lemmas prove the claims
  of the comments in \<open>udiv64\<close>: no \<open>divl\<close> traps and the quotient is exact.
\<close>

section \<open>The operations of arithmetic.c\<close>

definition divl :: "u64 \<Rightarrow> u32 \<Rightarrow> u32 res" where
  "divl n d =
     (if d = 0 \<or> unat n div unat d \<ge> 2 ^ 32 then Inl Divide_error
      else Inr (of_nat (unat n div unat d)))"

definition nlz :: "u32 \<Rightarrow> nat" where
  "nlz x =
     (let n = 0;
          (n, x) = (if x \<le> 0x0000FFFF then (n + 16, push_bit 16 x) else (n, x));
          (n, x) = (if x \<le> 0x00FFFFFF then (n + 8, push_bit 8 x) else (n, x));
          (n, x) = (if x \<le> 0x0FFFFFFF then (n + 4, push_bit 4 x) else (n, x));
          (n, x) = (if x \<le> 0x3FFFFFFF then (n + 2, push_bit 2 x) else (n, x))
      in if x \<le> 0x7FFFFFFF then n + 1 else n)"

definition udiv64 :: "u64 \<Rightarrow> u64 \<Rightarrow> u64 res" where
  "udiv64 n d =
     (if drop_bit 32 d = 0 then
        let b = (push_bit 32 1 :: u64);
            n1 = (ucast (drop_bit 32 n) :: u32);
            n0 = (ucast n :: u32);
            d0 = (ucast d :: u32)
        in if d0 = 0 then Inl Divide_error
           else ebind (divl (b * ucast (n1 mod d0) + ucast n0) d0) (\<lambda>q.
                Inr (ucast q + b * ucast (n1 div d0)))
      else if n < d then Inr 0
      else
        let d1 = (ucast (drop_bit 32 d) :: u32);
            s = nlz d1
        in ebind (divl (drop_bit 1 n) (ucast (drop_bit 32 (push_bit s d)))) (\<lambda>q32.
           let q = (ucast (drop_bit (31 - s) q32) :: u64)
           in Inr (if n - (q - 1) * d < d then q - 1 else q)))"

definition umod64 :: "u64 \<Rightarrow> u64 \<Rightarrow> u32 res" where
  "umod64 n d = ebind (udiv64 n d) (\<lambda>q. Inr (ucast (n - d * q)))"

definition sdiv64 :: "u64 \<Rightarrow> u64 \<Rightarrow> u64 res" where
  "sdiv64 n d =
     (let n_abs = (if 0 \<le>s n then n else - n);
          d_abs = (if 0 \<le>s d then d else - d)
      in ebind (udiv64 n_abs d_abs) (\<lambda>q_abs.
         Inr (if (n <s 0) = (d <s 0) then q_abs else - q_abs)))"

definition smod64 :: "u64 \<Rightarrow> u64 \<Rightarrow> u32 res" where
  "smod64 n d = ebind (sdiv64 n d) (\<lambda>q. Inr (ucast (n - d * q)))"

definition divdi3 :: "u64 \<Rightarrow> u64 \<Rightarrow> u64 res" where
  "divdi3 n d = sdiv64 n d"

definition moddi3 :: "u64 \<Rightarrow> u64 \<Rightarrow> u64 res" where
  "moddi3 n d = ebind (smod64 n d) (\<lambda>r. Inr (scast r))"

definition udivdi3 :: "u64 \<Rightarrow> u64 \<Rightarrow> u64 res" where
  "udivdi3 n d = udiv64 n d"

definition umoddi3 :: "u64 \<Rightarrow> u64 \<Rightarrow> u64 res" where
  "umoddi3 n d = ebind (umod64 n d) (\<lambda>r. Inr (ucast r))"

section \<open>Leading zeros\<close>

lemma unat_push_bit:
  fixes x :: "'a::len word"
  assumes "unat x * 2 ^ k < 2 ^ LENGTH('a)"
  shows "unat (push_bit k x) = unat x * 2 ^ k"
  using assms unfolding unsigned_push_bit_eq
  unfolding push_bit_eq_mult by (simp add: take_bit_nat_eq_self)

text \<open>One step of \<open>nlz\<close>: shift by \<open>k\<close> if the top \<open>k\<close> bits are zero.\<close>

lemma nlz_step:
  fixes x :: u32
  assumes "k \<le> 16" "unat x \<ge> 2 ^ (32 - 2 * k)" "unat lim = 2 ^ (32 - k) - 1"
  shows "unat (if x \<le> lim then push_bit k x else x) = unat x * 2 ^ (if x \<le> lim then k else 0)"
    and "unat (if x \<le> lim then push_bit k x else x) \<ge> 2 ^ (32 - k)"
proof -
  have "(2 :: nat) ^ (32 - k) > 0" by simp
  then have le: "x \<le> lim \<longleftrightarrow> unat x < 2 ^ (32 - k)"
    unfolding word_le_nat_alt assms(3) by linarith
  show 1: "unat (if x \<le> lim then push_bit k x else x) = unat x * 2 ^ (if x \<le> lim then k else 0)"
  proof (cases "x \<le> lim")
    case True
    then have "unat x * 2 ^ k < 2 ^ (32 - k) * 2 ^ k" using le by simp
    also have "\<dots> = 2 ^ 32" using assms(1) by (simp flip: power_add)
    finally show ?thesis using True by (simp add: unat_push_bit)
  qed simp
  show "unat (if x \<le> lim then push_bit k x else x) \<ge> 2 ^ (32 - k)"
  proof (cases "x \<le> lim")
    case True
    have "(2 :: nat) ^ (32 - k) = 2 ^ (32 - 2 * k) * 2 ^ k" using assms(1) by (simp flip: power_add)
    also have "\<dots> \<le> unat x * 2 ^ k" using assms(2) by simp
    finally show ?thesis using 1 True by simp
  next
    case False
    then show ?thesis using le by simp
  qed
qed

lemma nlz_correct:
  assumes "x \<noteq> 0"
  shows "2 ^ 31 \<le> unat x * 2 ^ nlz x" and "unat x * 2 ^ nlz x < 2 ^ 32" and "nlz x \<le> 31"
proof -
  define x1 where "x1 = (if x \<le> 0x0000FFFF then push_bit 16 x else x)"
  define x2 where "x2 = (if x1 \<le> 0x00FFFFFF then push_bit 8 x1 else x1)"
  define x3 where "x3 = (if x2 \<le> 0x0FFFFFFF then push_bit 4 x2 else x2)"
  define x4 where "x4 = (if x3 \<le> 0x3FFFFFFF then push_bit 2 x3 else x3)"
  define k1 where "k1 = (if x \<le> 0x0000FFFF then 16 else 0 :: nat)"
  define k2 where "k2 = (if x1 \<le> 0x00FFFFFF then 8 else 0 :: nat)"
  define k3 where "k3 = (if x2 \<le> 0x0FFFFFFF then 4 else 0 :: nat)"
  define k4 where "k4 = (if x3 \<le> 0x3FFFFFFF then 2 else 0 :: nat)"
  define k5 where "k5 = (if x4 \<le> 0x7FFFFFFF then 1 else 0 :: nat)"
  have n: "nlz x = k1 + k2 + k3 + k4 + k5"
    by (simp add: nlz_def Let_def k1_def k2_def k3_def k4_def k5_def x1_def x2_def x3_def x4_def)
  have "unat x \<ge> 1" using assms by (simp add: Suc_le_eq unat_gt_0)
  then have s1: "unat x1 = unat x * 2 ^ k1" "unat x1 \<ge> 2 ^ 16"
    using nlz_step[where k = 16 and x = x and lim = "0x0000FFFF"] by (simp_all add: x1_def k1_def)
  then have s2: "unat x2 = unat x1 * 2 ^ k2" "unat x2 \<ge> 2 ^ 24"
    using nlz_step[where k = 8 and x = x1 and lim = "0x00FFFFFF"] by (simp_all add: x2_def k2_def)
  then have s3: "unat x3 = unat x2 * 2 ^ k3" "unat x3 \<ge> 2 ^ 28"
    using nlz_step[where k = 4 and x = x2 and lim = "0x0FFFFFFF"] by (simp_all add: x3_def k3_def)
  then have s4: "unat x4 = unat x3 * 2 ^ k4" "unat x4 \<ge> 2 ^ 30"
    using nlz_step[where k = 2 and x = x3 and lim = "0x3FFFFFFF"] by (simp_all add: x4_def k4_def)
  have "unat x4 * 2 ^ k5 = unat x * 2 ^ nlz x"
    using s1(1) s2(1) s3(1) s4(1) by (simp add: n power_add)
  moreover have "2 ^ 31 \<le> unat x4 * 2 ^ k5 \<and> unat x4 * 2 ^ k5 < 2 ^ 32"
    using s4(2) unat_lt_size[of x4] by (auto simp: k5_def word_le_nat_alt)
  ultimately show "2 ^ 31 \<le> unat x * 2 ^ nlz x" "unat x * 2 ^ nlz x < 2 ^ 32" by simp_all
  show "nlz x \<le> 31" by (simp add: n k1_def k2_def k3_def k4_def k5_def)
qed

section \<open>Unsigned division\<close>

lemma unat_ucast_low: "unat (ucast (n :: u64) :: u32) = unat n mod 2 ^ 32"
  by (simp add: unsigned_ucast_eq take_bit_eq_mod)

lemma unat_shr: "unat (drop_bit k w) = unat w div 2 ^ k" for w :: "'a::len word"
  unfolding unat_drop_bit_eq by (simp add: drop_bit_eq_div)

lemma unat_hi: "unat (ucast (drop_bit 32 (n :: u64)) :: u32) = unat n div 2 ^ 32"
proof -
  have "unat n div 2 ^ 32 < 2 ^ 32" using unat_lt_size[of n] by (simp add: div_less_iff_less_mult)
  then show ?thesis unfolding unat_ucast_low unat_shr by simp
qed

lemma unat_zext [simp]: "unat (ucast (x :: u32) :: u64) = unat x"
proof -
  have "unat x < 2 ^ LENGTH(64)" using unat_lt_size[of x] by (rule order_less_trans) simp
  then show ?thesis unfolding unsigned_ucast_eq by (rule take_bit_nat_eq_self)
qed

lemma unat_mult_le: "unat a * unat b < 2 ^ LENGTH('a) \<Longrightarrow> unat (a * b) = unat a * unat b"
  for a b :: "'a::len word"
  using unat_mult_lem by blast

lemma divl_ok:
  assumes "unat d > 0" "unat n < 2 ^ 32 * unat d"
  shows "\<exists>q. divl n d = Inr q \<and> unat q = unat n div unat d"
proof -
  have "unat n div unat d < 2 ^ 32" using assms by (simp add: div_less_iff_less_mult mult.commute)
  then show ?thesis using assms by (auto simp: divl_def unat_of_nat unat_gt_0)
qed

text \<open>The divisor fits in 32 bits: schoolbook division by one digit.\<close>

lemma schoolbook:
  fixes N D b :: nat
  assumes "D > 0"
  shows "(b * (N div b mod D) + N mod b) div D + b * (N div b div D) = N div D"
proof -
  define k m r where "k = N div b div D" and "m = N div b mod D" and "r = N mod b"
  have "b * (N div b) + r = N" by (simp add: r_def)
  moreover have "N div b = D * k + m" by (simp add: k_def m_def)
  ultimately have N: "N = (b * m + r) + D * (b * k)" by (metis add.assoc add.commute distrib_left mult.left_commute)
  have "N div D = (b * m + r) div D + b * k" unfolding N using assms by simp
  then show ?thesis by (simp add: k_def m_def r_def)
qed

lemma udiv64_small:
  assumes "unat d < 2 ^ 32" "unat d > 0"
  shows "\<exists>q. udiv64 n d = Inr q \<and> unat q = unat n div unat d"
proof -
  let ?N = "unat n" and ?D = "unat d" and ?b = "2 ^ 32 :: nat"
  define n1 n0 d0 where "n1 = (ucast (drop_bit 32 n) :: u32)" and "n0 = (ucast n :: u32)" and "d0 = (ucast d :: u32)"
  have u: "unat n1 = ?N div ?b" "unat n0 = ?N mod ?b" "unat d0 = ?D"
    unfolding n1_def n0_def d0_def using unat_hi[of n] unat_ucast_low[of n] unat_ucast_low[of d] assms(1)
    by simp_all
  have "unat (drop_bit 32 d) = 0" unfolding unat_shr using assms(1) by simp
  then have hi: "drop_bit 32 d = 0" by (simp only: unat_0_iff)
  have b: "unat (push_bit 32 1 :: u64) = ?b" by simp
  have m: "unat (n1 mod d0) = ?N div ?b mod ?D" "unat (n1 div d0) = ?N div ?b div ?D"
    by (simp_all add: unat_mod_distrib unat_div_distrib u)
  have lt: "?N div ?b mod ?D < ?D" using assms(2) by simp
  then have "?b * (?N div ?b mod ?D) + ?b \<le> ?b * ?D" by (metis Suc_leI mult_Suc_right mult_le_mono2 add.commute)
  then have bound: "?b * (?N div ?b mod ?D) + ?N mod ?b < ?b * ?D"
    by (meson add_less_cancel_left less_le_trans mod_less_divisor zero_less_numeral zero_less_power)
  also have "?b * ?D \<le> 2 ^ 64" using assms(1) by simp
  finally have small: "?b * (?N div ?b mod ?D) + ?N mod ?b < 2 ^ 64" .
  define arg where "arg = push_bit 32 1 * ucast (n1 mod d0) + (ucast n0 :: u64)"
  have "unat (push_bit 32 1 * (ucast (n1 mod d0) :: u64)) = ?b * (?N div ?b mod ?D)"
    using small by (subst unat_mult_le) (simp_all add: m b)
  then have arg: "unat arg = ?b * (?N div ?b mod ?D) + ?N mod ?b"
    unfolding arg_def using small by (subst unat_add_le) (simp_all add: u)
  obtain q where q: "divl arg d0 = Inr q" "unat q = unat arg div ?D"
    using divl_ok[of d0 arg] bound assms(2) by (auto simp: arg u)
  have sum: "unat q + ?b * (?N div ?b div ?D) = ?N div ?D" using schoolbook[OF assms(2), of ?b ?N] q(2) arg by simp
  have quot: "?N div ?D < 2 ^ LENGTH(64)"
    using unat_lt_size[of n] by (rule le_less_trans[OF div_le_dividend])
  have "unat (push_bit 32 1 * (ucast (n1 div d0) :: u64)) = ?b * (?N div ?b div ?D)"
    using quot sum by (subst unat_mult_le) (simp_all add: m b)
  then have "unat ((ucast q :: u64) + push_bit 32 1 * ucast (n1 div d0)) = ?N div ?D"
    using quot sum by (subst unat_add_le) simp_all
  moreover have "udiv64 n d = Inr ((ucast q :: u64) + push_bit 32 1 * ucast (n1 div d0))"
    using hi q(1) assms(2) u(3) unfolding arg_def n1_def n0_def d0_def
    by (auto simp: udiv64_def Let_def)
  ultimately show ?thesis by blast
qed

text \<open>The divisor has more than 32 bits.  The estimate \<open>q\<close> is the quotient or one more.\<close>

lemma estimate_divisor:
  fixes D :: nat
  assumes s: "s \<le> 31" and lo: "2 ^ 63 \<le> D * 2 ^ s"
  defines "v \<equiv> D * 2 ^ s div 2 ^ 32" and "m \<equiv> (D * 2 ^ s div 2 ^ 32) * 2 ^ (32 - s)"
  shows "m \<le> D" and "D < m + 2 ^ (32 - s)" and "2 ^ (63 - s) \<le> m" and "2 ^ 31 \<le> v"
proof -
  have p: "(2 :: nat) ^ 32 = 2 ^ (32 - s) * 2 ^ s" using s by (simp flip: power_add)
  have m_eq: "m = v * 2 ^ (32 - s)" by (simp add: m_def v_def)
  have "v * 2 ^ 32 \<le> D * 2 ^ s" by (simp add: v_def)
  then have "m * 2 ^ s \<le> D * 2 ^ s" unfolding p m_eq by (simp add: mult.assoc)
  then show "m \<le> D" by simp
  have "D * 2 ^ s < (v + 1) * 2 ^ 32" unfolding v_def by (simp add: dividend_less_div_times)
  then have "D * 2 ^ s < (m + 2 ^ (32 - s)) * 2 ^ s"
    unfolding p m_eq by (simp add: algebra_simps)
  then show "D < m + 2 ^ (32 - s)" by simp
  have "2 ^ 63 div 2 ^ 32 \<le> v" unfolding v_def by (rule div_le_mono[OF lo])
  then show v: "2 ^ 31 \<le> v" by simp
  have "63 - s = 31 + (32 - s)" using s by simp
  then have "(2 :: nat) ^ (63 - s) = 2 ^ 31 * 2 ^ (32 - s)" by (simp only: power_add)
  also have "\<dots> \<le> m" unfolding m_eq using v by simp
  finally show "2 ^ (63 - s) \<le> m" .
qed

lemma estimate_quotient:
  fixes N D m :: nat
  assumes s: "s \<le> 31" and N: "N < 2 ^ 64" and lo: "2 ^ 63 \<le> D * 2 ^ s"
    and m: "m \<le> D" "D < m + 2 ^ (32 - s)" "2 ^ (63 - s) \<le> m"
  shows "N div D \<le> N div m" and "N div m \<le> N div D + 1"
proof -
  have m0: "m > 0" using m(3) by (meson less_le_trans zero_less_numeral zero_less_power)
  show "N div D \<le> N div m" using div_le_mono2[OF m0 m(1)] .
  let ?Q = "N div D"
  have "?Q * 2 ^ 63 \<le> ?Q * (D * 2 ^ s)" by (rule mult_le_mono2[OF lo])
  also have "\<dots> = ?Q * D * 2 ^ s" by (simp only: mult.assoc)
  also have "\<dots> \<le> N * 2 ^ s" by (rule mult_le_mono1) (rule div_times_less_eq_dividend)
  also have "\<dots> < 2 ^ 64 * 2 ^ s" using N by simp
  also have "(2 :: nat) ^ 64 * 2 ^ s = 2 ^ (1 + s) * 2 ^ 63" by (simp flip: power_add)
  finally have Q: "?Q + 1 \<le> 2 ^ (1 + s)" by simp
  have "(?Q + 1) * (D - m) \<le> 2 ^ (1 + s) * (2 ^ (32 - s) - 1)"
    using Q m(2) by (intro mult_le_mono) auto
  also have "\<dots> = 2 ^ 33 - 2 ^ (1 + s)"
  proof -
    have "1 + s + (32 - s) = 33" using s by simp
    then have "(2 :: nat) ^ (1 + s) * 2 ^ (32 - s) = 2 ^ 33" by (simp only: flip: power_add)
    then show ?thesis by (simp only: diff_mult_distrib2 mult_1_right)
  qed
  also have "\<dots> \<le> 2 ^ (63 - s)"
  proof (cases "s = 31")
    case False
    then have "(2 :: nat) ^ 33 \<le> 2 ^ (63 - s)" using s by (intro power_increasing) auto
    then show ?thesis by linarith
  qed simp
  finally have "(?Q + 1) * (D - m) \<le> m" using m(3) by linarith
  then have "(?Q + 1) * D \<le> (?Q + 2) * m"
    using m(1) by (simp add: diff_mult_distrib2 algebra_simps)
  moreover have "N < (?Q + 1) * D"
    using dividend_less_div_times[of D N] m(1) m0 by (simp only: distrib_right mult_1_left) linarith
  ultimately have "N < (?Q + 2) * m" by linarith
  then show "N div m \<le> ?Q + 1" using m0 by (simp add: less_mult_imp_div_less flip: less_Suc_eq_le)
qed

lemma normalised_bounds:
  fixes D s :: nat
  assumes s: "s \<le> 31" and z: "2 ^ 31 \<le> D div 2 ^ 32 * 2 ^ s" "D div 2 ^ 32 * 2 ^ s < 2 ^ 32"
  shows "2 ^ 63 \<le> D * 2 ^ s" and "D * 2 ^ s < 2 ^ 64"
proof -
  let ?h = "D div 2 ^ 32"
  have "(2 :: nat) ^ 63 = 2 ^ 31 * 2 ^ 32" by simp
  also have "\<dots> \<le> ?h * 2 ^ s * 2 ^ 32" by (rule mult_le_mono1[OF z(1)])
  also have "\<dots> = ?h * 2 ^ 32 * 2 ^ s" by (simp only: ac_simps)
  also have "\<dots> \<le> D * 2 ^ s" by (rule mult_le_mono1) (rule div_times_less_eq_dividend)
  finally show "2 ^ 63 \<le> D * 2 ^ s" .
  have p: "(2 :: nat) ^ 32 = 2 ^ (32 - s) * 2 ^ s" using s by (simp flip: power_add)
  have "?h * 2 ^ s < 2 ^ (32 - s) * 2 ^ s" using z(2) unfolding p .
  then have h: "?h + 1 \<le> 2 ^ (32 - s)" by simp
  have "D < 2 ^ 32 + ?h * 2 ^ 32" by (rule dividend_less_div_times) simp
  also have "\<dots> = (?h + 1) * 2 ^ 32" by simp
  also have "\<dots> \<le> 2 ^ (32 - s) * 2 ^ 32" by (rule mult_le_mono1[OF h])
  finally have "D * 2 ^ s < 2 ^ (32 - s) * 2 ^ 32 * 2 ^ s" by simp
  also have "\<dots> = 2 ^ (32 - s) * 2 ^ s * 2 ^ 32" by (simp only: ac_simps)
  also have "\<dots> = 2 ^ 32 * 2 ^ 32" by (simp only: flip: p)
  finally show "D * 2 ^ s < 2 ^ 64" by simp
qed

text \<open>The last line of \<open>udiv64\<close> corrects the estimate.\<close>

lemma correct_estimate:
  fixes n d q :: u64
  assumes d: "unat d > 0" and q: "unat n div unat d \<le> unat q" "unat q \<le> unat n div unat d + 1"
    and Q: "unat n div unat d \<ge> 1"
  shows "unat (if n - (q - 1) * d < d then q - 1 else q) = unat n div unat d"
proof -
  let ?Q = "unat n div unat d"
  have "q \<noteq> 0" using q(1) Q by auto
  then have q1: "unat (q - 1) = unat q - 1" by (rule unat_minus_one)
  have "(unat q - 1) * unat d \<le> ?Q * unat d" using q(2) by (intro mult_le_mono1) simp
  also have "\<dots> \<le> unat n" by simp
  finally have le: "(unat q - 1) * unat d \<le> unat n" .
  then have "unat (q - 1) * unat d < 2 ^ LENGTH(64)"
    unfolding q1 using unat_lt_size[of n] by (rule le_less_trans)
  then have "unat ((q - 1) * d) = (unat q - 1) * unat d" by (simp only: unat_mult_le q1)
  then have r: "unat (n - (q - 1) * d) = unat n - (unat q - 1) * unat d"
    using le by (simp add: unat_sub word_le_nat_alt)
  consider "unat q = ?Q" | "unat q = ?Q + 1" using q by linarith
  then show ?thesis
  proof cases
    case 1
    obtain k where k: "?Q = Suc k" using Q by (metis One_nat_def Suc_le_D)
    have "Suc k * unat d \<le> unat n" by (metis div_times_less_eq_dividend k)
    then have "unat d \<le> unat n - k * unat d" by simp
    then show ?thesis using 1 k r by (simp add: word_less_nat_alt)
  next
    case 2
    have "unat n < unat d + ?Q * unat d" by (rule dividend_less_div_times[OF d])
    then have "unat n - ?Q * unat d < unat d" using d by linarith
    then show ?thesis using 2 r q1 by (simp add: word_less_nat_alt)
  qed
qed

lemma udiv64_large:
  assumes d: "2 ^ 32 \<le> unat d" and nd: "unat d \<le> unat n"
  shows "\<exists>q. udiv64 n d = Inr q \<and> unat q = unat n div unat d"
proof -
  let ?N = "unat n" and ?D = "unat d"
  define d1 where "d1 = (ucast (drop_bit 32 d) :: u32)"
  define s where "s = nlz d1"
  have d1: "unat d1 = ?D div 2 ^ 32" unfolding d1_def by (rule unat_hi)
  then have "unat d1 > 0" using d by (simp add: div_greater_zero_iff)
  then have "d1 \<noteq> 0" by (simp add: unat_gt_0)
  note z = nlz_correct[OF this, folded s_def]
  note b = normalised_bounds[OF z(3) z(1,2)[unfolded d1]]
  have N: "?N < 2 ^ 64" using unat_lt_size[of n] by simp
  define v where "v = (ucast (drop_bit 32 (push_bit s d)) :: u32)"
  have "unat (push_bit s d) = ?D * 2 ^ s" using b(2) by (intro unat_push_bit) simp
  then have v: "unat v = ?D * 2 ^ s div 2 ^ 32" unfolding v_def unat_hi by simp
  define m where "m = unat v * 2 ^ (32 - s)"
  note e = estimate_divisor[OF z(3) b(1), folded v, folded m_def]
  note eq = estimate_quotient[OF z(3) N b(1) e(1-3)]
  have half: "unat (drop_bit 1 n) = ?N div 2" unfolding unat_shr by simp
  have "?N div 2 < 2 ^ 63" using N by (simp add: div_less_iff_less_mult)
  also have "(2 :: nat) ^ 63 = 2 ^ 32 * 2 ^ 31" by simp
  also have "\<dots> \<le> 2 ^ 32 * unat v" by (rule mult_le_mono2[OF e(4)])
  finally have nt: "unat (drop_bit 1 n) < 2 ^ 32 * unat v" unfolding half .
  have v0: "unat v > 0" using e(4) by (meson less_le_trans zero_less_numeral zero_less_power)
  obtain q32 where q32: "divl (drop_bit 1 n) v = Inr q32" "unat q32 = ?N div 2 div unat v"
    using divl_ok[OF v0 nt] half by auto
  define q where "q = (ucast (drop_bit (31 - s) q32) :: u64)"
  have "32 - s = Suc (31 - s)" using z(3) by simp
  then have m2: "m = 2 * (unat v * 2 ^ (31 - s))" by (simp add: m_def)
  have "unat q = ?N div 2 div unat v div 2 ^ (31 - s)" unfolding q_def unat_zext unat_shr q32(2) ..
  also have "\<dots> = ?N div m" unfolding m2 by (simp only: div_mult2_eq)
  finally have q: "unat q = ?N div m" .
  have "unat (if n - (q - 1) * d < d then q - 1 else q) = ?N div ?D"
  proof (rule correct_estimate)
    show "unat d > 0" using d by simp
    show "1 \<le> ?N div ?D" using nd d by (simp add: Suc_le_eq div_greater_zero_iff)
  qed (use eq q in simp_all)
  moreover have "udiv64 n d = Inr (if n - (q - 1) * d < d then q - 1 else q)"
  proof -
    have "unat (drop_bit 32 d) \<noteq> 0" unfolding unat_shr using d by (simp add: div_eq_0_iff)
    then have "drop_bit 32 d \<noteq> 0" by (simp only: unat_0_iff not_False_eq_True)
    moreover have "\<not> n < d" using nd by (simp add: word_less_nat_alt)
    ultimately show ?thesis
      using q32(1) by (simp only: udiv64_def Let_def if_False flip: d1_def s_def v_def) (simp add: q_def)
  qed
  ultimately show ?thesis by blast
qed

lemma udiv64_eq: "udiv64 n d = (if d = 0 then Inl Divide_error else Inr (n div d))"
proof (cases "d = 0")
  case True
  then show ?thesis by (simp add: udiv64_def)
next
  case False
  then have d0: "unat d > 0" by (simp add: unat_gt_0)
  have "\<exists>q. udiv64 n d = Inr q \<and> unat q = unat n div unat d"
  proof (cases "unat d < 2 ^ 32")
    case True
    then show ?thesis using d0 by (rule udiv64_small)
  next
    case big: False
    show ?thesis
    proof (cases "n < d")
      case True
      have "unat (drop_bit 32 d) \<noteq> 0" unfolding unat_shr using big by (simp add: div_eq_0_iff)
      then have "drop_bit 32 d \<noteq> 0" by (simp only: unat_0_iff not_False_eq_True)
      then show ?thesis using True by (simp add: udiv64_def word_less_nat_alt)
    next
      case False
      then show ?thesis using big by (intro udiv64_large) (simp_all add: word_less_nat_alt)
    qed
  qed
  then show ?thesis using False by (auto simp: word_unat_eq_iff unat_div_distrib)
qed

lemma umoddi3_eq: "umoddi3 n d = (if d = 0 then Inl Divide_error else Inr (take_bit 32 (n mod d)))"
proof -
  have "n - d * (n div d) = n mod d" by (rule minus_mult_div_eq_mod)
  moreover have "ucast (ucast x :: u32) = take_bit 32 x" for x :: u64
    by (rule bit_word_eqI) (auto simp: bit_simps)
  ultimately show ?thesis by (simp add: umoddi3_def umod64_def udiv64_eq)
qed

section \<open>Signed division\<close>

lemma uint_lt64: "uint w < 2 ^ 64" for w :: u64
  using uint_bounded[of w] by simp

lemma sint_as_uint: "sint w = uint w - 2 ^ 64 * of_bool (bit w 63)" for w :: u64
proof -
  have "take_bit 64 (uint w) = uint w" using uint_lt64[of w] by (intro take_bit_int_eq_self) simp_all
  then show ?thesis by (simp add: sint_uint signed_take_bit_eq_take_bit_minus bit_uint_iff)
qed

lemma uint_abs: "uint (if 0 \<le>s w then w else - w) = \<bar>sint w\<bar>" for w :: u64
proof (cases "0 \<le>s w")
  case True
  then have "0 \<le> sint w" by (simp add: word_sle_eq)
  then have "\<not> bit w 63" using sint_as_uint[of w] uint_lt64[of w] by (auto split: if_splits)
  then show ?thesis using True sint_as_uint[of w] by simp
next
  case False
  then have neg: "sint w < 0" by (simp add: word_sle_eq)
  then have b: "bit w 63" using sint_as_uint[of w] by (auto intro: ccontr)
  have "uint (- w) = (- uint w) mod 2 ^ 64" by (simp add: uint_word_ariths)
  also have "\<dots> = (2 ^ 64 - uint w) mod 2 ^ 64" by (simp add: mod_diff_eq)
  also have "\<dots> = 2 ^ 64 - uint w"
  proof -
    have "w \<noteq> 0" using b by auto
    then have "uint w > 0" by (simp add: word_greater_zero_iff word_gt_0_no uint_0_iff order_less_le)
    then show ?thesis using uint_lt64[of w] by (intro mod_pos_pos_trivial) auto
  qed
  finally show ?thesis using False neg b sint_as_uint[of w] by simp
qed

lemma sint_word_of_int:
  assumes "- (2 ^ 63) \<le> k" "k < 2 ^ 63"
  shows "sint (word_of_int k :: u64) = k"
proof -
  have "sint (word_of_int k :: u64) = signed_take_bit 63 k" by (simp add: signed_of_int)
  then show ?thesis using assms by (simp add: signed_take_bit_int_eq_self)
qed

lemma sint_range: "- (2 ^ 63) \<le> sint w" "sint w < 2 ^ 63" for w :: u64
  using sint_greater_eq[of w] sint_less[of w] by simp_all

text \<open>The quotient of magnitudes that fit in a signed 64-bit integer.\<close>

lemma abs_quotient_bound:
  fixes a b :: int
  assumes "- (2 ^ 63) \<le> a" "a < 2 ^ 63" "b \<noteq> 0" "\<not> (a = - (2 ^ 63) \<and> b = -1)"
  shows "- (2 ^ 63) \<le> a sdiv b" and "a sdiv b < 2 ^ 63"
proof -
  let ?m = "\<bar>a\<bar> div \<bar>b\<bar>"
  have m: "0 \<le> ?m" "?m \<le> \<bar>a\<bar>"
    using assms(3) zdiv_mono2[of "\<bar>a\<bar>" 1 "\<bar>b\<bar>"] by (simp_all add: pos_imp_zdiv_nonneg_iff)
  have s: "a sdiv b = ?m \<or> a sdiv b = - ?m \<or> a sdiv b = 0"
    by (auto simp: signed_divide_int_def sgn_if)
  show "- (2 ^ 63) \<le> a sdiv b" using s m assms(1,2) by linarith
  show "a sdiv b < 2 ^ 63"
  proof (cases "a = - (2 ^ 63)")
    case False
    then show ?thesis using s m assms(1,2) by linarith
  next
    case True
    show ?thesis
    proof (cases "b = 1")
      case False
      then have "\<bar>b\<bar> \<ge> 2" using True assms(3,4) by linarith
      then have "?m \<le> \<bar>a\<bar> div 2" by (intro zdiv_mono2) auto
      then show ?thesis using s m True by auto
    qed (use True in simp)
  qed
qed

lemma sdiv64_eq:
  assumes "d \<noteq> 0" "\<not> (sint n = - (2 ^ 63) \<and> sint d = -1)"
  shows "\<exists>q. sdiv64 n d = Inr q \<and> sint q = sint n sdiv sint d"
proof -
  let ?n = "if 0 \<le>s n then n else - n" and ?d = "if 0 \<le>s d then d else - d"
  let ?q = "\<bar>sint n\<bar> div \<bar>sint d\<bar>"
  have "?d \<noteq> 0" using assms(1) by simp
  then have u: "udiv64 ?n ?d = Inr (?n div ?d)" by (simp add: udiv64_eq)
  have "uint (?n div ?d) = ?q" by (simp only: uint_div_distrib uint_abs)
  then have w: "?n div ?d = word_of_int ?q" by (metis word_of_int_uint)
  have sd: "sint d \<noteq> 0" using assms(1) by (simp add: signed_eq_0_iff)
  have "(if (n <s 0) = (d <s 0) then ?n div ?d else - (?n div ?d)) = word_of_int (sint n sdiv sint d)"
  proof (cases "sint n = 0")
    case True
    then show ?thesis by (simp add: w signed_divide_int_def)
  next
    case False
    then show ?thesis
      using sd by (auto simp: w signed_divide_int_def word_sless_alt sgn_if)
  qed
  moreover have "sint (word_of_int (sint n sdiv sint d) :: u64) = sint n sdiv sint d"
    using abs_quotient_bound[OF sint_range sd assms(2)] by (rule sint_word_of_int)
  ultimately show ?thesis using u by (simp add: sdiv64_def Let_def)
qed

section \<open>Properties\<close>

text \<open>C26.  \<open>udiv64\<close>, the routine behind every 64-bit unsigned division of the kernel, returns the
  exact quotient for every dividend and every non-zero divisor; its \<open>divl\<close> never traps.  A zero
  divisor is a divide error.\<close>

theorem udiv64_correct: "udiv64 n d = (if d = 0 then Inl Divide_error else Inr (n div d))"
  by (rule udiv64_eq)

text \<open>\<open>__divdi3\<close> is signed division that truncates toward zero, for every pair whose
  quotient is representable.\<close>

theorem divdi3_correct:
  assumes "d \<noteq> 0" and "\<not> (sint n = - (2 ^ 63) \<and> sint d = -1)"
  shows "\<exists>q. divdi3 n d = Inr q \<and> sint q = sint n sdiv sint d"
  using sdiv64_eq[OF assms] by (simp add: divdi3_def)

theorem divdi3_correct_witness:
  "\<exists>q. divdi3 (- 7) 2 = Inr q \<and> sint q = sint (- 7 :: u64) sdiv sint (2 :: u64)"
  by (rule divdi3_correct) simp_all

text \<open>C27.  \<open>__umoddi3\<close> returns the low 32 bits of the remainder, because \<open>umod64\<close> returns a
  \<open>uint32_t\<close>; so it is the remainder exactly when the remainder is below \<open>2 ^ 32\<close>, and is
  wrong for example for \<open>2 ^ 32\<close> modulo \<open>2 ^ 33\<close>.\<close>

theorem umoddi3_truncates:
  "(if d = 0 then umoddi3 n d = Inl Divide_error
    else umoddi3 n d = Inr (take_bit 32 (n mod d)) \<and> (umoddi3 n d = Inr (n mod d)) = (n mod d < 2 ^ 32))
   \<and> umoddi3 (2 ^ 32) (2 ^ 33) = Inr 0 \<and> (2 ^ 32 :: u64) mod 2 ^ 33 = 2 ^ 32"
proof -
  have "take_bit 32 x = x \<longleftrightarrow> x < 2 ^ 32" for x :: u64
  proof -
    have "take_bit 32 x = x \<longleftrightarrow> unat x mod 2 ^ 32 = unat x"
      by (simp add: word_unat_eq_iff take_bit_eq_mod unat_mod_distrib)
    also have "\<dots> \<longleftrightarrow> unat x < 2 ^ 32" by (metis mod_less mod_less_divisor zero_less_numeral zero_less_power)
    finally show ?thesis by (simp add: word_less_nat_alt)
  qed
  then show ?thesis by (simp add: umoddi3_eq)
qed

end
