(* ===== verification/Prng.thy ===== *)
theory Prng
  imports Prelude
begin

text \<open>
  The pseudo-random number generator, \<open>src/lib/random.c\<close>: RC4 on a table of 256 bytes.

  The static variables are a record.  The table is a list; every index is a byte, so it is
  inside the table whenever the table has its 256 entries, which the invariant \<open>rng_wf\<close>
  says, together with that the entries are a permutation of the byte values.
\<close>

record rng =
  tab :: "u8 list"
  s_i :: u8
  s_j :: u8
  inited :: bool

definition swap_byte :: "u8 list \<Rightarrow> nat \<Rightarrow> nat \<Rightarrow> u8 list" where
  "swap_byte t a b = t[a := t ! b, b := t ! a]"

text \<open>\<open>random_init\<close>: the first loop fills the table, the second mixes it with the bytes of the seed.\<close>

fun init_fill :: "nat \<Rightarrow> u8 list \<Rightarrow> u8 list" where
  "init_fill 0 t = t"
| "init_fill (Suc n) t = init_fill n (t[256 - Suc n := word_of_nat (256 - Suc n)])"

fun init_mix :: "nat \<Rightarrow> u8 list \<Rightarrow> u8 \<Rightarrow> u8 list \<Rightarrow> u8 list" where
  "init_mix 0 seedp j t = t"
| "init_mix (Suc n) seedp j t =
     (let i = 256 - Suc n;
          j = j + (t ! i + seedp ! (i mod 4))
      in init_mix n seedp j (swap_byte t i (unat j)))"

definition random_init :: "u32 \<Rightarrow> rng \<Rightarrow> rng" where
  "random_init seed r =
     r\<lparr>tab := init_mix 256 (le32 seed) 0 (init_fill 256 (tab r)), s_i := 0, s_j := 0, inited := True\<rparr>"

text \<open>One iteration of the loop of \<open>random_bytes\<close>.\<close>

definition random_byte :: "rng \<Rightarrow> u8 \<times> rng" where
  "random_byte r =
     (let i = s_i r + 1;
          j = s_j r + tab r ! unat i;
          t = swap_byte (tab r) (unat i) (unat j);
          k = t ! unat i + t ! unat j
      in (t ! unat k, r\<lparr>tab := t, s_i := i, s_j := j\<rparr>))"

fun random_bytes_loop :: "nat \<Rightarrow> rng \<Rightarrow> u8 list \<times> rng" where
  "random_bytes_loop 0 r = ([], r)"
| "random_bytes_loop (Suc n) r =
     (let (b, r) = random_byte r; (bs, r) = random_bytes_loop n r in (b # bs, r))"

definition random_bytes :: "nat \<Rightarrow> rng \<Rightarrow> u8 list \<times> rng" where
  "random_bytes sz r = random_bytes_loop sz (if inited r then r else random_init 0 r)"

definition random_ulong :: "rng \<Rightarrow> u32 \<times> rng" where
  "random_ulong r =
     (let (bs, r) = random_bytes 4 r in (word_of_le (bs ! 0) (bs ! 1) (bs ! 2) (bs ! 3), r))"

section \<open>The table stays a permutation\<close>

definition all_bytes :: "u8 list" where
  "all_bytes = map word_of_nat [0..<256]"

definition rng_wf :: "rng \<Rightarrow> bool" where
  "rng_wf r \<longleftrightarrow> length (tab r) = 256 \<and> (inited r \<longrightarrow> mset (tab r) = mset all_bytes)"

lemma unat_byte [simp]: "unat (b :: u8) < 256"
  using unat_lt_size[of b] by simp

lemma length_swap_byte [simp]: "length (swap_byte t a b) = length t"
  by (simp add: swap_byte_def)

lemma mset_swap_byte: "a < length t \<Longrightarrow> b < length t \<Longrightarrow> mset (swap_byte t a b) = mset t"
  unfolding swap_byte_def by (rule mset_swap)

lemma init_fill_ok: "length t = 256 \<Longrightarrow> n \<le> 256 \<Longrightarrow> take (256 - n) t = take (256 - n) all_bytes \<Longrightarrow>
  init_fill n t = all_bytes"
proof (induction n arbitrary: t)
  case 0
  then show ?case by (simp add: all_bytes_def)
next
  case (Suc n)
  let ?i = "256 - Suc n"
  have i: "256 - n = Suc ?i" "?i < length t" using Suc.prems by auto
  have "take (256 - n) (t[?i := word_of_nat ?i]) = take (256 - n) all_bytes"
    using Suc.prems(3) i by (simp add: take_Suc_conv_app_nth all_bytes_def)
  then have "init_fill n (t[?i := word_of_nat ?i]) = all_bytes" using Suc.prems by (intro Suc.IH) auto
  then show ?case by simp
qed

lemma init_mix_ok: "length t = 256 \<Longrightarrow> n \<le> 256 \<Longrightarrow>
  length (init_mix n seedp j t) = 256 \<and> mset (init_mix n seedp j t) = mset t"
  by (induction n arbitrary: j t) (simp_all add: Let_def mset_swap_byte)

lemma random_init_wf: "length (tab r) = 256 \<Longrightarrow> rng_wf (random_init seed r) \<and> inited (random_init seed r)"
  using init_fill_ok[of "tab r" 256] init_mix_ok[of all_bytes 256 "le32 seed" 0]
  by (simp add: random_init_def rng_wf_def all_bytes_def)

lemma random_byte_wf: "rng_wf r \<Longrightarrow> inited r \<Longrightarrow> rng_wf (snd (random_byte r)) \<and> inited (snd (random_byte r))"
  by (simp add: random_byte_def Let_def rng_wf_def mset_swap_byte)

lemma random_bytes_loop_wf: "rng_wf r \<Longrightarrow> inited r \<Longrightarrow> random_bytes_loop n r = (bs, r') \<Longrightarrow>
  rng_wf r' \<and> inited r' \<and> length bs = n"
proof (induction n arbitrary: r bs)
  case (Suc n)
  then show ?case
    using random_byte_wf[of r] by (force simp: Let_def split: prod.splits)
qed simp

lemma random_bytes_loop_add:
  "random_bytes_loop (m + n) r =
     (let (as, r1) = random_bytes_loop m r; (bs, r2) = random_bytes_loop n r1 in (as @ bs, r2))"
  by (induction m arbitrary: r) (simp_all add: Let_def split: prod.splits)

section \<open>Properties\<close>

text \<open>From any state whose table has its 256 entries, \<open>random_bytes\<close> gives \<open>size\<close> bytes and
  leaves the generator initialised with a table that is a permutation of all byte values, and a
  request for \<open>m + n\<close> bytes gives the bytes of a request for \<open>m\<close> and then one for \<open>n\<close>.\<close>

theorem random_bytes_correct:
  assumes "rng_wf r" "random_bytes m r = (as, r1)" "random_bytes n r1 = (bs, r2)"
  shows "random_bytes (m + n) r = (as @ bs, r2) \<and> length as = m \<and> inited r1 \<and> rng_wf r1 \<and>
         mset (tab r1) = mset all_bytes"
proof -
  let ?r = "if inited r then r else random_init 0 r"
  have "rng_wf ?r" "inited ?r" using assms(1) random_init_wf[of r 0] by (auto simp: rng_wf_def)
  moreover have "random_bytes_loop m ?r = (as, r1)" using assms(2) by (simp add: random_bytes_def)
  ultimately have 1: "rng_wf r1" "inited r1" "length as = m" using random_bytes_loop_wf by blast+
  then have "random_bytes_loop n r1 = (bs, r2)" using assms(3) by (simp add: random_bytes_def)
  then have "random_bytes (m + n) r = (as @ bs, r2)"
    using \<open>random_bytes_loop m ?r = (as, r1)\<close> by (simp add: random_bytes_def random_bytes_loop_add)
  then show ?thesis using 1 by (simp add: rng_wf_def)
qed

definition wrng :: rng where
  "wrng = \<lparr>tab = replicate 256 0, s_i = 0, s_j = 0, inited = False\<rparr>"

theorem random_bytes_correct_witness:
  "\<exists>as r1. random_bytes 3 wrng = (as, r1) \<and> length as = 3 \<and> mset (tab r1) = mset all_bytes"
proof -
  obtain as r1 bs r2 where "random_bytes 3 wrng = (as, r1)" "random_bytes 2 r1 = (bs, r2)"
    by (metis surj_pair)
  then show ?thesis using random_bytes_correct[of wrng 3 as r1 2 bs r2] by (simp add: rng_wf_def wrng_def)
qed

end
