(* ===== verification/Bitmap.thy ===== *)
theory Bitmap
  imports Prelude
begin

text \<open>
  Bitmaps, \<open>src/lib/kernel/bitmap.c\<close>.

  A \<open>struct bitmap\<close> is its bit count and its array of 32-bit elements; \<open>size_t\<close> is a
  32-bit word, so index sums wrap.  The storage that \<open>malloc\<close> returns is an argument of
  \<open>bitmap_create\<close>: \<open>None\<close> for a failed allocation, otherwise the arbitrary contents of
  the block.  \<open>bitmap_read\<close> and \<open>bitmap_write\<close> are over the bytes that the file layer
  transfers.

  \<open>abits b\<close> is the bitmap as a list of booleans.  The lemmas relate every operation to
  that list; the locale \<open>region_allocator\<close> states what the page allocator and the free map
  rely on.
\<close>

unbundle bit_operations_syntax

section \<open>The operations of bitmap.c\<close>

record bitmap =
  bit_cnt :: u32
  bits :: "u32 list"

abbreviation ELEM_BITS :: u32 where
  "ELEM_BITS \<equiv> 32"

definition BITMAP_ERROR :: u32 where
  "BITMAP_ERROR = -1"

definition elem_idx :: "u32 \<Rightarrow> u32" where
  "elem_idx bit_idx = bit_idx div ELEM_BITS"

definition bit_mask :: "u32 \<Rightarrow> u32" where
  "bit_mask bit_idx = push_bit (unat (bit_idx mod ELEM_BITS)) 1"

definition elem_cnt :: "u32 \<Rightarrow> u32" where
  "elem_cnt cnt = (cnt + ELEM_BITS - 1) div ELEM_BITS"

definition byte_cnt :: "u32 \<Rightarrow> u32" where
  "byte_cnt cnt = 4 * elem_cnt cnt"

definition last_mask :: "bitmap \<Rightarrow> u32" where
  "last_mask b =
     (let last_bits = bit_cnt b mod ELEM_BITS
      in if last_bits \<noteq> 0 then push_bit (unat last_bits) 1 - 1 else -1)"

definition bitmap_size :: "bitmap \<Rightarrow> u32" where
  "bitmap_size b = bit_cnt b"

text \<open>The element that holds a bit, updated by \<open>f\<close>.\<close>

definition upd_elem :: "(u32 \<Rightarrow> u32) \<Rightarrow> bitmap \<Rightarrow> u32 \<Rightarrow> bitmap res" where
  "upd_elem f b idx =
     (if unat idx < length (bits b)
      then Inr (b\<lparr>bits := (bits b)[unat idx := f (bits b ! unat idx)]\<rparr>)
      else Inl Bad_access)"

definition bitmap_mark :: "bitmap \<Rightarrow> u32 \<Rightarrow> bitmap res" where
  "bitmap_mark b bit_idx = upd_elem (\<lambda>w. w OR bit_mask bit_idx) b (elem_idx bit_idx)"

definition bitmap_reset :: "bitmap \<Rightarrow> u32 \<Rightarrow> bitmap res" where
  "bitmap_reset b bit_idx = upd_elem (\<lambda>w. w AND NOT (bit_mask bit_idx)) b (elem_idx bit_idx)"

definition bitmap_flip :: "bitmap \<Rightarrow> u32 \<Rightarrow> bitmap res" where
  "bitmap_flip b bit_idx = upd_elem (\<lambda>w. w XOR bit_mask bit_idx) b (elem_idx bit_idx)"

definition bitmap_set :: "bitmap \<Rightarrow> u32 \<Rightarrow> bool \<Rightarrow> bitmap res" where
  "bitmap_set b idx v =
     ebind (kassert (idx < bit_cnt b)) (\<lambda>_. if v then bitmap_mark b idx else bitmap_reset b idx)"

definition bitmap_test :: "bitmap \<Rightarrow> u32 \<Rightarrow> bool res" where
  "bitmap_test b idx =
     ebind (kassert (idx < bit_cnt b)) (\<lambda>_.
     if unat (elem_idx idx) < length (bits b)
     then Inr ((bits b ! unat (elem_idx idx)) AND bit_mask idx \<noteq> 0)
     else Inl Bad_access)"

function bitmap_set_multiple_loop :: "u32 \<Rightarrow> u32 \<Rightarrow> bool \<Rightarrow> u32 \<Rightarrow> bitmap \<Rightarrow> bitmap res" where
  "bitmap_set_multiple_loop start cnt v i b =
     (if i < cnt then ebind (bitmap_set b (start + i) v) (\<lambda>b. bitmap_set_multiple_loop start cnt v (i + 1) b)
      else Inr b)"
  by pat_completeness auto
termination
  by (relation "measure (\<lambda>(start, cnt, v, i, b). unat cnt - unat i)")
    (auto simp: unat_plus_one word_less_nat_alt)

definition bitmap_set_multiple :: "bitmap \<Rightarrow> u32 \<Rightarrow> u32 \<Rightarrow> bool \<Rightarrow> bitmap res" where
  "bitmap_set_multiple b start cnt v =
     ebind (kassert (start \<le> bit_cnt b)) (\<lambda>_. ebind (kassert (start + cnt \<le> bit_cnt b)) (\<lambda>_.
     bitmap_set_multiple_loop start cnt v 0 b))"

definition bitmap_set_all :: "bitmap \<Rightarrow> bool \<Rightarrow> bitmap res" where
  "bitmap_set_all b v = bitmap_set_multiple b 0 (bitmap_size b) v"

function bitmap_count_loop :: "bitmap \<Rightarrow> u32 \<Rightarrow> u32 \<Rightarrow> bool \<Rightarrow> u32 \<Rightarrow> u32 \<Rightarrow> u32 res" where
  "bitmap_count_loop b start cnt v i value_cnt =
     (if i < cnt
      then ebind (bitmap_test b (start + i)) (\<lambda>t.
           bitmap_count_loop b start cnt v (i + 1) (if t = v then value_cnt + 1 else value_cnt))
      else Inr value_cnt)"
  by pat_completeness auto
termination
  by (relation "measure (\<lambda>(b, start, cnt, v, i, value_cnt). unat cnt - unat i)")
    (auto simp: unat_plus_one word_less_nat_alt)

definition bitmap_count :: "bitmap \<Rightarrow> u32 \<Rightarrow> u32 \<Rightarrow> bool \<Rightarrow> u32 res" where
  "bitmap_count b start cnt v =
     ebind (kassert (start \<le> bit_cnt b)) (\<lambda>_. ebind (kassert (start + cnt \<le> bit_cnt b)) (\<lambda>_.
     bitmap_count_loop b start cnt v 0 0))"

function bitmap_contains_loop :: "bitmap \<Rightarrow> u32 \<Rightarrow> u32 \<Rightarrow> bool \<Rightarrow> u32 \<Rightarrow> bool res" where
  "bitmap_contains_loop b start cnt v i =
     (if i < cnt
      then ebind (bitmap_test b (start + i)) (\<lambda>t.
           if t = v then Inr True else bitmap_contains_loop b start cnt v (i + 1))
      else Inr False)"
  by pat_completeness auto
termination
  by (relation "measure (\<lambda>(b, start, cnt, v, i). unat cnt - unat i)")
    (auto simp: unat_plus_one word_less_nat_alt)

definition bitmap_contains :: "bitmap \<Rightarrow> u32 \<Rightarrow> u32 \<Rightarrow> bool \<Rightarrow> bool res" where
  "bitmap_contains b start cnt v =
     ebind (kassert (start \<le> bit_cnt b)) (\<lambda>_. ebind (kassert (start + cnt \<le> bit_cnt b)) (\<lambda>_.
     bitmap_contains_loop b start cnt v 0))"

definition bitmap_any :: "bitmap \<Rightarrow> u32 \<Rightarrow> u32 \<Rightarrow> bool res" where
  "bitmap_any b start cnt = bitmap_contains b start cnt True"

definition bitmap_none :: "bitmap \<Rightarrow> u32 \<Rightarrow> u32 \<Rightarrow> bool res" where
  "bitmap_none b start cnt = ebind (bitmap_contains b start cnt True) (\<lambda>c. Inr (\<not> c))"

definition bitmap_all :: "bitmap \<Rightarrow> u32 \<Rightarrow> u32 \<Rightarrow> bool res" where
  "bitmap_all b start cnt = ebind (bitmap_contains b start cnt False) (\<lambda>c. Inr (\<not> c))"

text \<open>The index \<open>i\<close> of the scan is a natural number: it stays below \<open>2 ^ 32\<close>, because with
  \<open>lst\<close> the greatest word \<open>cnt\<close> is 0 and the first iteration returns.\<close>

function bitmap_scan_loop :: "bitmap \<Rightarrow> u32 \<Rightarrow> u32 \<Rightarrow> bool \<Rightarrow> nat \<Rightarrow> u32 res" where
  "bitmap_scan_loop b lst cnt v i =
     (if i \<le> unat lst
      then ebind (bitmap_contains b (of_nat i) cnt (\<not> v)) (\<lambda>c.
           if \<not> c then Inr (of_nat i) else bitmap_scan_loop b lst cnt v (Suc i))
      else Inr BITMAP_ERROR)"
  by pat_completeness auto
termination
  by (relation "measure (\<lambda>(b, lst, cnt, v, i). Suc (unat lst) - i)") auto

definition bitmap_scan :: "bitmap \<Rightarrow> u32 \<Rightarrow> u32 \<Rightarrow> bool \<Rightarrow> u32 res" where
  "bitmap_scan b start cnt v =
     ebind (kassert (start \<le> bit_cnt b)) (\<lambda>_.
     if cnt \<le> bit_cnt b then bitmap_scan_loop b (bit_cnt b - cnt) cnt v (unat start)
     else Inr BITMAP_ERROR)"

definition bitmap_scan_and_flip :: "bitmap \<Rightarrow> u32 \<Rightarrow> u32 \<Rightarrow> bool \<Rightarrow> (u32 \<times> bitmap) res" where
  "bitmap_scan_and_flip b start cnt v =
     ebind (bitmap_scan b start cnt v) (\<lambda>idx.
     if idx \<noteq> BITMAP_ERROR
     then ebind (bitmap_set_multiple b idx cnt (\<not> v)) (\<lambda>b. Inr (idx, b))
     else Inr (idx, b))"

text \<open>\<open>bitmap_create\<close> with the results of its two calls of \<open>malloc\<close>: whether the first
  succeeds, and the block that the second returns.  The result \<open>Inr None\<close> is \<open>NULL\<close>.\<close>

definition bitmap_create :: "u32 \<Rightarrow> bool \<Rightarrow> u32 list option \<Rightarrow> bitmap option res" where
  "bitmap_create cnt hdr_ok blk =
     (if hdr_ok then
        if blk \<noteq> None \<or> cnt = 0
        then ebind (bitmap_set_all \<lparr>bit_cnt = cnt, bits = (case blk of None \<Rightarrow> [] | Some ws \<Rightarrow> ws)\<rparr> False)
               (\<lambda>b. Inr (Some b))
        else Inr None
      else Inr None)"

definition bitmap_buf_size :: "u32 \<Rightarrow> u32" where
  "bitmap_buf_size cnt = 8 + byte_cnt cnt"

definition bitmap_create_in_buf :: "u32 \<Rightarrow> u32 list \<Rightarrow> u32 \<Rightarrow> bitmap res" where
  "bitmap_create_in_buf cnt blk block_size =
     ebind (kassert (block_size \<ge> bitmap_buf_size cnt)) (\<lambda>_.
     bitmap_set_all \<lparr>bit_cnt = cnt, bits = drop 2 blk\<rparr> False)"

text \<open>The bitmap in a file.  \<open>file_read_at f size ofs\<close> is the bytes that a read transfers, and
  \<open>file_write_at f data size ofs\<close> the number of bytes written and the file after it.\<close>

definition bitmap_file_size :: "bitmap \<Rightarrow> u32" where
  "bitmap_file_size b = byte_cnt (bit_cnt b)"

definition bitmap_read :: "('f \<Rightarrow> u32 \<Rightarrow> u32 \<Rightarrow> u8 list) \<Rightarrow> bitmap \<Rightarrow> 'f \<Rightarrow> (bool \<times> bitmap) res" where
  "bitmap_read file_read_at b f =
     (if bit_cnt b > 0 then
        let size = byte_cnt (bit_cnt b);
            got = file_read_at f size 0;
            b' = b\<lparr>bits := words_of_bytes (got @ drop (length got) (bytes_of_words (bits b)))\<rparr>
        in ebind (upd_elem (\<lambda>w. w AND last_mask b') b' (elem_cnt (bit_cnt b) - 1))
             (\<lambda>b'. Inr (length got = unat size, b'))
      else Inr (True, b))"

definition bitmap_write ::
  "('f \<Rightarrow> u8 list \<Rightarrow> u32 \<Rightarrow> u32 \<Rightarrow> u32 \<times> 'f) \<Rightarrow> bitmap \<Rightarrow> 'f \<Rightarrow> bool \<times> 'f" where
  "bitmap_write file_write_at b f =
     (let size = byte_cnt (bit_cnt b);
          (n, f') = file_write_at f (take (unat size) (bytes_of_words (bits b))) size 0
      in (n = size, f'))"

section \<open>The bitmap as a list of booleans\<close>

definition bitmap_wf :: "bitmap \<Rightarrow> bool" where
  "bitmap_wf b \<longleftrightarrow> unat (bit_cnt b) \<le> 32 * length (bits b) \<and> bit_cnt b \<noteq> BITMAP_ERROR"

definition abits :: "bitmap \<Rightarrow> bool list" where
  "abits b = map (\<lambda>i. bit (bits b ! (i div 32)) (i mod 32)) [0..<unat (bit_cnt b)]"

lemma length_abits [simp]: "length (abits b) = unat (bit_cnt b)"
  by (simp add: abits_def)

lemma unat_elem_idx [simp]: "unat (elem_idx i) = unat i div 32"
  by (simp add: elem_idx_def unat_div_distrib)

lemma bit_mask_eq: "bit_mask i = push_bit (unat i mod 32) 1"
  by (simp add: bit_mask_def unat_mod_distrib)

lemma elem_in_range:
  assumes "bitmap_wf b" "i < bit_cnt b"
  shows "unat i div 32 < length (bits b)"
  using assms by (auto simp: bitmap_wf_def word_less_nat_alt)

text \<open>What an update of one element does to the list.\<close>

lemma upd_elem_abits:
  assumes wf: "bitmap_wf b" and i: "i < bit_cnt b"
    and f: "\<And>w m. m < 32 \<Longrightarrow> bit (f w) m \<longleftrightarrow> (if m = unat i mod 32 then g (bit w m) else bit w m)"
  shows "\<exists>b'. upd_elem f b (elem_idx i) = Inr b' \<and> bitmap_wf b' \<and> bit_cnt b' = bit_cnt b
     \<and> abits b' = (abits b)[unat i := g (abits b ! unat i)]"
proof -
  let ?n = "unat i div 32"
  let ?b = "b\<lparr>bits := (bits b)[?n := f (bits b ! ?n)]\<rparr>"
  have n: "?n < length (bits b)" by (rule elem_in_range[OF wf i])
  have il: "unat i < unat (bit_cnt b)" using i by (simp add: word_less_nat_alt)
  have "abits ?b ! j = (abits b)[unat i := g (abits b ! unat i)] ! j" if "j < unat (bit_cnt b)" for j
  proof (cases "j div 32 = ?n")
    case True
    then have eq: "j mod 32 = unat i mod 32 \<longleftrightarrow> j = unat i" by (metis div_mult_mod_eq)
    have new: "abits ?b ! j = bit (f (bits b ! ?n)) (j mod 32)"
      using that n True by (simp add: abits_def)
    have old: "abits b ! j = bit (bits b ! ?n) (j mod 32)"
      using that True by (simp add: abits_def)
    show ?thesis
      using il old that unfolding new f[of "j mod 32" "bits b ! ?n", simplified] eq
      by (cases "j = unat i") simp_all
  next
    case False
    then have "j \<noteq> unat i" by auto
    then show ?thesis using that il n False by (simp add: abits_def)
  qed
  then have "abits ?b = (abits b)[unat i := g (abits b ! unat i)]"
    by (intro nth_equalityI) simp_all
  moreover have "bitmap_wf ?b" using wf by (simp add: bitmap_wf_def)
  ultimately show ?thesis using n by (simp add: upd_elem_def)
qed

lemma bit_one_shift: "m < 32 \<Longrightarrow> bit ((2 :: u32) ^ k) m \<longleftrightarrow> m = k"
  by (auto simp: bit_exp_iff)

lemma bitmap_mark_abits:
  assumes "bitmap_wf b" "i < bit_cnt b"
  shows "\<exists>b'. bitmap_mark b i = Inr b' \<and> bitmap_wf b' \<and> bit_cnt b' = bit_cnt b
     \<and> abits b' = (abits b)[unat i := True]"
  unfolding bitmap_mark_def bit_mask_eq
  by (rule upd_elem_abits[OF assms]) (auto simp: bit_or_iff bit_one_shift)

lemma bitmap_reset_abits:
  assumes "bitmap_wf b" "i < bit_cnt b"
  shows "\<exists>b'. bitmap_reset b i = Inr b' \<and> bitmap_wf b' \<and> bit_cnt b' = bit_cnt b
     \<and> abits b' = (abits b)[unat i := False]"
  unfolding bitmap_reset_def bit_mask_eq
  by (rule upd_elem_abits[OF assms]) (auto simp: bit_and_iff bit_not_iff bit_one_shift)

lemma bitmap_flip_abits:
  assumes "bitmap_wf b" "i < bit_cnt b"
  shows "\<exists>b'. bitmap_flip b i = Inr b' \<and> bitmap_wf b' \<and> bit_cnt b' = bit_cnt b
     \<and> abits b' = (abits b)[unat i := \<not> (abits b ! unat i)]"
  unfolding bitmap_flip_def bit_mask_eq
  by (rule upd_elem_abits[OF assms, where g = Not]) (auto simp: bit_xor_iff bit_one_shift)

lemma bitmap_set_abits:
  assumes "bitmap_wf b" "i < bit_cnt b"
  shows "\<exists>b'. bitmap_set b i v = Inr b' \<and> bitmap_wf b' \<and> bit_cnt b' = bit_cnt b
     \<and> abits b' = (abits b)[unat i := v]"
  using bitmap_mark_abits[OF assms] bitmap_reset_abits[OF assms] assms(2)
  by (cases v) (simp_all add: bitmap_set_def)

lemma bitmap_test_abits:
  assumes "bitmap_wf b"
  shows "bitmap_test b i = (if i < bit_cnt b then Inr (abits b ! unat i) else Inl Assert_failed)"
  using elem_in_range[OF assms, of i]
  by (simp add: bitmap_test_def bit_mask_eq abits_def word_less_nat_alt bit_iff_and_push_bit_not_eq_0)

section \<open>Ranges of bits\<close>

lemma list_update_range:
  assumes "start + n < length xs"
  shows "(take start xs @ replicate n v @ drop (start + n) xs)[start + n := v]
     = take start xs @ replicate (Suc n) v @ drop (start + Suc n) xs"
proof -
  have "drop (start + n) xs = xs ! (start + n) # drop (start + Suc n) xs"
    using assms by (simp add: Cons_nth_drop_Suc)
  then show ?thesis
    using assms by (simp add: list_update_append replicate_append_same)
qed

lemma range_word:
  assumes "i < (cnt :: u32)" "unat start + unat cnt \<le> unat (lim :: u32)"
  shows "unat (start + i) = unat start + unat i" and "start + i < lim"
proof -
  have "unat start + unat i < unat lim" using assms by (simp add: word_less_nat_alt)
  moreover have "unat lim < 2 ^ LENGTH(32)" by (rule unat_lt_size)
  ultimately show "unat (start + i) = unat start + unat i" by (intro unat_add_le) linarith
  then show "start + i < lim" using \<open>unat start + unat i < unat lim\<close> by (simp add: word_less_nat_alt)
qed

lemma range_asserts:
  assumes "unat start + unat cnt \<le> unat (lim :: u32)"
  shows "start \<le> lim" and "start + cnt \<le> lim"
proof -
  have "unat (start + cnt) = unat start + unat cnt"
    using assms unat_lt_size[of lim] by (intro unat_add_le) linarith
  then show "start \<le> lim" "start + cnt \<le> lim" using assms by (simp_all add: word_le_nat_alt)
qed

lemma bitmap_set_multiple_loop_abits:
  assumes "bitmap_wf b" "unat start + unat cnt \<le> unat (bit_cnt b)" "unat i \<le> unat cnt"
    and "abits b = take (unat start) bs @ replicate (unat i) v @ drop (unat start + unat i) bs"
    and "length bs = unat (bit_cnt b)"
  shows "\<exists>b'. bitmap_set_multiple_loop start cnt v i b = Inr b' \<and> bitmap_wf b' \<and> bit_cnt b' = bit_cnt b
     \<and> abits b' = take (unat start) bs @ replicate (unat cnt) v @ drop (unat start + unat cnt) bs"
  using assms
proof (induction start cnt v i b rule: bitmap_set_multiple_loop.induct)
  case (1 start cnt v i b)
  show ?case
  proof (cases "i < cnt")
    case True
    note r = range_word[OF True 1(3)]
    obtain b1 where b1: "bitmap_set b (start + i) v = Inr b1" "bitmap_wf b1" "bit_cnt b1 = bit_cnt b"
      "abits b1 = (abits b)[unat (start + i) := v]"
      using bitmap_set_abits[OF 1(2) r(2)] by blast
    have i1: "unat (i + 1) = Suc (unat i)" using unat_plus_one[OF True] .
    have "unat start + unat i < length bs" using r 1(6) by (simp add: word_less_nat_alt)
    then have "abits b1 = take (unat start) bs @ replicate (Suc (unat i)) v @ drop (unat start + Suc (unat i)) bs"
      unfolding b1(4) r(1) 1(5) by (rule list_update_range)
    then show ?thesis
      using 1(1)[OF True b1(1)] b1 1(3,6) i1 True by (simp add: word_less_nat_alt)
  next
    case False
    then have "unat i = unat cnt" using 1(4) by (simp add: word_less_nat_alt)
    then show ?thesis using 1 False by simp
  qed
qed

text \<open>A range that leaves the bitmap stops at the assertion of \<open>bitmap_set\<close>, also when
  \<open>start + cnt\<close> wraps around.\<close>

lemma bitmap_set_multiple_loop_bad:
  assumes "bitmap_wf b" "unat (bit_cnt b) < unat start + unat cnt" "unat start + unat i \<le> unat (bit_cnt b)"
  shows "bitmap_set_multiple_loop start cnt v i b = Inl Assert_failed"
  using assms
proof (induction start cnt v i b rule: bitmap_set_multiple_loop.induct)
  case (1 start cnt v i b)
  have ic: "i < cnt" using 1(3,4) by (simp add: word_less_nat_alt)
  have "unat start + unat i < 2 ^ LENGTH(32)" using 1(4) unat_lt_size[of "bit_cnt b"] by linarith
  then have si: "unat (start + i) = unat start + unat i" by (rule unat_add_le)
  show ?case
  proof (cases "start + i < bit_cnt b")
    case True
    obtain b1 where b1: "bitmap_set b (start + i) v = Inr b1" "bitmap_wf b1" "bit_cnt b1 = bit_cnt b"
      using bitmap_set_abits[OF 1(2) True] by blast
    show ?thesis
      using 1(1)[OF ic b1(1)] b1 1(3) True si ic unat_plus_one[OF ic] by (simp add: word_less_nat_alt)
  next
    case False
    then show ?thesis using ic by (simp add: bitmap_set_def)
  qed
qed

lemma bitmap_set_multiple_abits:
  assumes wf: "bitmap_wf b" and r: "unat start + unat cnt \<le> unat (bit_cnt b)"
  shows "\<exists>b'. bitmap_set_multiple b start cnt v = Inr b' \<and> bitmap_wf b' \<and> bit_cnt b' = bit_cnt b
     \<and> abits b' = take (unat start) (abits b) @ replicate (unat cnt) v
                     @ drop (unat start + unat cnt) (abits b)"
  using bitmap_set_multiple_loop_abits[OF wf r, of 0 "abits b" v] range_asserts[OF r]
  by (simp add: bitmap_set_multiple_def)

lemma bitmap_set_multiple_bad:
  assumes "bitmap_wf b" "unat (bit_cnt b) < unat start + unat cnt"
  shows "bitmap_set_multiple b start cnt v = Inl Assert_failed"
  using bitmap_set_multiple_loop_bad[OF assms, of 0 v]
  by (auto simp: bitmap_set_multiple_def kassert_def word_le_nat_alt)

lemma bitmap_set_all_abits:
  assumes "bitmap_wf b"
  shows "\<exists>b'. bitmap_set_all b v = Inr b' \<and> bitmap_wf b' \<and> bit_cnt b' = bit_cnt b
     \<and> abits b' = replicate (unat (bit_cnt b)) v"
  using bitmap_set_multiple_abits[OF assms, of 0 "bit_cnt b" v]
  by (simp add: bitmap_set_all_def bitmap_size_def)

text \<open>The bits of a range.\<close>

definition brange :: "bool list \<Rightarrow> nat \<Rightarrow> nat \<Rightarrow> bool list" where
  "brange bs start cnt = take cnt (drop start bs)"

lemma brange_step:
  "start + i < length bs \<Longrightarrow> i < cnt \<Longrightarrow>
   brange bs (start + i) (cnt - i) = bs ! (start + i) # brange bs (start + Suc i) (cnt - Suc i)"
  by (simp add: brange_def Cons_nth_drop_Suc[symmetric] take_Cons' Suc_diff_Suc)

lemma brange_0 [simp]: "brange bs start 0 = []"
  by (simp add: brange_def)

lemma bitmap_contains_loop_abits:
  assumes "bitmap_wf b" "unat start + unat cnt \<le> unat (bit_cnt b)" "unat i \<le> unat cnt"
  shows "bitmap_contains_loop b start cnt v i
     = Inr (v \<in> set (brange (abits b) (unat start + unat i) (unat cnt - unat i)))"
  using assms
proof (induction b start cnt v i rule: bitmap_contains_loop.induct)
  case (1 b start cnt v i)
  show ?case
  proof (cases "i < cnt")
    case True
    note r = range_word[OF True 1(3)]
    have t: "bitmap_test b (start + i) = Inr (abits b ! (unat start + unat i))"
      using bitmap_test_abits[OF 1(2), of "start + i"] r by simp
    have s: "brange (abits b) (unat start + unat i) (unat cnt - unat i)
      = abits b ! (unat start + unat i) # brange (abits b) (unat start + Suc (unat i)) (unat cnt - Suc (unat i))"
      using r True by (intro brange_step) (simp_all add: word_less_nat_alt)
    have "unat (i + 1) = Suc (unat i)" "Suc (unat i) \<le> unat cnt"
      using unat_plus_one[OF True] True by (simp_all add: word_less_nat_alt)
    then show ?thesis
      using 1(1)[OF True t _ 1(2,3)] t True unfolding s by auto
  next
    case False
    then have "unat i = unat cnt" using 1(4) by (simp add: word_less_nat_alt)
    then show ?thesis using False by simp
  qed
qed

lemma bitmap_count_loop_abits:
  assumes "bitmap_wf b" "unat start + unat cnt \<le> unat (bit_cnt b)" "unat i \<le> unat cnt"
  shows "bitmap_count_loop b start cnt v i n
     = Inr (n + of_nat (count_list (brange (abits b) (unat start + unat i) (unat cnt - unat i)) v))"
  using assms
proof (induction b start cnt v i n rule: bitmap_count_loop.induct)
  case (1 b start cnt v i n)
  show ?case
  proof (cases "i < cnt")
    case True
    note r = range_word[OF True 1(3)]
    have t: "bitmap_test b (start + i) = Inr (abits b ! (unat start + unat i))"
      using bitmap_test_abits[OF 1(2), of "start + i"] r by simp
    have s: "brange (abits b) (unat start + unat i) (unat cnt - unat i)
      = abits b ! (unat start + unat i) # brange (abits b) (unat start + Suc (unat i)) (unat cnt - Suc (unat i))"
      using r True by (intro brange_step) (simp_all add: word_less_nat_alt)
    have "unat (i + 1) = Suc (unat i)" "Suc (unat i) \<le> unat cnt"
      using unat_plus_one[OF True] True by (simp_all add: word_less_nat_alt)
    then show ?thesis
      using 1(1)[OF True t 1(2,3)] t True unfolding s by (auto simp: add.assoc)
  next
    case False
    then have "unat i = unat cnt" using 1(4) by (simp add: word_less_nat_alt)
    then show ?thesis using False by simp
  qed
qed

lemma bitmap_contains_abits:
  assumes "bitmap_wf b" "unat start + unat cnt \<le> unat (bit_cnt b)"
  shows "bitmap_contains b start cnt v = Inr (v \<in> set (brange (abits b) (unat start) (unat cnt)))"
  using bitmap_contains_loop_abits[OF assms, of 0 v] range_asserts[OF assms(2)]
  by (simp add: bitmap_contains_def)

lemma bitmap_count_abits:
  assumes "bitmap_wf b" "unat start + unat cnt \<le> unat (bit_cnt b)"
  shows "bitmap_count b start cnt v = Inr (of_nat (count_list (brange (abits b) (unat start) (unat cnt)) v))"
  using bitmap_count_loop_abits[OF assms, of 0 v 0] range_asserts[OF assms(2)]
  by (simp add: bitmap_count_def)

section \<open>Scanning\<close>

text \<open>\<open>group_at bs cnt v i\<close>: \<open>cnt\<close> consecutive bits from \<open>i\<close> on exist and are all \<open>v\<close>.\<close>

definition group_at :: "bool list \<Rightarrow> nat \<Rightarrow> bool \<Rightarrow> nat \<Rightarrow> bool" where
  "group_at bs cnt v i \<longleftrightarrow> i + cnt \<le> length bs \<and> (\<forall>j<cnt. bs ! (i + j) = v)"

lemma group_at_brange:
  "i + cnt \<le> length bs \<Longrightarrow> group_at bs cnt v i \<longleftrightarrow> (\<not> v) \<notin> set (brange bs i cnt)"
  by (auto simp: group_at_def brange_def in_set_conv_nth)

definition ascan :: "bool list \<Rightarrow> nat \<Rightarrow> nat \<Rightarrow> bool \<Rightarrow> nat option" where
  "ascan bs start cnt v = find (group_at bs cnt v) [start..<Suc (length bs)]"

lemma ascan_Some:
  "ascan bs start cnt v = Some i \<longleftrightarrow>
     start \<le> i \<and> group_at bs cnt v i \<and> (\<forall>j. start \<le> j \<and> j < i \<longrightarrow> \<not> group_at bs cnt v j)"
  unfolding ascan_def find_upt_Some by (auto simp: group_at_def)

lemma ascan_None: "ascan bs start cnt v = None \<longleftrightarrow> (\<forall>i\<ge>start. \<not> group_at bs cnt v i)"
  by (auto simp: ascan_def find_None_iff group_at_def simp del: upt_Suc)

definition scan_result :: "nat option \<Rightarrow> u32" where
  "scan_result r = (case r of None \<Rightarrow> BITMAP_ERROR | Some i \<Rightarrow> of_nat i)"

lemma bitmap_scan_loop_abits:
  assumes "bitmap_wf b" "unat lst + unat cnt = unat (bit_cnt b)"
  shows "bitmap_scan_loop b lst cnt v i
     = Inr (scan_result (find (group_at (abits b) (unat cnt) v) [i..<Suc (unat lst)]))"
  using assms
proof (induction b lst cnt v i rule: bitmap_scan_loop.induct)
  case (1 b lst cnt v i)
  show ?case
  proof (cases "i \<le> unat lst")
    case True
    then have "i < 2 ^ LENGTH(32)" using unat_lt_size[of lst] by linarith
    then have u: "unat (of_nat i :: u32) = i" by (simp add: unat_of_nat)
    have "bitmap_contains b (of_nat i) cnt (\<not> v) = Inr (\<not> group_at (abits b) (unat cnt) v i)"
      using bitmap_contains_abits[OF 1(2), of "of_nat i" cnt "\<not> v"] 1(3) True
        group_at_brange[of i "unat cnt" "abits b" v]
      by (simp add: u)
    then show ?thesis
      using 1(1)[OF True _ _ 1(2,3)] True by (auto simp: find_upt_step scan_result_def simp del: upt_Suc)
  next
    case False
    then show ?thesis by (simp add: scan_result_def)
  qed
qed

lemma bitmap_scan_abits:
  assumes wf: "bitmap_wf b"
  shows "bitmap_scan b start cnt v =
     (if start \<le> bit_cnt b then Inr (scan_result (ascan (abits b) (unat start) (unat cnt) v))
      else Inl Assert_failed)"
proof (cases "cnt \<le> bit_cnt b")
  case True
  then have u: "unat (bit_cnt b - cnt) = unat (bit_cnt b) - unat cnt"
    by (simp add: unat_sub word_le_nat_alt)
  then have s: "unat (bit_cnt b - cnt) + unat cnt = unat (bit_cnt b)"
    using True by (simp add: word_le_nat_alt)
  have "find (group_at (abits b) (unat cnt) v) [unat start..<Suc (length (abits b))]
      = find (group_at (abits b) (unat cnt) v) [unat start..<Suc (unat (bit_cnt b - cnt))]"
    using s by (intro find_upt_restrict) (auto simp: group_at_def)
  then show ?thesis
    using True bitmap_scan_loop_abits[OF wf s, of v "unat start"] by (simp add: bitmap_scan_def ascan_def kassert_def del: upt_Suc)
next
  case False
  then have "ascan (abits b) (unat start) (unat cnt) v = None"
    by (auto simp: ascan_None group_at_def word_le_nat_alt)
  then show ?thesis using False by (simp add: bitmap_scan_def scan_result_def kassert_def)
qed

text \<open>The index found by a scan is not the error value.\<close>

lemma scan_result_index:
  assumes wf: "bitmap_wf b" and s: "ascan (abits b) start cnt v = Some i"
  shows "unat (scan_result (Some i)) = i" and "scan_result (Some i) \<noteq> BITMAP_ERROR"
    and "i + cnt \<le> unat (bit_cnt b)"
proof -
  show i: "i + cnt \<le> unat (bit_cnt b)" using s by (simp add: ascan_Some group_at_def)
  then show u: "unat (scan_result (Some i)) = i"
    using unat_lt_size[of "bit_cnt b"] by (simp add: scan_result_def unat_of_nat)
  have "bit_cnt b < BITMAP_ERROR"
    using wf word_order.not_eq_extremum[of "bit_cnt b"] by (simp add: bitmap_wf_def BITMAP_ERROR_def)
  then have "unat (bit_cnt b) < unat BITMAP_ERROR" by (simp only: word_less_nat_alt)
  then show "scan_result (Some i) \<noteq> BITMAP_ERROR" using u i by auto
qed

lemma bitmap_scan_and_flip_abits:
  assumes wf: "bitmap_wf b" and st: "start \<le> bit_cnt b"
  shows "case ascan (abits b) (unat start) (unat cnt) v of
      None \<Rightarrow> bitmap_scan_and_flip b start cnt v = Inr (BITMAP_ERROR, b)
    | Some i \<Rightarrow> (\<exists>b'. bitmap_scan_and_flip b start cnt v = Inr (of_nat i, b') \<and> bitmap_wf b'
         \<and> bit_cnt b' = bit_cnt b
         \<and> abits b' = take i (abits b) @ replicate (unat cnt) (\<not> v) @ drop (i + unat cnt) (abits b))"
proof (cases "ascan (abits b) (unat start) (unat cnt) v")
  case None
  then show ?thesis
    using bitmap_scan_abits[OF wf, of start cnt v] st
    by (simp add: bitmap_scan_and_flip_def scan_result_def)
next
  case (Some i)
  note r = scan_result_index[OF wf Some]
  have "unat (of_nat i :: u32) = i" using r(1) by (simp add: scan_result_def)
  then show ?thesis
    using bitmap_scan_abits[OF wf, of start cnt v] st Some r
      bitmap_set_multiple_abits[OF wf, of "of_nat i" cnt "\<not> v"]
    by (auto simp: bitmap_scan_and_flip_def scan_result_def)
qed

section \<open>Creation and files\<close>

lemma bitmap_create_abits:
  assumes "cnt \<noteq> BITMAP_ERROR" "unat cnt \<le> 32 * length ws"
  shows "\<exists>b. bitmap_create cnt True (Some ws) = Inr (Some b) \<and> bitmap_wf b \<and> bit_cnt b = cnt
     \<and> abits b = replicate (unat cnt) False"
  using bitmap_set_all_abits[of "\<lparr>bit_cnt = cnt, bits = ws\<rparr>" False] assms
  by (auto simp: bitmap_create_def bitmap_wf_def)

lemma bitmap_create_in_buf_abits:
  assumes "cnt \<noteq> BITMAP_ERROR" "unat cnt \<le> 32 * (length ws - 2)" "sz \<ge> bitmap_buf_size cnt"
  shows "\<exists>b. bitmap_create_in_buf cnt ws sz = Inr b \<and> bitmap_wf b \<and> bit_cnt b = cnt
     \<and> abits b = replicate (unat cnt) False"
  using bitmap_set_all_abits[of "\<lparr>bit_cnt = cnt, bits = drop 2 ws\<rparr>" False] assms
  by (auto simp: bitmap_create_in_buf_def bitmap_wf_def)

lemma unat_elem_cnt:
  assumes "unat cnt + 31 < 2 ^ 32"
  shows "unat (elem_cnt cnt) = (unat cnt + 31) div 32"
proof -
  have "unat (cnt + 31) = unat cnt + 31" using assms unat_add_le[of cnt 31] by simp
  moreover have "cnt + ELEM_BITS - 1 = cnt + 31" by simp
  ultimately show ?thesis unfolding elem_cnt_def by (simp only: unat_div_distrib) simp
qed

lemma last_mask_bits:
  assumes "m < 32"
  shows "bit (last_mask b) m \<longleftrightarrow> unat (bit_cnt b) mod 32 = 0 \<or> m < unat (bit_cnt b) mod 32"
proof (cases "unat (bit_cnt b) mod 32 = 0")
  case True
  then have "bit_cnt b mod 32 = 0" by (simp add: word_unat_eq_iff unat_mod_distrib)
  then show ?thesis using True assms by (simp add: last_mask_def)
next
  case False
  then have "bit_cnt b mod 32 \<noteq> 0" by (simp add: word_unat_eq_iff unat_mod_distrib)
  then have "last_mask b = mask (unat (bit_cnt b) mod 32)"
    by (simp add: last_mask_def Let_def mask_eq_exp_minus_1 unat_mod_distrib)
  then show ?thesis using False assms by (simp add: bit_mask_iff)
qed

lemma last_elem_index:
  fixes j n :: nat
  assumes "j < n" "j div 32 = (n - 1) div 32" "n mod 32 \<noteq> 0"
  shows "j mod 32 < n mod 32"
proof -
  have "(n - 1) div 32 = n div 32"
    using assms(3) by (metis One_nat_def Suc_pred div_Suc gr0I mod_0)
  then show ?thesis using assms(1,2) by (metis div_mult_mod_eq nat_add_left_cancel_less)
qed

text \<open>Masking the unused bits of the last element does not change the list.\<close>

lemma mask_last_abits:
  assumes "unat (bit_cnt b) + 31 < 2 ^ 32" "length (bits b) = unat (elem_cnt (bit_cnt b))" "bit_cnt b > 0"
  shows "\<exists>b'. upd_elem (\<lambda>w. w AND last_mask b) b (elem_cnt (bit_cnt b) - 1) = Inr b'
     \<and> bit_cnt b' = bit_cnt b \<and> length (bits b') = length (bits b) \<and> abits b' = abits b"
proof -
  let ?n = "unat (bit_cnt b)" and ?l = "length (bits b) - 1"
  have n: "?n > 0" using assms(3) by (simp add: word_less_nat_alt)
  have len: "length (bits b) = (?n + 31) div 32" using assms(1,2) unat_elem_cnt by simp
  then have l: "?l = (?n - 1) div 32" "?l < length (bits b)" using n by auto
  have "elem_cnt (bit_cnt b) \<noteq> 0" using assms(2) l(2) by auto
  then have idx: "unat (elem_cnt (bit_cnt b) - 1) = ?l"
    unfolding assms(2) by (rule unat_minus_one)
  let ?b = "b\<lparr>bits := (bits b)[?l := bits b ! ?l AND last_mask b]\<rparr>"
  have "abits ?b ! j = abits b ! j" if j: "j < ?n" for j
  proof (cases "j div 32 = ?l")
    case True
    have "?n mod 32 = 0 \<or> j mod 32 < ?n mod 32"
      using last_elem_index[OF j] True l(1) by auto
    then show ?thesis using True l j by (simp add: abits_def bit_and_iff last_mask_bits)
  next
    case False
    then show ?thesis using j by (simp add: abits_def)
  qed
  then have "abits ?b = abits b" by (intro nth_equalityI) simp_all
  then show ?thesis using l(2) by (simp add: upd_elem_def idx)
qed

lemma unat_byte_cnt:
  assumes "unat cnt + 31 < 2 ^ 32"
  shows "unat (byte_cnt cnt) = 4 * unat (elem_cnt cnt)"
proof -
  have "4 * unat (elem_cnt cnt) < 2 ^ LENGTH(32)"
    using assms by (simp add: unat_elem_cnt)
  then show ?thesis
    using unat_mult_lem[of 4 "elem_cnt cnt"] by (simp add: byte_cnt_def)
qed

text \<open>Reading back what was written.\<close>

lemma bitmap_read_written:
  assumes cnt: "unat (bit_cnt b) + 31 < 2 ^ 32" "bit_cnt b0 = bit_cnt b"
    and len: "length (bits b) = unat (elem_cnt (bit_cnt b))" "length (bits b0) = length (bits b)"
    and got: "file_read_at f (byte_cnt (bit_cnt b)) 0 = take (unat (byte_cnt (bit_cnt b))) (bytes_of_words (bits b))"
  shows "\<exists>b'. bitmap_read file_read_at b0 f = Inr (True, b') \<and> bit_cnt b' = bit_cnt b \<and> abits b' = abits b"
proof (cases "bit_cnt b > 0")
  case True
  let ?b = "b0\<lparr>bits := bits b\<rparr>"
  have sz: "unat (byte_cnt (bit_cnt b)) = 4 * length (bits b)" using cnt len by (simp add: unat_byte_cnt)
  then have got': "file_read_at f (byte_cnt (bit_cnt b)) 0 = bytes_of_words (bits b)" using got by simp
  obtain b' where b': "upd_elem (\<lambda>w. w AND last_mask ?b) ?b (elem_cnt (bit_cnt ?b) - 1) = Inr b'"
    "bit_cnt b' = bit_cnt ?b" "abits b' = abits ?b"
    using mask_last_abits[of ?b] cnt len True by auto
  have "abits ?b = abits b" using cnt by (simp add: abits_def)
  then show ?thesis
    using b' True cnt(2) len sz by (simp add: bitmap_read_def got' Let_def)
next
  case False
  then have "bit_cnt b = 0" using word_greater_zero_iff by blast
  then show ?thesis using cnt by (simp add: bitmap_read_def abits_def)
qed

section \<open>Allocation of regions\<close>

text \<open>What the page allocator and the free map rely on: an allocator of contiguous regions
  of units.  \<open>alloc s n\<close> returns the first unit of a region of \<open>n\<close> units, \<open>None\<close> if
  there is no room; \<open>release s i n\<close> gives the region back.\<close>

locale region_allocator =
  fixes inv :: "'s \<Rightarrow> bool" and capacity :: "'s \<Rightarrow> nat" and used :: "'s \<Rightarrow> nat set"
    and alloc :: "'s \<Rightarrow> u32 \<Rightarrow> (u32 option \<times> 's) res"
    and release :: "'s \<Rightarrow> u32 \<Rightarrow> u32 \<Rightarrow> 's res"
  assumes used_bound: "inv s \<Longrightarrow> used s \<subseteq> {..<capacity s}"
    and alloc_total: "inv s \<Longrightarrow> \<exists>r s'. alloc s n = Inr (r, s')"
    and alloc_keeps: "inv s \<Longrightarrow> alloc s n = Inr (r, s') \<Longrightarrow> inv s' \<and> capacity s' = capacity s"
    and alloc_Some: "inv s \<Longrightarrow> alloc s n = Inr (Some i, s') \<Longrightarrow>
       unat i + unat n \<le> capacity s \<and> {unat i..<unat i + unat n} \<inter> used s = {}
       \<and> used s' = used s \<union> {unat i..<unat i + unat n}"
    and alloc_None: "inv s \<Longrightarrow> alloc s n = Inr (None, s') \<Longrightarrow>
       s' = s \<and> (\<forall>i. i + unat n \<le> capacity s \<longrightarrow> {i..<i + unat n} \<inter> used s \<noteq> {})"
    and release_ok: "inv s \<Longrightarrow> unat i + unat n \<le> capacity s \<Longrightarrow>
       \<exists>s'. release s i n = Inr s' \<and> inv s' \<and> capacity s' = capacity s
          \<and> used s' = used s - {unat i..<unat i + unat n}"
begin

text \<open>Two regions allocated one after the other do not overlap.\<close>

lemma allocs_disjoint:
  assumes "inv s" "alloc s n = Inr (Some i, s1)" "alloc s1 m = Inr (Some j, s2)"
  shows "{unat i..<unat i + unat n} \<inter> {unat j..<unat j + unat m} = {}"
  using alloc_Some[OF assms(1,2)] alloc_keeps[OF assms(1,2)] alloc_Some[of s1 m j s2] assms(3) by blast

text \<open>Releasing a region just allocated restores the set of used units.\<close>

lemma release_alloc:
  assumes "inv s" "alloc s n = Inr (Some i, s1)"
  shows "\<exists>s2. release s1 i n = Inr s2 \<and> inv s2 \<and> used s2 = used s"
proof -
  note a = alloc_Some[OF assms] and k = alloc_keeps[OF assms]
  obtain s2 where "release s1 i n = Inr s2" "inv s2" "used s2 = used s1 - {unat i..<unat i + unat n}"
    using release_ok[of s1 i n] a k by auto
  then show ?thesis using a by blast
qed

text \<open>A region that was just released can be allocated again: an allocation of its size
  succeeds.\<close>

lemma alloc_after_release:
  assumes "inv s" "unat i + unat n \<le> capacity s" "release s i n = Inr s1"
  shows "\<exists>j s2. alloc s1 n = Inr (Some j, s2)"
proof -
  have s1: "inv s1" "capacity s1 = capacity s" "used s1 = used s - {unat i..<unat i + unat n}"
    using release_ok[OF assms(1,2)] assms(3) by auto
  obtain r s2 where r: "alloc s1 n = Inr (r, s2)" using alloc_total[OF s1(1)] by blast
  show ?thesis
  proof (cases r)
    case None
    have "{unat i..<unat i + unat n} \<inter> used s1 \<noteq> {}"
      using alloc_None[OF s1(1) r[unfolded None]] assms(2) s1(2) by simp
    then show ?thesis using s1(3) by blast
  qed (use r in blast)
qed

end

definition used_bits :: "bitmap \<Rightarrow> nat set" where
  "used_bits b = {i. i < unat (bit_cnt b) \<and> abits b ! i}"

text \<open>The two calls that the page allocator and the free map make.\<close>

definition bm_alloc :: "bitmap \<Rightarrow> u32 \<Rightarrow> (u32 option \<times> bitmap) res" where
  "bm_alloc b n =
     ebind (bitmap_scan_and_flip b 0 n False) (\<lambda>(i, b'). Inr (if i \<noteq> BITMAP_ERROR then Some i else None, b'))"

definition bm_release :: "bitmap \<Rightarrow> u32 \<Rightarrow> u32 \<Rightarrow> bitmap res" where
  "bm_release b i n = bitmap_set_multiple b i n False"

lemma nth_range_update:
  assumes "i + n \<le> length xs" "j < length xs"
  shows "(take i xs @ replicate n v @ drop (i + n) xs) ! j = (if i \<le> j \<and> j < i + n then v else xs ! j)"
  using assms by (auto simp: nth_append min_def)

lemma used_bits_range:
  assumes "i + n \<le> unat (bit_cnt b)" "bit_cnt b' = bit_cnt b"
    and "abits b' = take i (abits b) @ replicate n v @ drop (i + n) (abits b)"
  shows "used_bits b' = (if v then used_bits b \<union> {i..<i + n} else used_bits b - {i..<i + n})"
  using assms nth_range_update[of i n "abits b" _ v]
  by (auto simp: used_bits_def split: if_splits)

lemma bm_alloc_cases:
  assumes wf: "bitmap_wf b" and a: "bm_alloc b n = Inr (r, b')"
  shows "case r of
      None \<Rightarrow> b' = b \<and> ascan (abits b) 0 (unat n) False = None
    | Some i \<Rightarrow> ascan (abits b) 0 (unat n) False = Some (unat i) \<and> bitmap_wf b' \<and> bit_cnt b' = bit_cnt b
        \<and> used_bits b' = used_bits b \<union> {unat i..<unat i + unat n}"
proof (cases "ascan (abits b) 0 (unat n) False")
  case None
  then show ?thesis
    using bitmap_scan_and_flip_abits[OF wf, of 0 n False] a by (auto simp: bm_alloc_def)
next
  case (Some i)
  note r = scan_result_index[OF wf Some]
  have u: "unat (of_nat i :: u32) = i" "(of_nat i :: u32) \<noteq> BITMAP_ERROR"
    using r by (simp_all add: scan_result_def)
  obtain b1 where b1: "bitmap_scan_and_flip b 0 n False = Inr (of_nat i, b1)" "bitmap_wf b1"
    "bit_cnt b1 = bit_cnt b"
    "abits b1 = take i (abits b) @ replicate (unat n) True @ drop (i + unat n) (abits b)"
    using bitmap_scan_and_flip_abits[OF wf, of 0 n False] Some by auto
  then show ?thesis
    using used_bits_range[OF r(3) b1(3,4)] a u Some by (auto simp: bm_alloc_def)
qed

lemma bm_alloc_total:
  assumes "bitmap_wf b"
  shows "\<exists>r b'. bm_alloc b n = Inr (r, b')"
  using bitmap_scan_and_flip_abits[OF assms, of 0 n False]
  by (cases "ascan (abits b) 0 (unat n) False") (auto simp: bm_alloc_def)

lemma group_at_used: "group_at (abits b) n False i \<longleftrightarrow> i + n \<le> unat (bit_cnt b) \<and> {i..<i + n} \<inter> used_bits b = {}"
proof -
  have "(\<forall>j<n. \<not> abits b ! (i + j)) \<longleftrightarrow> (\<forall>k. i \<le> k \<and> k < i + n \<longrightarrow> \<not> abits b ! k)"
    by (metis add_less_cancel_left le_Suc_ex le_add1)
  then show ?thesis by (auto simp: group_at_def used_bits_def)
qed

interpretation bm: region_allocator bitmap_wf "\<lambda>b. unat (bit_cnt b)" used_bits bm_alloc bm_release
proof unfold_locales
  fix b b' :: bitmap and n i :: u32 and r
  assume wf: "bitmap_wf b"
  show "used_bits b \<subseteq> {..<unat (bit_cnt b)}" by (auto simp: used_bits_def)
  show "\<exists>r b'. bm_alloc b n = Inr (r, b')" by (rule bm_alloc_total[OF wf])
  show "bitmap_wf b' \<and> unat (bit_cnt b') = unat (bit_cnt b)" if "bm_alloc b n = Inr (r, b')"
    using bm_alloc_cases[OF wf that] wf by (cases r) auto
  show "unat i + unat n \<le> unat (bit_cnt b) \<and> {unat i..<unat i + unat n} \<inter> used_bits b = {}
      \<and> used_bits b' = used_bits b \<union> {unat i..<unat i + unat n}" if "bm_alloc b n = Inr (Some i, b')"
    using bm_alloc_cases[OF wf that] by (simp add: ascan_Some group_at_used)
  show "b' = b \<and> (\<forall>i. i + unat n \<le> unat (bit_cnt b) \<longrightarrow> {i..<i + unat n} \<inter> used_bits b \<noteq> {})"
    if "bm_alloc b n = Inr (None, b')"
    using bm_alloc_cases[OF wf that] by (simp add: ascan_None group_at_used)
  show "\<exists>b'. bm_release b i n = Inr b' \<and> bitmap_wf b' \<and> unat (bit_cnt b') = unat (bit_cnt b)
      \<and> used_bits b' = used_bits b - {unat i..<unat i + unat n}" if r: "unat i + unat n \<le> unat (bit_cnt b)"
  proof -
    obtain b' where "bitmap_set_multiple b i n False = Inr b'" "bitmap_wf b'" "bit_cnt b' = bit_cnt b"
      "used_bits b' = used_bits b - {unat i..<unat i + unat n}"
      using bitmap_set_multiple_abits[OF wf r, of False] used_bits_range[OF r, of _ False] by auto
    then show ?thesis by (simp add: bm_release_def)
  qed
qed

section \<open>Properties\<close>

text \<open>A bitmap of 40 bits with the bits 0 to 2 set.\<close>

definition wbitmap :: bitmap where
  "wbitmap = \<lparr>bit_cnt = 40, bits = [7, 0]\<rparr>"

lemma wbitmap_wf: "bitmap_wf wbitmap"
  by (simp add: wbitmap_def bitmap_wf_def BITMAP_ERROR_def)

text \<open>C4.  \<open>bitmap_scan_and_flip\<close> finds the first group: if some group of \<open>cnt\<close> bits equal to
  \<open>v\<close> starts at or after \<open>start\<close>, it returns the least such position and inverts exactly
  that group; otherwise it returns \<open>BITMAP_ERROR\<close> and changes nothing.\<close>

theorem bitmap_scan_and_flip_correct:
  assumes "bitmap_wf b" and "start \<le> bit_cnt b"
  shows "\<exists>idx b'. bitmap_scan_and_flip b start cnt v = Inr (idx, b') \<and> bitmap_wf b' \<and> bit_cnt b' = bit_cnt b
     \<and> (if \<exists>i\<ge>unat start. group_at (abits b) (unat cnt) v i
        then unat start \<le> unat idx \<and> group_at (abits b) (unat cnt) v (unat idx)
             \<and> (\<forall>j. unat start \<le> j \<and> j < unat idx \<longrightarrow> \<not> group_at (abits b) (unat cnt) v j)
             \<and> abits b' = take (unat idx) (abits b) @ replicate (unat cnt) (\<not> v)
                              @ drop (unat idx + unat cnt) (abits b)
        else idx = BITMAP_ERROR \<and> b' = b)"
proof (cases "ascan (abits b) (unat start) (unat cnt) v")
  case None
  then have "\<not> (\<exists>i\<ge>unat start. group_at (abits b) (unat cnt) v i)" by (simp add: ascan_None)
  then show ?thesis
    using bitmap_scan_and_flip_abits[OF assms, of cnt v] None assms(1) by auto
next
  case (Some i)
  have u: "unat (of_nat i :: u32) = i"
    using scan_result_index(1)[OF assms(1) Some] by (simp add: scan_result_def)
  note s = Some[unfolded ascan_Some]
  then have ex: "\<exists>i\<ge>unat start. group_at (abits b) (unat cnt) v i" by auto
  show ?thesis
    using bitmap_scan_and_flip_abits[OF assms, of cnt v] Some s unfolding if_P[OF ex] by (auto simp: u)
qed

theorem bitmap_scan_and_flip_correct_witness:
  "\<exists>idx b'. bitmap_scan_and_flip wbitmap 1 33 False = Inr (idx, b') \<and> bitmap_wf b' \<and> bit_cnt b' = bit_cnt wbitmap
     \<and> (if \<exists>i\<ge>unat (1 :: u32). group_at (abits wbitmap) (unat (33 :: u32)) False i
        then unat (1 :: u32) \<le> unat idx \<and> group_at (abits wbitmap) (unat (33 :: u32)) False (unat idx)
             \<and> (\<forall>j. unat (1 :: u32) \<le> j \<and> j < unat idx \<longrightarrow> \<not> group_at (abits wbitmap) (unat (33 :: u32)) False j)
             \<and> abits b' = take (unat idx) (abits wbitmap) @ replicate (unat (33 :: u32)) (\<not> False)
                              @ drop (unat idx + unat (33 :: u32)) (abits wbitmap)
        else idx = BITMAP_ERROR \<and> b' = wbitmap)"
  by (rule bitmap_scan_and_flip_correct[OF wbitmap_wf]) (simp add: wbitmap_def)

text \<open>\<open>bitmap_set_multiple\<close> sets exactly the bits of a range inside the bitmap; for any
  other range, also one whose end wraps around the word size, it fails an assertion.\<close>

theorem bitmap_set_multiple_correct:
  assumes "bitmap_wf b"
  shows "if unat start + unat cnt \<le> unat (bit_cnt b)
     then \<exists>b'. bitmap_set_multiple b start cnt v = Inr b' \<and> bitmap_wf b' \<and> bit_cnt b' = bit_cnt b
       \<and> abits b' = take (unat start) (abits b) @ replicate (unat cnt) v
                       @ drop (unat start + unat cnt) (abits b)
     else bitmap_set_multiple b start cnt v = Inl Assert_failed"
  using bitmap_set_multiple_abits[OF assms] bitmap_set_multiple_bad[OF assms] by auto

theorem bitmap_set_multiple_correct_witness:
  "if unat (3 :: u32) + unat (30 :: u32) \<le> unat (bit_cnt wbitmap)
     then \<exists>b'. bitmap_set_multiple wbitmap 3 30 True = Inr b' \<and> bitmap_wf b' \<and> bit_cnt b' = bit_cnt wbitmap
       \<and> abits b' = take (unat (3 :: u32)) (abits wbitmap) @ replicate (unat (30 :: u32)) True
                       @ drop (unat (3 :: u32) + unat (30 :: u32)) (abits wbitmap)
     else bitmap_set_multiple wbitmap 3 30 True = Inl Assert_failed"
  by (rule bitmap_set_multiple_correct[OF wbitmap_wf])



text \<open>The contract of the two allocators built on bitmaps: releasing a region right after
  its allocation restores the set of used units, and two regions allocated in sequence do not
  overlap.\<close>

theorem bitmap_allocator_contract:
  assumes "bitmap_wf b" and "bm_alloc b n = Inr (Some i, b1)"
  shows "(\<exists>b2. bm_release b1 i n = Inr b2 \<and> bitmap_wf b2 \<and> used_bits b2 = used_bits b)
     \<and> (\<forall>m j b2. bm_alloc b1 m = Inr (Some j, b2) \<longrightarrow>
          {unat i..<unat i + unat n} \<inter> {unat j..<unat j + unat m} = {})"
  using bm.release_alloc[OF assms] bm.allocs_disjoint[OF assms] by blast

lemma wbitmap_alloc: "bm_alloc wbitmap 2 = Inr (Some 3, \<lparr>bit_cnt = 40, bits = [31, 0]\<rparr>)"
  by code_simp

lemma wbitmap_alloc2: "bm_alloc \<lparr>bit_cnt = 40, bits = [31, 0]\<rparr> 1 = Inr (Some 5, \<lparr>bit_cnt = 40, bits = [63, 0]\<rparr>)"
  by code_simp

theorem bitmap_allocator_contract_witness:
  "(\<exists>b2. bm_release \<lparr>bit_cnt = 40, bits = [31, 0]\<rparr> 3 2 = Inr b2 \<and> bitmap_wf b2 \<and> used_bits b2 = used_bits wbitmap)
     \<and> {unat (3 :: u32)..<unat (3 :: u32) + unat (2 :: u32)}
         \<inter> {unat (5 :: u32)..<unat (5 :: u32) + unat (1 :: u32)} = {}"
  using bitmap_allocator_contract[OF wbitmap_wf wbitmap_alloc] wbitmap_alloc2 by blast

text \<open>A scan for a group of no bits returns \<open>start\<close>; the comment at
  \<open>bitmap_scan_and_flip\<close> says that it returns 0.\<close>

lemma bitmap_scan_and_flip_none:
  assumes "bitmap_wf b" "start \<le> bit_cnt b"
  shows "\<exists>b'. bitmap_scan_and_flip b start 0 v = Inr (start, b') \<and> abits b' = abits b"
proof -
  have "ascan (abits b) (unat start) 0 v = Some (unat start)"
    using assms(2) by (simp add: ascan_Some group_at_def word_le_nat_alt)
  then show ?thesis using bitmap_scan_and_flip_abits[OF assms, of 0 v] by auto
qed

end
