(* ===== verification/Vaddr.thy ===== *)
theory Vaddr
  imports Prelude
begin

unbundle bit_operations_syntax

text \<open>
  Virtual addresses and page table entries: \<open>src/threads/vaddr.h\<close>, \<open>src/threads/pte.h\<close> and the
  rounding macros of \<open>src/lib/round.h\<close>.

  Pointers and entries are 32-bit words, as on the target; the arithmetic wraps.
\<close>

section \<open>vaddr.h\<close>

definition BITMASK :: "nat \<Rightarrow> nat \<Rightarrow> u32" where
  "BITMASK shift cnt = push_bit shift (push_bit cnt 1 - 1)"

abbreviation (input) PGSHIFT :: nat where "PGSHIFT \<equiv> 0"
abbreviation (input) PGBITS :: nat where "PGBITS \<equiv> 12"
definition PGSIZE :: u32 where "PGSIZE = push_bit PGBITS 1"
definition PGMASK :: u32 where "PGMASK = BITMASK PGSHIFT PGBITS"

definition pg_ofs :: "u32 \<Rightarrow> u32" where
  "pg_ofs va = va AND PGMASK"

definition pg_no :: "u32 \<Rightarrow> u32" where
  "pg_no va = drop_bit PGBITS va"

definition pg_round_up :: "u32 \<Rightarrow> u32" where
  "pg_round_up va = (va + PGSIZE - 1) AND NOT PGMASK"

definition pg_round_down :: "u32 \<Rightarrow> u32" where
  "pg_round_down va = va AND NOT PGMASK"

definition PHYS_BASE :: u32 where "PHYS_BASE = 0xc0000000"

definition is_user_vaddr :: "u32 \<Rightarrow> bool" where
  "is_user_vaddr vaddr \<longleftrightarrow> vaddr < PHYS_BASE"

definition is_kernel_vaddr :: "u32 \<Rightarrow> bool" where
  "is_kernel_vaddr vaddr \<longleftrightarrow> vaddr \<ge> PHYS_BASE"

definition ptov :: "u32 \<Rightarrow> u32 res" where
  "ptov paddr = ebind (kassert (paddr < PHYS_BASE)) (\<lambda>_. Inr (paddr + PHYS_BASE))"

definition vtop :: "u32 \<Rightarrow> u32 res" where
  "vtop vaddr = ebind (kassert (is_kernel_vaddr vaddr)) (\<lambda>_. Inr (vaddr - PHYS_BASE))"

section \<open>round.h\<close>

definition ROUND_UP :: "u32 \<Rightarrow> u32 \<Rightarrow> u32" where "ROUND_UP x step = (x + step - 1) div step * step"
definition DIV_ROUND_UP :: "u32 \<Rightarrow> u32 \<Rightarrow> u32" where "DIV_ROUND_UP x step = (x + step - 1) div step"
definition ROUND_DOWN :: "u32 \<Rightarrow> u32 \<Rightarrow> u32" where "ROUND_DOWN x step = x div step * step"

section \<open>pte.h\<close>

abbreviation (input) PTSHIFT :: nat where "PTSHIFT \<equiv> 12"
abbreviation (input) PTBITS :: nat where "PTBITS \<equiv> 10"
abbreviation (input) PDSHIFT :: nat where "PDSHIFT \<equiv> 22"
definition PTMASK :: u32 where "PTMASK = BITMASK PTSHIFT PTBITS"

definition pt_no :: "u32 \<Rightarrow> u32" where
  "pt_no va = drop_bit PTSHIFT (va AND PTMASK)"

definition pd_no :: "u32 \<Rightarrow> u32" where
  "pd_no va = drop_bit PDSHIFT va"

definition PTE_FLAGS :: u32 where "PTE_FLAGS = 0x00000fff"
definition PTE_ADDR :: u32 where "PTE_ADDR = 0xfffff000"
definition PTE_P :: u32 where "PTE_P = 0x1"
definition PTE_W :: u32 where "PTE_W = 0x2"
definition PTE_U :: u32 where "PTE_U = 0x4"
definition PTE_A :: u32 where "PTE_A = 0x20"
definition PTE_D :: u32 where "PTE_D = 0x40"

definition pde_create :: "u32 \<Rightarrow> u32 res" where
  "pde_create pt =
     ebind (kassert (pg_ofs pt = 0)) (\<lambda>_. ebind (vtop pt) (\<lambda>p. Inr (p OR PTE_U OR PTE_P OR PTE_W)))"

definition pde_get_pt :: "u32 \<Rightarrow> u32 res" where
  "pde_get_pt pde = ebind (kassert (pde AND PTE_P \<noteq> 0)) (\<lambda>_. ptov (pde AND PTE_ADDR))"

definition pte_create_kernel :: "u32 \<Rightarrow> bool \<Rightarrow> u32 res" where
  "pte_create_kernel page writable =
     ebind (kassert (pg_ofs page = 0)) (\<lambda>_.
     ebind (vtop page) (\<lambda>p. Inr (p OR PTE_P OR (if writable then PTE_W else 0))))"

definition pte_create_user :: "u32 \<Rightarrow> bool \<Rightarrow> u32 res" where
  "pte_create_user page writable = ebind (pte_create_kernel page writable) (\<lambda>e. Inr (e OR PTE_U))"

definition pte_get_page :: "u32 \<Rightarrow> u32 res" where
  "pte_get_page pte = ptov (pte AND PTE_ADDR)"

section \<open>Addresses as bits and as numbers\<close>

lemma BITMASK_mask: "BITMASK s c = push_bit s (mask c)"
  by (simp add: BITMASK_def mask_eq_exp_minus_1 push_bit_of_1)

lemma PGSIZE_val: "PGSIZE = 4096"
  by (simp add: PGSIZE_def push_bit_of_1)

lemma pg_ofs_take_bit: "pg_ofs va = take_bit 12 va"
  by (simp add: pg_ofs_def PGMASK_def BITMASK_mask take_bit_eq_mask)

lemma pg_round_down_bits: "pg_round_down va = push_bit 12 (drop_bit 12 va)"
  by (rule bit_word_eqI) (auto simp: pg_round_down_def PGMASK_def BITMASK_mask bit_simps)

lemma pt_no_bits: "pt_no va = take_bit 10 (drop_bit 12 va)"
  by (rule bit_word_eqI) (auto simp: pt_no_def PTMASK_def BITMASK_mask bit_simps)

lemma unat_pg_ofs: "unat (pg_ofs va) = unat va mod 4096"
  by (simp add: pg_ofs_take_bit take_bit_eq_mod unat_mod_distrib)

lemma unat_pg_no: "unat (pg_no va) = unat va div 4096"
  by (simp add: pg_no_def drop_bit_eq_div unat_div_distrib)

lemma pg_round_down_ofs: "pg_round_down va + pg_ofs va = va"
  by (simp only: pg_round_down_bits pg_ofs_take_bit bits_ident)

lemma unat_pg_round_down: "unat (pg_round_down va) = unat va div 4096 * 4096"
proof -
  have "pg_round_down va = va - pg_ofs va" using pg_round_down_ofs[of va] by (metis add_diff_cancel_right')
  moreover have "pg_ofs va \<le> va" by (simp add: word_le_nat_alt unat_pg_ofs)
  ultimately show ?thesis by (simp add: unat_sub unat_pg_ofs minus_mod_eq_div_mult)
qed

lemma unat_pt_no: "unat (pt_no va) = unat va div 4096 mod 1024"
  by (simp add: pt_no_bits take_bit_eq_mod drop_bit_eq_div unat_mod_distrib unat_div_distrib)

lemma unat_pd_no: "unat (pd_no va) = unat va div 4194304"
  by (simp add: pd_no_def drop_bit_eq_div unat_div_distrib)

lemma unat_pg_round_up:
  assumes "unat va + 4095 < 2 ^ 32"
  shows "unat (pg_round_up va) = (unat va + 4095) div 4096 * 4096"
proof -
  have "pg_round_up va = pg_round_down (va + 4095)" by (simp add: pg_round_up_def pg_round_down_def PGSIZE_val add.commute)
  moreover have "unat (va + 4095) = unat va + 4095" using assms unat_add_le[of va 4095] by simp
  ultimately show ?thesis by (simp add: unat_pg_round_down)
qed

text \<open>Two pages are the same when their directory and table indexes are.\<close>

lemma pg_no_split: "unat (pg_no va) = unat (pd_no va) * 1024 + unat (pt_no va)"
proof -
  have "unat va div 4194304 = unat va div 4096 div 1024" by (simp add: div_mult2_eq)
  then show ?thesis by (simp add: unat_pg_no unat_pd_no unat_pt_no)
qed

lemma pt_no_lt: "unat (pt_no va) < 1024"
  by (simp add: unat_pt_no)

lemma pd_no_lt: "unat (pd_no va) < 1024"
  using unat_lt_size[of va] by (simp add: unat_pd_no less_mult_imp_div_less)

lemma pd_pt_no_eq: "pd_no a = pd_no b \<Longrightarrow> pt_no a = pt_no b \<Longrightarrow> pg_no a = pg_no b"
  by (metis pg_no_split word_unat_eq_iff)

lemma pg_no_eq: "pg_no a = pg_no b \<longleftrightarrow> pg_round_down a = pg_round_down b"
proof
  assume "pg_round_down a = pg_round_down b"
  then have "unat a div 4096 = unat b div 4096" by (metis unat_pg_round_down mult_right_cancel zero_neq_numeral)
  then show "pg_no a = pg_no b" by (simp add: word_unat_eq_iff unat_pg_no)
qed (simp add: pg_round_down_bits pg_no_def)

section \<open>Entries\<close>

definition page_aligned :: "u32 \<Rightarrow> bool" where
  "page_aligned p \<longleftrightarrow> pg_ofs p = 0"

lemma page_aligned_bit: "page_aligned p \<Longrightarrow> n < 12 \<Longrightarrow> \<not> bit p n"
proof -
  assume p: "page_aligned p" "n < 12"
  have "bit (take_bit 12 p) n \<longleftrightarrow> bit p n" using p(2) by (simp add: bit_take_bit_iff)
  moreover have "take_bit 12 p = 0" using p(1) by (simp add: page_aligned_def pg_ofs_take_bit)
  ultimately show ?thesis by (simp only: bit_0_eq) simp
qed

lemma page_aligned_add: "page_aligned a \<Longrightarrow> page_aligned b \<Longrightarrow> page_aligned (a + b)"
proof -
  assume "page_aligned a" "page_aligned b"
  then have "unat a mod 4096 = 0" "unat b mod 4096 = 0"
    by (simp_all add: page_aligned_def word_unat_eq_iff unat_pg_ofs)
  moreover have "unat (a + b) mod 4096 = (unat a mod 4096 + unat b mod 4096) mod 4096"
    by (simp add: unat_word_ariths(1) mod_mod_cancel mod_add_eq)
  ultimately show ?thesis by (simp add: page_aligned_def word_unat_eq_iff unat_pg_ofs)
qed

lemma bit_small_word:
  assumes "take_bit k w = (w :: u32)" "k \<le> n"
  shows "\<not> bit w n"
  by (metis assms bit_take_bit_iff not_le)

lemma PTE_ADDR_strip:
  assumes "page_aligned p" "take_bit 12 f = f"
  shows "(p OR f) AND PTE_ADDR = p"
proof -
  have addr: "PTE_ADDR = NOT (mask 12)" by (simp add: PTE_ADDR_def mask_eq_exp_minus_1)
  show ?thesis
  proof (rule bit_word_eqI)
    fix n assume "n < LENGTH(32)"
    then show "bit ((p OR f) AND PTE_ADDR) n = bit p n"
      using page_aligned_bit[OF assms(1), of n] bit_small_word[OF assms(2), of n]
      by (auto simp: addr bit_simps)
  qed
qed

lemma PHYS_BASE_aligned: "page_aligned PHYS_BASE"
  by (simp add: page_aligned_def PHYS_BASE_def word_unat_eq_iff unat_pg_ofs)

lemma page_aligned_vtop: "page_aligned p \<Longrightarrow> page_aligned (p - PHYS_BASE)"
proof -
  assume "page_aligned p"
  then have "page_aligned (p + 0x40000000)"
    by (rule page_aligned_add) (simp add: page_aligned_def word_unat_eq_iff unat_pg_ofs)
  moreover have "(0x40000000 :: u32) = - PHYS_BASE" by (simp add: PHYS_BASE_def)
  ultimately show ?thesis by (simp only: add_uminus_conv_diff)
qed

lemma vtop_lt: "is_kernel_vaddr p \<Longrightarrow> p - PHYS_BASE < PHYS_BASE"
proof -
  assume "is_kernel_vaddr p"
  then have "unat (p - PHYS_BASE) = unat p - unat PHYS_BASE" by (simp add: is_kernel_vaddr_def unat_sub)
  then show ?thesis using unat_lt_size[of p] by (simp add: word_less_nat_alt PHYS_BASE_def)
qed

lemma vtop_ok: "is_kernel_vaddr p \<Longrightarrow> vtop p = Inr (p - PHYS_BASE)"
  by (simp add: vtop_def)

lemma ptov_vtop: "is_kernel_vaddr p \<Longrightarrow> ptov (p - PHYS_BASE) = Inr p"
  using vtop_lt by (simp add: ptov_def)

text \<open>An entry that points to a kernel page gives the page back, whatever its flags.\<close>

lemma entry_page:
  assumes "page_aligned p" "is_kernel_vaddr p" "take_bit 12 f = f"
  shows "ptov ((p - PHYS_BASE OR f) AND PTE_ADDR) = Inr p"
  using assms by (simp add: PTE_ADDR_strip page_aligned_vtop ptov_vtop)

definition pte_flags :: "bool \<Rightarrow> u32" where
  "pte_flags writable = (if writable then 7 else 5)"

lemma flag_vals [simp]: "take_bit 12 (7 :: u32) = 7" "take_bit 12 (5 :: u32) = 5"
  by (simp_all add: take_bit_eq_mod)

lemma pde_create_ok:
  assumes "page_aligned p" "is_kernel_vaddr p"
  shows "pde_create p = Inr (p - PHYS_BASE OR 7)"
proof -
  have "(a OR PTE_U OR PTE_P OR PTE_W) = (a OR 7)" for a
    by (simp add: PTE_U_def PTE_P_def PTE_W_def or.assoc)
  then show ?thesis using assms by (simp add: pde_create_def vtop_ok page_aligned_def)
qed

lemma pte_create_user_ok:
  assumes "page_aligned p" "is_kernel_vaddr p"
  shows "pte_create_user p w = Inr (p - PHYS_BASE OR pte_flags w)"
  using assms
  by (simp add: pte_create_user_def pte_create_kernel_def vtop_ok page_aligned_def PTE_U_def PTE_P_def
      PTE_W_def pte_flags_def or.assoc)

lemma page_aligned_and:
  assumes "page_aligned q" "take_bit 12 f = f" "take_bit 12 m = m"
  shows "(q OR f) AND m = f AND m"
proof (rule bit_word_eqI)
  fix n assume "n < LENGTH(32)"
  then show "bit ((q OR f) AND m) n = bit (f AND m) n"
    using page_aligned_bit[OF assms(1), of n] bit_small_word[OF assms(3), of n]
    by (cases "n < 12") (auto simp: bit_simps)
qed

lemma pde_get_pt_create:
  assumes "page_aligned p" "is_kernel_vaddr p"
  shows "pde_get_pt (p - PHYS_BASE OR 7) = Inr p"
proof -
  have "(p - PHYS_BASE OR 7) AND PTE_P = 7 AND PTE_P"
    by (rule page_aligned_and) (simp_all add: page_aligned_vtop assms PTE_P_def take_bit_eq_mod)
  then show ?thesis using entry_page[OF assms, of 7] by (simp add: pde_get_pt_def PTE_P_def)
qed

section \<open>Properties\<close>

text \<open>A page directory entry made for a page-aligned kernel address gives back the page table,
  and a page table entry made for a page gives back the page, is present, and is writable
  exactly when that was asked for.\<close>

theorem entry_roundtrip:
  assumes "page_aligned p" "is_kernel_vaddr p"
  shows "ebind (pde_create p) pde_get_pt = Inr p \<and> ebind (pte_create_user p w) pte_get_page = Inr p \<and>
         (\<exists>e. pte_create_user p w = Inr e \<and> e AND PTE_P \<noteq> 0 \<and> e AND PTE_U \<noteq> 0 \<and> (e AND PTE_W \<noteq> 0 \<longleftrightarrow> w))"
proof -
  have f: "take_bit 12 (pte_flags w) = pte_flags w" by (simp add: pte_flags_def)
  have "(p - PHYS_BASE OR pte_flags w) AND m = pte_flags w AND m" if "take_bit 12 m = m" for m
    by (rule page_aligned_and) (simp_all add: page_aligned_vtop assms f that)
  then show ?thesis
    using assms pde_get_pt_create[OF assms] entry_page[OF assms f]
    by (simp add: pde_create_ok pte_create_user_ok pte_get_page_def PTE_P_def PTE_U_def PTE_W_def
        take_bit_eq_mod pte_flags_def)
qed

theorem entry_roundtrip_witness:
  "ebind (pde_create 0xc0105000) pde_get_pt = Inr 0xc0105000 \<and>
   ebind (pte_create_user 0xc0105000 True) pte_get_page = Inr 0xc0105000"
  using entry_roundtrip[of "0xc0105000" True]
  by (simp add: page_aligned_def word_unat_eq_iff unat_pg_ofs is_kernel_vaddr_def PHYS_BASE_def)

end
