(* ===== verification/Palloc.thy ===== *)
theory Palloc
  imports Bitmap Vaddr
begin

unbundle bit_operations_syntax

text \<open>
  The page allocator, \<open>src/threads/palloc.c\<close>.

  A pool is its bitmap of used pages and its base address; both pools and the words of memory
  are the state.  The pool's lock, which excludes other threads between the scan and the flip
  of the bitmap, is left out: an operation here runs without interleaving.  Memory is read and
  written by whole words here, because pages are filled a page at a time.

  The lemmas give a pool the contract of a page allocator on addresses, from the contract of
  the bitmap (the interpretation \<open>bm\<close> of theory \<open>Bitmap\<close>).
\<close>

record pool =
  used_map :: bitmap
  base :: u32

record palloc =
  kernel_pool :: pool
  user_pool :: pool
  ram :: "u32 \<Rightarrow> u32"

definition PAL_ASSERT :: u32 where "PAL_ASSERT = 1"
definition PAL_ZERO :: u32 where "PAL_ZERO = 2"
definition PAL_USER :: u32 where "PAL_USER = 4"

text \<open>\<open>memset\<close> of \<open>n\<close> pages, by words.\<close>

definition fill_pages :: "u32 \<Rightarrow> u32 \<Rightarrow> u32 \<Rightarrow> (u32 \<Rightarrow> u32) \<Rightarrow> u32 \<Rightarrow> u32" where
  "fill_pages p n v m = (\<lambda>a. if a - p < PGSIZE * n then v else m a)"

definition init_pool :: "u32 \<Rightarrow> u32 \<Rightarrow> (u32 \<Rightarrow> u32) \<Rightarrow> pool res" where
  "init_pool base0 page_cnt m =
     (let bm_pages = DIV_ROUND_UP (bitmap_buf_size page_cnt) PGSIZE
      in if bm_pages > page_cnt then Inl (Panic ''Not enough memory for bitmap.'')
         else ebind (bitmap_create_in_buf (page_cnt - bm_pages)
                       (map (\<lambda>i. m (base0 + 4 * of_nat i)) [0..<unat bm_pages * 1024]) (bm_pages * PGSIZE))
                (\<lambda>b. Inr \<lparr>used_map = b, base = base0 + bm_pages * PGSIZE\<rparr>))"

definition palloc_init :: "u32 \<Rightarrow> u32 \<Rightarrow> (u32 \<Rightarrow> u32) \<Rightarrow> palloc res" where
  "palloc_init init_ram_pages user_page_limit m =
     ebind (ptov (1024 * 1024)) (\<lambda>free_start.
     ebind (ptov (init_ram_pages * PGSIZE)) (\<lambda>free_end.
     let free_pages = (free_end - free_start) div PGSIZE;
         user_pages = free_pages div 2;
         user_pages = (if user_pages > user_page_limit then user_page_limit else user_pages);
         kernel_pages = free_pages - user_pages
     in ebind (init_pool free_start kernel_pages m) (\<lambda>k.
        ebind (init_pool (free_start + kernel_pages * PGSIZE) user_pages m) (\<lambda>u.
        Inr \<lparr>kernel_pool = k, user_pool = u, ram = m\<rparr>))))"

text \<open>The pool that \<open>PAL_USER\<close> selects.\<close>

definition pool_of :: "bool \<Rightarrow> palloc \<Rightarrow> pool" where
  "pool_of user s = (if user then user_pool s else kernel_pool s)"

definition set_pool :: "bool \<Rightarrow> pool \<Rightarrow> palloc \<Rightarrow> palloc" where
  "set_pool user p s = (if user then s\<lparr>user_pool := p\<rparr> else s\<lparr>kernel_pool := p\<rparr>)"

definition palloc_get_multiple :: "u32 \<Rightarrow> u32 \<Rightarrow> palloc \<Rightarrow> (u32 \<times> palloc) res" where
  "palloc_get_multiple flags page_cnt s =
     (let user = (flags AND PAL_USER \<noteq> 0);
          pool = pool_of user s
      in if page_cnt = 0 then Inr (0, s)
         else ebind (bitmap_scan_and_flip (used_map pool) 0 page_cnt False) (\<lambda>(page_idx, b).
              let s = set_pool user (pool\<lparr>used_map := b\<rparr>) s;
                  pages = (if page_idx \<noteq> BITMAP_ERROR then base pool + PGSIZE * page_idx else 0)
              in if pages \<noteq> 0
                 then Inr (pages, if flags AND PAL_ZERO \<noteq> 0 then s\<lparr>ram := fill_pages pages page_cnt 0 (ram s)\<rparr> else s)
                 else if flags AND PAL_ASSERT \<noteq> 0 then Inl (Panic ''palloc_get: out of pages'')
                 else Inr (pages, s)))"

definition palloc_get_page :: "u32 \<Rightarrow> palloc \<Rightarrow> (u32 \<times> palloc) res" where
  "palloc_get_page flags s = palloc_get_multiple flags 1 s"

definition page_from_pool :: "pool \<Rightarrow> u32 \<Rightarrow> bool" where
  "page_from_pool pool page =
     (let page_no = pg_no page;
          start_page = pg_no (base pool);
          end_page = start_page + bitmap_size (used_map pool)
      in page_no \<ge> start_page \<and> page_no < end_page)"

definition palloc_free_multiple :: "u32 \<Rightarrow> u32 \<Rightarrow> palloc \<Rightarrow> palloc res" where
  "palloc_free_multiple pages page_cnt s =
     ebind (kassert (pg_ofs pages = 0)) (\<lambda>_.
     if pages = 0 \<or> page_cnt = 0 then Inr s
     else
       let user = (\<not> page_from_pool (kernel_pool s) pages);
           pool = pool_of user s
       in if user \<and> \<not> page_from_pool (user_pool s) pages
          then Inl (Panic ''executed an unreachable statement'')
          else
            let page_idx = pg_no pages - pg_no (base pool);
                s = s\<lparr>ram := fill_pages pages page_cnt 0xcccccccc (ram s)\<rparr>
            in ebind (bitmap_all (used_map pool) page_idx page_cnt) (\<lambda>a.
               ebind (kassert a) (\<lambda>_.
               ebind (bitmap_set_multiple (used_map pool) page_idx page_cnt False) (\<lambda>b.
               Inr (set_pool user (pool\<lparr>used_map := b\<rparr>) s)))))"

definition palloc_free_page :: "u32 \<Rightarrow> palloc \<Rightarrow> palloc res" where
  "palloc_free_page page s = palloc_free_multiple page 1 s"

section \<open>Pools as sets of pages\<close>

definition pool_size :: "pool \<Rightarrow> nat" where
  "pool_size p = unat (bit_cnt (used_map p))"

definition pool_wf :: "pool \<Rightarrow> bool" where
  "pool_wf p \<longleftrightarrow> bitmap_wf (used_map p) \<and> page_aligned (base p) \<and> is_kernel_vaddr (base p) \<and>
     unat (base p) + 4096 * pool_size p < 2 ^ 32"

text \<open>The page with index \<open>i\<close> of a pool, and the pages in use.\<close>

definition pool_page :: "pool \<Rightarrow> nat \<Rightarrow> u32" where
  "pool_page p i = base p + PGSIZE * of_nat i"

definition used_pages :: "pool \<Rightarrow> u32 set" where
  "used_pages p = pool_page p ` used_bits (used_map p)"

definition palloc_wf :: "palloc \<Rightarrow> bool" where
  "palloc_wf s \<longleftrightarrow> pool_wf (kernel_pool s) \<and> pool_wf (user_pool s) \<and>
     unat (base (kernel_pool s)) + 4096 * pool_size (kernel_pool s) \<le> unat (base (user_pool s))"

lemma unat_pool_page:
  assumes "pool_wf p" "i \<le> pool_size p"
  shows "unat (pool_page p i) = unat (base p) + 4096 * i"
proof -
  have i: "4096 * i < 2 ^ 32" and b: "unat (base p) + 4096 * i < 2 ^ 32"
    using assms by (simp_all add: pool_wf_def)
  have "unat (of_nat i :: u32) = i" using i by (simp add: unat_of_nat)
  then have "unat (PGSIZE * of_nat i) = 4096 * i" using i by (simp add: PGSIZE_val unat_mult_lem[THEN iffD1])
  then show ?thesis using b by (simp add: pool_page_def unat_add_le)
qed

lemma pool_page_inj: "pool_wf p \<Longrightarrow> inj_on (pool_page p) {..pool_size p}"
  by (rule inj_onI) (metis atMost_iff add_left_cancel mult_left_cancel unat_pool_page zero_neq_numeral)

lemma used_bits_lt: "i \<in> used_bits b \<Longrightarrow> i < unat (bit_cnt b)"
  by (simp add: used_bits_def)

lemma pool_page_props:
  assumes "pool_wf p" "i < pool_size p"
  shows "pg_ofs (pool_page p i) = 0" "is_kernel_vaddr (pool_page p i)" "pool_page p i \<noteq> 0"
    "unat (pg_no (pool_page p i)) = unat (pg_no (base p)) + i"
proof -
  have u: "unat (pool_page p i) = unat (base p) + 4096 * i" using assms by (simp add: unat_pool_page)
  have b: "unat (base p) mod 4096 = 0" "unat PHYS_BASE \<le> unat (base p)"
    using assms(1) by (simp_all add: pool_wf_def page_aligned_def word_unat_eq_iff unat_pg_ofs
        is_kernel_vaddr_def word_le_nat_alt)
  show "pg_ofs (pool_page p i) = 0" using b u by (simp add: word_unat_eq_iff unat_pg_ofs)
  show "is_kernel_vaddr (pool_page p i)" using b u by (simp add: is_kernel_vaddr_def word_le_nat_alt)
  show "unat (pg_no (pool_page p i)) = unat (pg_no (base p)) + i" using b u by (simp add: unat_pg_no)
  have "unat PHYS_BASE > 0" by (simp add: PHYS_BASE_def)
  then show "pool_page p i \<noteq> 0" using b(2) u by (metis add_is_0 le_zero_eq not_gr0 unat_0)
qed

lemma pool_page_upd [simp]: "pool_page (p\<lparr>used_map := b\<rparr>) = pool_page p"
  by (simp add: pool_page_def fun_eq_iff)

lemma pool_of_set [simp]: "pool_of u (set_pool v p s) = (if u = v then p else pool_of u s)"
  by (cases u; cases v; simp add: pool_of_def set_pool_def)

lemma ram_set_pool [simp]: "ram (set_pool u p s) = ram s" "set_pool u p (s\<lparr>ram := m\<rparr>) = (set_pool u p s)\<lparr>ram := m\<rparr>"
  by (simp_all add: set_pool_def)

lemma pool_of_ram [simp]: "pool_of u (s\<lparr>ram := m\<rparr>) = pool_of u s"
  by (simp add: pool_of_def)

lemma palloc_wf_pool: "palloc_wf s \<Longrightarrow> pool_wf (pool_of u s)"
  by (simp add: palloc_wf_def pool_of_def)

lemma palloc_wf_set:
  assumes "palloc_wf s" "bitmap_wf b" "bit_cnt b = bit_cnt (used_map (pool_of u s))"
  shows "palloc_wf ((set_pool u ((pool_of u s)\<lparr>used_map := b\<rparr>) s)\<lparr>ram := m\<rparr>)"
    "palloc_wf (set_pool u ((pool_of u s)\<lparr>used_map := b\<rparr>) s)"
  using assms by (cases u; simp add: palloc_wf_def pool_wf_def pool_of_def set_pool_def pool_size_def)+

lemma scan_bm_alloc:
  "bitmap_scan_and_flip b 0 n False = Inr (i, b') \<Longrightarrow>
   bm_alloc b n = Inr (if i \<noteq> BITMAP_ERROR then Some i else None, b')"
  by (simp add: bm_alloc_def)

text \<open>The two outcomes of an allocation.\<close>

lemma palloc_get_cases:
  assumes wf: "palloc_wf s" and n: "n \<noteq> 0" and u: "u = (flags AND PAL_USER \<noteq> 0)"
    and p: "p = pool_of u s"
  obtains (found) i b where "i + unat n \<le> pool_size p" "{i..<i + unat n} \<inter> used_bits (used_map p) = {}"
      "bitmap_wf b" "bit_cnt b = bit_cnt (used_map p)" "used_bits b = used_bits (used_map p) \<union> {i..<i + unat n}"
      "palloc_get_multiple flags n s = Inr (pool_page p i,
         let s' = set_pool u (p\<lparr>used_map := b\<rparr>) s
         in if flags AND PAL_ZERO \<noteq> 0 then s'\<lparr>ram := fill_pages (pool_page p i) n 0 (ram s)\<rparr> else s')"
  | (none) "\<forall>i. i + unat n \<le> pool_size p \<longrightarrow> {i..<i + unat n} \<inter> used_bits (used_map p) \<noteq> {}"
      "palloc_get_multiple flags n s =
         (if flags AND PAL_ASSERT \<noteq> 0 then Inl (Panic ''palloc_get: out of pages'') else Inr (0, s))"
proof -
  have pw: "pool_wf p" using wf p by (simp add: palloc_wf_pool)
  then have bw: "bitmap_wf (used_map p)" by (simp add: pool_wf_def)
  obtain j b where scan: "bitmap_scan_and_flip (used_map p) 0 n False = Inr (j, b)"
    using bitmap_scan_and_flip_abits[OF bw, of 0 n False]
    by (cases "ascan (abits (used_map p)) 0 (unat n) False") auto
  show ?thesis
  proof (cases "j = BITMAP_ERROR")
    case True
    note a = scan_bm_alloc[OF scan]
    have "b = used_map p" "\<forall>i. i + unat n \<le> pool_size p \<longrightarrow> {i..<i + unat n} \<inter> used_bits (used_map p) \<noteq> {}"
      using bm.alloc_None[OF bw, of n b] a True by (simp_all add: pool_size_def)
    moreover from this have "set_pool u (p\<lparr>used_map := b\<rparr>) s = s" using p by (simp add: set_pool_def pool_of_def)
    ultimately show ?thesis using none True scan n u p by (simp add: palloc_get_multiple_def)
  next
    case False
    note a = scan_bm_alloc[OF scan] and al = bm.alloc_Some[OF bw, of n j b]
    have 1: "unat j + unat n \<le> pool_size p" "{unat j..<unat j + unat n} \<inter> used_bits (used_map p) = {}"
      "used_bits b = used_bits (used_map p) \<union> {unat j..<unat j + unat n}"
      using al a False by (simp_all add: pool_size_def)
    have 2: "bitmap_wf b" "bit_cnt b = bit_cnt (used_map p)"
      using bm.alloc_keeps[OF bw a] by (simp_all add: word_unat_eq_iff)
    have pg: "base p + PGSIZE * j = pool_page p (unat j)" by (simp add: pool_page_def)
    have "unat n > 0" using n by (simp add: unat_gt_0)
    then have "pool_page p (unat j) \<noteq> 0" using pool_page_props(3)[OF pw] 1(1) by simp
    then show ?thesis
      using found[OF 1(1,2) 2 1(3)] False scan n u p pg by (simp add: palloc_get_multiple_def Let_def)
  qed
qed

lemma page_from_pool_iff:
  assumes "pool_wf p"
  shows "page_from_pool p a \<longleftrightarrow>
     unat (pg_no (base p)) \<le> unat (pg_no a) \<and> unat (pg_no a) < unat (pg_no (base p)) + pool_size p"
proof -
  have "unat (pg_no (base p)) + pool_size p < 2 ^ 32"
    using assms div_le_dividend[of "unat (base p)" 4096] unfolding pool_wf_def unat_pg_no by linarith
  then have "unat (pg_no (base p) + bit_cnt (used_map p)) = unat (pg_no (base p)) + pool_size p"
    by (simp add: unat_add_le pool_size_def)
  then show ?thesis
    by (simp add: page_from_pool_def Let_def bitmap_size_def word_le_nat_alt word_less_nat_alt)
qed

lemma page_from_pool_own: "pool_wf p \<Longrightarrow> i < pool_size p \<Longrightarrow> page_from_pool p (pool_page p i)"
  by (simp add: page_from_pool_iff pool_page_props)

lemma user_page_not_kernel:
  assumes "palloc_wf s" "i < pool_size (user_pool s)"
  shows "\<not> page_from_pool (kernel_pool s) (pool_page (user_pool s) i)"
proof -
  have "unat (pg_no (base (kernel_pool s))) + pool_size (kernel_pool s) \<le> unat (pg_no (base (user_pool s)))"
  proof -
    have "unat (base (kernel_pool s)) mod 4096 = 0"
      using assms(1) by (simp add: palloc_wf_def pool_wf_def page_aligned_def word_unat_eq_iff unat_pg_ofs)
    moreover have "(unat (base (kernel_pool s)) + 4096 * pool_size (kernel_pool s)) div 4096 \<le> unat (base (user_pool s)) div 4096"
      using assms(1) by (intro div_le_mono) (simp add: palloc_wf_def)
    ultimately show ?thesis by (simp add: unat_pg_no)
  qed
  moreover have "pool_wf (kernel_pool s)" "pool_wf (user_pool s)" using assms(1) by (simp_all add: palloc_wf_def)
  ultimately show ?thesis using assms(2) by (simp add: page_from_pool_iff pool_page_props)
qed

lemma palloc_free_ok:
  assumes wf: "palloc_wf s" and p: "p = pool_of u s" and n: "n \<noteq> 0"
    and i: "i + unat n \<le> pool_size p" "{i..<i + unat n} \<subseteq> used_bits (used_map p)"
  shows "\<exists>b. palloc_free_multiple (pool_page p i) n s
       = Inr ((set_pool u (p\<lparr>used_map := b\<rparr>) s)\<lparr>ram := fill_pages (pool_page p i) n 0xcccccccc (ram s)\<rparr>) \<and>
     bitmap_wf b \<and> bit_cnt b = bit_cnt (used_map p) \<and> used_bits b = used_bits (used_map p) - {i..<i + unat n}"
proof -
  have pw: "pool_wf p" using wf p by (simp add: palloc_wf_pool)
  then have bw: "bitmap_wf (used_map p)" by (simp add: pool_wf_def)
  have n0: "unat n > 0" using n by (simp add: unat_gt_0)
  then have lt: "i < pool_size p" using i(1) by simp
  note pg = pool_page_props[OF pw lt]
  have user: "(\<not> page_from_pool (kernel_pool s) (pool_page p i)) = u" "page_from_pool p (pool_page p i)"
    using user_page_not_kernel[OF wf] page_from_pool_own[OF pw lt] p lt
    by (cases u; simp add: pool_of_def)+
  define j where "j = pg_no (pool_page p i) - pg_no (base p)"
  have j: "unat j = i"
  proof -
    have "pg_no (base p) \<le> pg_no (pool_page p i)" using pg(4) by (simp add: word_le_nat_alt)
    then show ?thesis using pg(4) by (simp add: j_def unat_sub)
  qed
  have r: "unat j + unat n \<le> unat (bit_cnt (used_map p))" using i(1) j by (simp add: pool_size_def)
  have "False \<notin> set (brange (abits (used_map p)) i (unat n))"
  proof -
    have "abits (used_map p) ! k" if "i \<le> k" "k < i + unat n" for k
      using i(2) that by (auto simp: used_bits_def)
    then show ?thesis using r j by (auto simp: brange_def in_set_conv_nth)
  qed
  then have all: "bitmap_all (used_map p) j n = Inr True"
    using bitmap_contains_abits[OF bw r] j by (simp add: bitmap_all_def)
  obtain b where "bitmap_set_multiple (used_map p) j n False = Inr b" "bitmap_wf b"
      "bit_cnt b = bit_cnt (used_map p)" "used_bits b = used_bits (used_map p) - {i..<i + unat n}"
    using bm.release_ok[OF bw r] j by (auto simp: bm_release_def word_unat_eq_iff)
  moreover have "u \<longrightarrow> page_from_pool (user_pool s) (pool_page p i)"
    using user p by (cases u) (simp_all add: pool_of_def)
  ultimately show ?thesis
    using pg(1,3) n user all p by (auto simp: palloc_free_multiple_def Let_def j_def)
qed

lemma used_pages_disjoint:
  assumes "pool_wf p" "i + n \<le> pool_size p" "{i..<i + n} \<inter> used_bits (used_map p) = {}"
  shows "pool_page p ` {i..<i + n} \<inter> used_pages p = {}"
proof -
  have "{i..<i + n} \<subseteq> {..pool_size p}" "used_bits (used_map p) \<subseteq> {..pool_size p}"
    using assms(2) used_bits_lt by (auto simp: pool_size_def less_imp_le)
  then have "pool_page p ` ({i..<i + n} \<inter> used_bits (used_map p)) = pool_page p ` {i..<i + n} \<inter> used_pages p"
    using inj_on_image_Int[OF pool_page_inj[OF assms(1)]] by (simp add: used_pages_def)
  then show ?thesis using assms(3) by simp
qed

lemma used_pages_image:
  assumes "pool_wf p" "i + n \<le> pool_size p"
  shows "pool_page p ` (used_bits (used_map p) - {i..<i + n}) = used_pages p - pool_page p ` {i..<i + n}"
proof -
  have "{i..<i + n} \<subseteq> {..pool_size p}" "used_bits (used_map p) - {i..<i + n} \<subseteq> {..pool_size p}"
    using assms(2) used_bits_lt by (auto simp: pool_size_def less_imp_le)
  then show ?thesis using inj_on_image_set_diff[OF pool_page_inj[OF assms(1)]] by (simp add: used_pages_def)
qed

lemma used_pages_upd: "used_pages (p\<lparr>used_map := b\<rparr>) = pool_page p ` used_bits b"
  by (simp add: used_pages_def pool_page_def)

text \<open>One page: what the other components use.\<close>

lemma palloc_get_page_cases:
  assumes "palloc_wf s" "u = (flags AND PAL_USER \<noteq> 0)"
  obtains (page) pg s' where "palloc_get_page flags s = Inr (pg, s')" "palloc_wf s'"
      "pg \<noteq> 0" "pg_ofs pg = 0" "is_kernel_vaddr pg" "pg \<notin> used_pages (pool_of u s)"
      "used_pages (pool_of u s') = insert pg (used_pages (pool_of u s))" "pool_of (\<not> u) s' = pool_of (\<not> u) s"
      "pool_size (pool_of u s') = pool_size (pool_of u s)" "pool_page (pool_of u s') = pool_page (pool_of u s)"
      "ram s' = (if flags AND PAL_ZERO \<noteq> 0 then fill_pages pg 1 0 (ram s) else ram s)"
  | (none) "palloc_get_page flags s =
       (if flags AND PAL_ASSERT \<noteq> 0 then Inl (Panic ''palloc_get: out of pages'') else Inr (0, s))"
proof -
  have pw: "pool_wf (pool_of u s)" using assms(1) by (rule palloc_wf_pool)
  have one: "(1 :: u32) \<noteq> 0" by simp
  note no_page = none
  show ?thesis
  proof (cases rule: palloc_get_cases[OF assms(1) one assms(2) refl])
    case (1 i b)
    note found = 1
    have i: "{i..<i + unat (1 :: u32)} = {i}" "i < pool_size (pool_of u s)" using found(1) by auto
    show ?thesis
    proof (rule page)
      show "palloc_get_page flags s = Inr (pool_page (pool_of u s) i,
         let s' = set_pool u ((pool_of u s)\<lparr>used_map := b\<rparr>) s
         in if flags AND PAL_ZERO \<noteq> 0 then s'\<lparr>ram := fill_pages (pool_page (pool_of u s) i) 1 0 (ram s)\<rparr> else s')"
        using found(6) by (simp add: palloc_get_page_def)
      show "pool_page (pool_of u s) i \<notin> used_pages (pool_of u s)"
        using used_pages_disjoint[OF pw found(1,2)] i by auto
    qed (use pool_page_props[OF pw i(2)] palloc_wf_set[OF assms(1) found(3,4)] found(4,5) i in
        \<open>simp_all add: Let_def used_pages_upd used_pages_def pool_size_def\<close>)
  next
    case 2
    then show ?thesis using no_page by (simp add: palloc_get_page_def)
  qed
qed

section \<open>Initialisation\<close>

lemma unat_buf_size:
  assumes "unat c < 2 ^ 20"
  shows "unat (bitmap_buf_size c) = 8 + 4 * ((unat c + 31) div 32)"
proof -
  have "unat (elem_cnt c) = (unat c + 31) div 32" using assms by (intro unat_elem_cnt) simp
  then have "unat (byte_cnt c) = 4 * ((unat c + 31) div 32)" using unat_byte_cnt[of c] assms by simp
  then show ?thesis using assms unat_add_le[of 8 "byte_cnt c"] by (simp add: bitmap_buf_size_def)
qed

lemma bm_pages_ok:
  assumes "1 \<le> unat c" "unat c < 2 ^ 20"
  shows "unat (DIV_ROUND_UP (bitmap_buf_size c) PGSIZE) = (8 + 4 * ((unat c + 31) div 32) + 4095) div 4096"
    "unat (DIV_ROUND_UP (bitmap_buf_size c) PGSIZE) \<le> unat c"
proof -
  let ?s = "8 + 4 * ((unat c + 31) div 32)"
  have b: "(unat c + 31) div 32 \<le> unat c" "unat c \<le> 2 ^ 20" using assms by simp_all
  have "unat (bitmap_buf_size c + 4095) = ?s + 4095"
    using unat_buf_size[OF assms(2)] b unat_add_le[of "bitmap_buf_size c" 4095] by simp
  moreover have "bitmap_buf_size c + PGSIZE - 1 = bitmap_buf_size c + 4095" by (simp add: PGSIZE_val)
  ultimately show 2: "unat (DIV_ROUND_UP (bitmap_buf_size c) PGSIZE) = (?s + 4095) div 4096"
    by (simp only: DIV_ROUND_UP_def unat_div_distrib) (simp add: PGSIZE_val)
  have "8 + 4 * d + 4095 < 4096 * (unat c + 1)" if "d \<le> unat c" for d using assms(1) that by simp
  from this[OF b(1)] have "?s + 4095 < 4096 * (unat c + 1)" .
  then show "unat (DIV_ROUND_UP (bitmap_buf_size c) PGSIZE) \<le> unat c"
    unfolding 2 using less_mult_imp_div_less[of "?s + 4095" "unat c + 1" 4096] by simp
qed

lemma unat_BITMAP_ERROR: "unat BITMAP_ERROR = 4294967295"
  by (simp add: BITMAP_ERROR_def unsigned_minus_1_eq_mask mask_eq_exp_minus_1)

lemma used_bits_clear: "abits b = replicate n False \<Longrightarrow> used_bits b = {}"
  by (metis (mono_tags, lifting) Collect_empty_eq length_abits length_replicate nth_replicate used_bits_def)

lemma init_pool_ok:
  assumes "page_aligned b0" "is_kernel_vaddr b0" "1 \<le> unat c" "unat b0 + 4096 * unat c < 2 ^ 32"
  shows "\<exists>p. init_pool b0 c m = Inr p \<and> pool_wf p \<and> used_bits (used_map p) = {} \<and> unat b0 \<le> unat (base p) \<and>
           unat (base p) + 4096 * pool_size p = unat b0 + 4096 * unat c"
proof -
  let ?n = "DIV_ROUND_UP (bitmap_buf_size c) PGSIZE"
  have c: "unat c < 2 ^ 20" using assms(4) by simp
  note bm = bm_pages_ok[OF assms(3) c]
  have le: "?n \<le> c" "unat (c - ?n) = unat c - unat ?n" using bm(2) by (simp_all add: word_le_nat_alt unat_sub)
  have pg: "unat (?n * PGSIZE) = 4096 * unat ?n"
    using bm(2) c by (simp add: PGSIZE_val unat_mult_lem[THEN iffD1])
  have n1: "1 \<le> unat ?n" "8 + 4 * ((unat c + 31) div 32) \<le> 4096 * unat ?n" unfolding bm(1) by linarith+
  have buf: "bitmap_buf_size (c - ?n) \<le> ?n * PGSIZE"
  proof -
    have "(unat c - unat ?n + 31) div 32 \<le> (unat c + 31) div 32" by (rule div_le_mono) simp
    then show ?thesis
      using unat_buf_size[of "c - ?n"] n1(2) c by (simp add: word_le_nat_alt pg le(2))
  qed
  have "\<exists>b. bitmap_create_in_buf (c - ?n) (map (\<lambda>i. m (b0 + 4 * of_nat i)) [0..<unat ?n * 1024]) (?n * PGSIZE) = Inr b
     \<and> bitmap_wf b \<and> bit_cnt b = c - ?n \<and> abits b = replicate (unat (c - ?n)) False"
  proof (rule bitmap_create_in_buf_abits[OF _ _ buf])
    show "c - ?n \<noteq> BITMAP_ERROR" using le(2) c unat_BITMAP_ERROR by auto
    show "unat (c - ?n) \<le> 32 * (length (map (\<lambda>i. m (b0 + 4 * of_nat i)) [0..<unat ?n * 1024]) - 2)"
      using le(2) n1 by simp
  qed
  then obtain b where b: "bitmap_create_in_buf (c - ?n) (map (\<lambda>i. m (b0 + 4 * of_nat i)) [0..<unat ?n * 1024]) (?n * PGSIZE) = Inr b"
    "bitmap_wf b" "bit_cnt b = c - ?n" "abits b = replicate (unat (c - ?n)) False" by blast
  have base: "unat (b0 + ?n * PGSIZE) = unat b0 + 4096 * unat ?n"
    using pg bm(2) assms(4) by (simp add: unat_add_le)
  then have "pool_wf \<lparr>used_map = b, base = b0 + ?n * PGSIZE\<rparr>"
    using assms b le bm(2) by (auto simp: pool_wf_def pool_size_def page_aligned_def word_unat_eq_iff unat_pg_ofs
        is_kernel_vaddr_def word_le_nat_alt)
  then show ?thesis
    using b le bm(2) base used_bits_clear[OF b(4)]
    by (intro exI[of _ "\<lparr>used_map = b, base = b0 + ?n * PGSIZE\<rparr>"])
      (auto simp: init_pool_def Let_def pool_size_def not_less)
qed

lemma unat_pages: "unat k < 2 ^ 20 \<Longrightarrow> unat (k * PGSIZE) = 4096 * unat k"
  by (simp add: PGSIZE_val unat_mult_lem[THEN iffD1])

lemma palloc_init_ok:
  assumes n: "258 \<le> unat n" "unat n < 2 ^ 18" and lim: "1 \<le> unat lim"
  shows "\<exists>s. palloc_init n lim m = Inr s \<and> palloc_wf s \<and> used_pages (kernel_pool s) = {} \<and>
           used_pages (user_pool s) = {} \<and> ram s = m"
proof -
  define up where "up = (if (n - 256) div 2 > lim then lim else (n - 256) div 2)"
  define kp where "kp = n - 256 - up"
  have n256: "unat (n - 256) = unat n - 256" using n(1) by (simp add: unat_sub word_le_nat_alt)
  then have half: "unat ((n - 256) div 2) = (unat n - 256) div 2" by (simp add: unat_div_distrib)
  have up: "1 \<le> unat up" "unat up \<le> (unat n - 256) div 2"
    using lim half n by (auto simp: up_def word_less_nat_alt)
  have kp: "unat kp = unat n - 256 - unat up"
    using up(2) n256 by (simp add: kp_def unat_sub word_le_nat_alt)
  then have kp1: "1 \<le> unat kp" "unat kp + unat up = unat n - 256" using up n by linarith+
  have lt: "unat kp < 261888" "unat kp + unat up < 261888" using kp1(2) n by simp_all
  have start: "ptov (1024 * 1024) = Inr 0xc0100000" by (simp add: ptov_def PHYS_BASE_def)
  have np: "unat (n * PGSIZE) = 4096 * unat n" using n by (intro unat_pages) simp
  have fin: "ptov (n * PGSIZE) = Inr (n * PGSIZE + PHYS_BASE)"
    using np n by (simp add: ptov_def word_less_nat_alt PHYS_BASE_def)
  have fp: "(n * PGSIZE + PHYS_BASE - 0xc0100000) div PGSIZE = n - 256"
  proof -
    have "n * PGSIZE + PHYS_BASE - 0xc0100000 = (n - 256) * PGSIZE"
      by (simp add: PHYS_BASE_def PGSIZE_val algebra_simps)
    moreover have "unat ((n - 256) * PGSIZE) = 4096 * (unat n - 256)"
      using n n256 unat_pages[of "n - 256"] by simp
    ultimately show ?thesis by (simp add: word_unat_eq_iff unat_div_distrib n256) (simp add: PGSIZE_val)
  qed
  obtain k where k: "init_pool 0xc0100000 kp m = Inr k" "pool_wf k" "used_bits (used_map k) = {}"
      "unat (base k) + 4096 * pool_size k = 0xc0100000 + 4096 * unat kp"
    using init_pool_ok[of "0xc0100000" kp m] kp1(1) lt(1)
    by (auto simp: page_aligned_def word_unat_eq_iff unat_pg_ofs is_kernel_vaddr_def PHYS_BASE_def)
  have kb: "unat (0xc0100000 + kp * PGSIZE) = 0xc0100000 + 4096 * unat kp"
  proof -
    have "unat (kp * PGSIZE) = 4096 * unat kp" using kp1(2) n by (intro unat_pages) simp
    then show ?thesis using kp1(2) n unat_add_le[of "0xc0100000" "kp * PGSIZE"] by simp
  qed
  obtain u where u: "init_pool (0xc0100000 + kp * PGSIZE) up m = Inr u" "pool_wf u" "used_bits (used_map u) = {}"
      "unat (0xc0100000 + kp * PGSIZE) \<le> unat (base u)"
    using init_pool_ok[of "0xc0100000 + kp * PGSIZE" up m] kb lt(2) up(1)
    by (auto simp: page_aligned_def word_unat_eq_iff unat_pg_ofs is_kernel_vaddr_def PHYS_BASE_def word_le_nat_alt)
  show ?thesis
    using start fin fp k u kb
    by (simp add: palloc_init_def Let_def up_def[symmetric] kp_def[symmetric] palloc_wf_def used_pages_def)
qed

section \<open>Properties\<close>

text \<open>C34.  \<open>palloc_get_multiple\<close> returns a run of pages of the selected pool, all of them free before
  and in use afterwards, filled with zeros if that was asked for; if there is no such run it
  panics or returns the null pointer and changes nothing, as the flags say.\<close>

theorem palloc_get_multiple_correct:
  assumes "palloc_wf s" "n \<noteq> 0" "u = (flags AND PAL_USER \<noteq> 0)" "p = pool_of u s"
  shows "(\<exists>i s'. palloc_get_multiple flags n s = Inr (pool_page p i, s') \<and> palloc_wf s' \<and>
            i + unat n \<le> pool_size p \<and> pool_page p ` {i..<i + unat n} \<inter> used_pages p = {} \<and>
            used_pages (pool_of u s') = used_pages p \<union> pool_page p ` {i..<i + unat n} \<and>
            ram s' = (if flags AND PAL_ZERO \<noteq> 0 then fill_pages (pool_page p i) n 0 (ram s) else ram s)) \<or>
         (\<forall>i. i + unat n \<le> pool_size p \<longrightarrow> pool_page p ` {i..<i + unat n} \<inter> used_pages p \<noteq> {}) \<and>
          palloc_get_multiple flags n s =
            (if flags AND PAL_ASSERT \<noteq> 0 then Inl (Panic ''palloc_get: out of pages'') else Inr (0, s))"
proof (cases rule: palloc_get_cases[OF assms])
  case (1 i b)
  have pw: "pool_wf p" using assms by (simp add: palloc_wf_pool)
  show ?thesis
    using 1 used_pages_disjoint[OF pw 1(1,2)] palloc_wf_set[OF assms(1), of b u] assms(4)
    by (intro disjI1 exI[of _ i]) (auto simp: Let_def used_pages_upd used_pages_def image_Un)
next
  case 2
  have "pool_page p ` A \<inter> used_pages p \<noteq> {}" if "A \<inter> used_bits (used_map p) \<noteq> {}" for A
    using that by (auto simp: used_pages_def)
  then show ?thesis using 2 by (intro disjI2) auto
qed

text \<open>A pool pair for the witnesses: two kernel pages, the first one in use, and one user page.\<close>

definition wpalloc :: palloc where
  "wpalloc = \<lparr>kernel_pool = \<lparr>used_map = \<lparr>bit_cnt = 2, bits = [1]\<rparr>, base = 0xc0101000\<rparr>,
     user_pool = \<lparr>used_map = \<lparr>bit_cnt = 1, bits = [0]\<rparr>, base = 0xc0105000\<rparr>, ram = (\<lambda>_. 7)\<rparr>"

lemma wpalloc_wf: "palloc_wf wpalloc"
  by (simp add: wpalloc_def palloc_wf_def pool_wf_def pool_size_def bitmap_wf_def unat_BITMAP_ERROR
      page_aligned_def word_unat_eq_iff unat_pg_ofs is_kernel_vaddr_def PHYS_BASE_def)

lemma wpalloc_scan: "bitmap_scan_and_flip \<lparr>bit_cnt = 2, bits = [1]\<rparr> 0 1 False = Inr (1, \<lparr>bit_cnt = 2, bits = [3]\<rparr>)"
  by code_simp

lemma wpalloc_get: "\<exists>s'. palloc_get_multiple PAL_ZERO 1 wpalloc = Inr (0xc0102000, s')"
  by (simp add: palloc_get_multiple_def wpalloc_def PAL_USER_def PAL_ZERO_def pool_of_def Let_def wpalloc_scan
      BITMAP_ERROR_def PGSIZE_val)

theorem palloc_get_multiple_correct_witness:
  "palloc_wf wpalloc \<and> (\<exists>i s'. palloc_get_multiple PAL_ZERO 1 wpalloc = Inr (pool_page (kernel_pool wpalloc) i, s') \<and>
     palloc_wf s' \<and> ram s' = fill_pages (pool_page (kernel_pool wpalloc) i) 1 0 (\<lambda>_. 7))"
proof -
  have "ram wpalloc = (\<lambda>_. 7)" by (simp add: wpalloc_def)
  then show ?thesis
    using palloc_get_multiple_correct[OF wpalloc_wf _ _ refl, of 1 False PAL_ZERO] wpalloc_get wpalloc_wf
    by (auto simp: PAL_USER_def PAL_ZERO_def PAL_ASSERT_def pool_of_def)
qed

text \<open>C21.  Freeing a run of pages that is in use makes exactly these pages free; in particular pages
  just allocated are given back and the pools are as before.\<close>

theorem palloc_free_multiple_correct:
  assumes "palloc_wf s" "p = pool_of u s" "n \<noteq> 0" "i + unat n \<le> pool_size p"
    and "{i..<i + unat n} \<subseteq> used_bits (used_map p)"
  shows "\<exists>s'. palloc_free_multiple (pool_page p i) n s = Inr s' \<and> palloc_wf s' \<and>
           used_pages (pool_of u s') = used_pages p - pool_page p ` {i..<i + unat n} \<and>
           pool_of (\<not> u) s' = pool_of (\<not> u) s"
proof -
  obtain b where b: "palloc_free_multiple (pool_page p i) n s
      = Inr ((set_pool u (p\<lparr>used_map := b\<rparr>) s)\<lparr>ram := fill_pages (pool_page p i) n 0xcccccccc (ram s)\<rparr>)"
    "bitmap_wf b" "bit_cnt b = bit_cnt (used_map p)" "used_bits b = used_bits (used_map p) - {i..<i + unat n}"
    using palloc_free_ok[OF assms] by blast
  have "pool_wf p" using assms(1,2) by (simp add: palloc_wf_pool)
  then show ?thesis
    using b palloc_wf_set[OF assms(1), of b u] assms(2) used_pages_image[of p i "unat n"] assms(4)
    by (simp add: used_pages_upd)
qed

theorem palloc_free_multiple_correct_witness:
  "\<exists>s'. palloc_free_multiple (pool_page (kernel_pool wpalloc) 0) 1 wpalloc = Inr s' \<and>
     used_pages (kernel_pool s') = used_pages (kernel_pool wpalloc) - {pool_page (kernel_pool wpalloc) 0}"
proof -
  have "0 \<in> used_bits (used_map (kernel_pool wpalloc))" "0 + unat (1 :: u32) \<le> pool_size (kernel_pool wpalloc)"
    by (simp_all add: wpalloc_def used_bits_def abits_def pool_size_def)
  then show ?thesis
    using palloc_free_multiple_correct[OF wpalloc_wf, of "kernel_pool wpalloc" False 1 0] by (auto simp: pool_of_def)
qed

text \<open>On a machine with at least 258 and fewer than \<open>2 ^ 18\<close> pages of memory and a user limit
  of at least one page, \<open>palloc_init\<close> returns two well-formed, disjoint pools with no page in use.\<close>

theorem palloc_init_correct:
  assumes "258 \<le> unat init_ram_pages" "unat init_ram_pages < 2 ^ 18" "1 \<le> unat user_page_limit"
  shows "\<exists>s. palloc_init init_ram_pages user_page_limit m = Inr s \<and> palloc_wf s \<and>
           used_pages (kernel_pool s) = {} \<and> used_pages (user_pool s) = {}"
  using palloc_init_ok[OF assms] by blast

theorem palloc_init_correct_witness:
  "\<exists>s. palloc_init 1024 0xffffffff (\<lambda>_. 0) = Inr s \<and> palloc_wf s \<and> used_pages (kernel_pool s) = {}"
  using palloc_init_correct[of 1024 "0xffffffff" "\<lambda>_. 0"] by auto

end
