(* ===== verification/Thread.thy ===== *)
theory Thread
  imports Klist_Sort Palloc
begin

text \<open>
  Threads and the scheduler: \<open>src/threads/thread.c\<close>, with the interrupt level of
  \<open>src/threads/interrupt.c\<close> and \<open>process_activate\<close> of \<open>src/userprog/process.c\<close>.

  The state of the kernel is a record.  A thread is designated by the address of its page;
  \<open>thr\<close> gives the \<open>struct thread\<close> stored there, and a thread that has been destroyed has none.
  The run queue, the list of all threads, the lists of children and the lists of waiters are
  lists of thread addresses: theories \<open>Klist_Rep\<close> and \<open>Klist_Sort\<close> relate the linked lists of the
  source to HOL lists, \<open>list_insert_ordered\<close> to \<open>ins_ordered\<close>.  The assembler
  routine \<open>switch_threads\<close> makes the next thread the running one; the thread that is resumed
  returns from its own call of \<open>switch_threads\<close>, so one run of \<open>schedule\<close> here is the first half
  of the call of one thread and the second half of the call of the other.

  The lock of \<open>allocate_tid\<close> is not taken: the counter is read and incremented in one step.
  The member \<open>threadBlock\<close> of \<open>struct thread\<close> is left out: no code initialises or uses it.
\<close>

section \<open>The state\<close>

datatype tstatus = THREAD_RUNNING | THREAD_READY | THREAD_BLOCKED | THREAD_DYING

type_synonym tptr = u32

text \<open>Semaphores: those inside a \<open>struct thread\<close>, those of locks and of waiters on conditions,
  and others, by their address.\<close>

datatype sema_ref = Wait_block tptr | Parent_block tptr | Exec_block tptr
  | Lock_sema nat | Cond_sema nat | Sema nat

record semaphore =
  sem_value :: u32
  waiters :: "tptr list"

record thread =
  tid :: int
  status :: tstatus
  tname :: "u8 list"
  stack :: u32
  priority :: int
  original_priority :: int
  locksAq :: "nat list"
  lockWait :: nat
  semWait :: nat
  file_pointers :: "nat list"
  fd_index :: int
  parent :: tptr
  children :: "tptr list"
  save :: nat
  exit_status :: int
  load :: int
  current_dir :: nat
  conWait :: nat
  pagedir :: u32
  ticks :: int
  magic :: u32

record kernel =
  thr :: "tptr \<Rightarrow> thread option"
  ready_list :: "tptr list"
  all_list :: "tptr list"
  idle_thread :: tptr
  initial_thread :: tptr
  running :: tptr
  intr_on :: bool
  in_external_intr :: bool
  yield_on_return :: bool
  idle_ticks :: int
  kernel_ticks :: int
  user_ticks :: int
  thread_ticks :: u32
  next_tid :: int
  tail_priority :: int
  init_page_dir :: u32
  active_pd :: u32
  esp0 :: u32
  semas :: "sema_ref \<Rightarrow> semaphore"
  holder :: "nat \<Rightarrow> tptr"
  conds :: "nat \<Rightarrow> nat list"
  pal :: palloc

definition THREAD_MAGIC :: u32 where "THREAD_MAGIC = 0xcd6abf4b"
abbreviation (input) TID_ERROR :: int where "TID_ERROR \<equiv> -1"
abbreviation (input) PRI_MIN :: int where "PRI_MIN \<equiv> 0"
abbreviation (input) PRI_DEFAULT :: int where "PRI_DEFAULT \<equiv> 31"
abbreviation (input) PRI_MAX :: int where "PRI_MAX \<equiv> 63"
abbreviation (input) TIME_SLICE :: u32 where "TIME_SLICE \<equiv> 4"

text \<open>Access to the \<open>struct thread\<close> at an address.\<close>

definition get_thr :: "tptr \<Rightarrow> kernel \<Rightarrow> thread res" where
  "get_thr t k = (case thr k t of None \<Rightarrow> Inl Bad_access | Some th \<Rightarrow> Inr th)"

definition set_thr :: "tptr \<Rightarrow> (thread \<Rightarrow> thread) \<Rightarrow> kernel \<Rightarrow> kernel" where
  "set_thr t f k = k\<lparr>thr := (thr k)(t := map_option f (thr k t))\<rparr>"

section \<open>Interrupt level\<close>

definition intr_get_level :: "kernel \<Rightarrow> bool" where
  "intr_get_level k = intr_on k"

definition intr_context :: "kernel \<Rightarrow> bool" where
  "intr_context k = in_external_intr k"

definition intr_enable :: "kernel \<Rightarrow> (bool \<times> kernel) res" where
  "intr_enable k = ebind (kassert (\<not> intr_context k)) (\<lambda>_. Inr (intr_get_level k, k\<lparr>intr_on := True\<rparr>))"

definition intr_disable :: "kernel \<Rightarrow> bool \<times> kernel" where
  "intr_disable k = (intr_get_level k, k\<lparr>intr_on := False\<rparr>)"

definition intr_set_level :: "bool \<Rightarrow> kernel \<Rightarrow> kernel res" where
  "intr_set_level level k =
     (if level then ebind (intr_enable k) (\<lambda>(_, k). Inr k) else Inr (snd (intr_disable k)))"

definition intr_yield_on_return :: "kernel \<Rightarrow> kernel res" where
  "intr_yield_on_return k =
     ebind (kassert (intr_context k)) (\<lambda>_. Inr (k\<lparr>yield_on_return := True\<rparr>))"

section \<open>Scheduling\<close>

definition is_thread :: "tptr \<Rightarrow> kernel \<Rightarrow> bool res" where
  "is_thread t k = (if t = 0 then Inr False else ebind (get_thr t k) (\<lambda>th. Inr (magic th = THREAD_MAGIC)))"

definition running_thread :: "kernel \<Rightarrow> tptr" where
  "running_thread k = running k"

definition thread_current :: "kernel \<Rightarrow> tptr res" where
  "thread_current k =
     (let t = running_thread k
      in ebind (is_thread t k) (\<lambda>b. ebind (kassert b) (\<lambda>_.
         ebind (get_thr t k) (\<lambda>th. ebind (kassert (status th = THREAD_RUNNING)) (\<lambda>_. Inr t)))))"

definition cur_thr :: "kernel \<Rightarrow> thread res" where
  "cur_thr k = ebind (thread_current k) (\<lambda>t. get_thr t k)"

text \<open>\<open>prioritycmp\<close> compares the priorities of the threads that two elements belong to.\<close>

definition prio :: "kernel \<Rightarrow> tptr \<Rightarrow> int" where
  "prio k t = (case thr k t of None \<Rightarrow> 0 | Some th \<Rightarrow> priority th)"

definition prioritycmp :: "kernel \<Rightarrow> tptr \<Rightarrow> tptr \<Rightarrow> bool" where
  "prioritycmp k a b = (if prio k a \<le> prio k b then False else True)"

definition next_thread_to_run :: "kernel \<Rightarrow> tptr \<times> kernel" where
  "next_thread_to_run k =
     (case ready_list k of [] \<Rightarrow> (idle_thread k, k) | t # ts \<Rightarrow> (t, k\<lparr>ready_list := ts\<rparr>))"

definition process_activate :: "kernel \<Rightarrow> kernel res" where
  "process_activate k =
     ebind (thread_current k) (\<lambda>t. ebind (get_thr t k) (\<lambda>th.
     Inr (k\<lparr>active_pd := (if pagedir th = 0 then init_page_dir k else pagedir th), esp0 := t + PGSIZE\<rparr>)))"

definition thread_schedule_tail :: "tptr \<Rightarrow> kernel \<Rightarrow> kernel res" where
  "thread_schedule_tail prev k =
     (let cur = running_thread k
      in ebind (kassert (\<not> intr_get_level k)) (\<lambda>_.
         let k = (set_thr cur (\<lambda>th. th\<lparr>status := THREAD_RUNNING\<rparr>) k)\<lparr>thread_ticks := 0\<rparr>
         in ebind (process_activate k) (\<lambda>k.
            if prev = 0 then Inr k
            else ebind (get_thr prev k) (\<lambda>th.
                 if status th = THREAD_DYING \<and> prev \<noteq> initial_thread k
                 then ebind (kassert (prev \<noteq> cur)) (\<lambda>_.
                      ebind (palloc_free_page prev (pal k)) (\<lambda>p.
                      Inr (k\<lparr>thr := (thr k)(prev := None), pal := p\<rparr>)))
                 else Inr k))))"

definition schedule :: "kernel \<Rightarrow> kernel res" where
  "schedule k =
     (let cur = running_thread k;
          (next, k) = next_thread_to_run k
      in ebind (kassert (\<not> intr_get_level k)) (\<lambda>_.
         ebind (get_thr cur k) (\<lambda>c. ebind (kassert (status c \<noteq> THREAD_RUNNING)) (\<lambda>_.
         ebind (is_thread next k) (\<lambda>b. ebind (kassert b) (\<lambda>_.
         let (prev, k) = (if cur \<noteq> next then (cur, k\<lparr>running := next\<rparr>) else (0, k))
         in thread_schedule_tail prev k))))))"

definition thread_block :: "kernel \<Rightarrow> kernel res" where
  "thread_block k =
     ebind (kassert (\<not> intr_context k)) (\<lambda>_. ebind (kassert (\<not> intr_get_level k)) (\<lambda>_.
     ebind (thread_current k) (\<lambda>t. schedule (set_thr t (\<lambda>th. th\<lparr>status := THREAD_BLOCKED\<rparr>) k))))"

definition thread_unblock :: "tptr \<Rightarrow> kernel \<Rightarrow> kernel res" where
  "thread_unblock t k =
     ebind (is_thread t k) (\<lambda>b. ebind (kassert b) (\<lambda>_.
     let (old_level, k) = intr_disable k
     in ebind (get_thr t k) (\<lambda>th. ebind (kassert (status th = THREAD_BLOCKED)) (\<lambda>_.
        let k = k\<lparr>ready_list := ins_ordered (prioritycmp k) t (ready_list k)\<rparr>;
            k = set_thr t (\<lambda>th. th\<lparr>status := THREAD_READY\<rparr>) k
        in intr_set_level old_level k))))"

text \<open>\<open>thread_yield\<close>.  With an empty run queue, \<open>list_begin\<close> is the sentinel at the end, which is
  not part of a thread: \<open>tail_priority\<close> is whatever the memory there reads as a priority.  The
  result is \<open>None\<close> if the call returned at once, and \<open>Some old_level\<close> if it went through
  \<open>schedule\<close>: then the caller finishes with \<open>intr_set_level old_level\<close> when it runs again.\<close>

definition first_priority :: "kernel \<Rightarrow> int res" where
  "first_priority k =
     (case ready_list k of [] \<Rightarrow> Inr (tail_priority k) | t # _ \<Rightarrow> ebind (get_thr t k) (\<lambda>th. Inr (priority th)))"

definition thread_yield :: "kernel \<Rightarrow> (bool option \<times> kernel) res" where
  "thread_yield k =
     ebind (cur_thr k) (\<lambda>c. ebind (first_priority k) (\<lambda>p.
     if priority c > p then Inr (None, k)
     else
       let cur = running_thread k
       in ebind (kassert (\<not> intr_context k)) (\<lambda>_.
          let (old_level, k) = intr_disable k;
              k = (if cur \<noteq> idle_thread k
                   then k\<lparr>ready_list := ins_ordered (prioritycmp k) cur (ready_list k)\<rparr> else k);
              k = set_thr cur (\<lambda>th. th\<lparr>status := THREAD_READY\<rparr>) k
          in ebind (schedule k) (\<lambda>k. Inr (Some old_level, k)))))"

definition thread_set_priority :: "int \<Rightarrow> kernel \<Rightarrow> (bool option \<times> kernel) res" where
  "thread_set_priority new_priority k =
     ebind (thread_current k) (\<lambda>t. ebind (get_thr t k) (\<lambda>th.
     let k = (if locksAq th = [] then set_thr t (\<lambda>th. th\<lparr>priority := new_priority\<rparr>) k else k);
         k = set_thr t (\<lambda>th. th\<lparr>original_priority := new_priority\<rparr>) k
     in thread_yield k))"

definition thread_get_priority :: "kernel \<Rightarrow> int res" where
  "thread_get_priority k = ebind (cur_thr k) (\<lambda>th. Inr (priority th))"

definition thread_name :: "kernel \<Rightarrow> u8 list res" where
  "thread_name k = ebind (cur_thr k) (\<lambda>th. Inr (tname th))"

definition thread_tid :: "kernel \<Rightarrow> int res" where
  "thread_tid k = ebind (cur_thr k) (\<lambda>th. Inr (tid th))"

definition thread_set_nice :: "int \<Rightarrow> kernel \<Rightarrow> kernel" where
  "thread_set_nice nice k = k"

definition thread_get_nice :: "kernel \<Rightarrow> int" where
  "thread_get_nice k = 0"

definition thread_get_load_avg :: "kernel \<Rightarrow> int" where
  "thread_get_load_avg k = 0"

definition thread_get_recent_cpu :: "kernel \<Rightarrow> int" where
  "thread_get_recent_cpu k = 0"

definition thread_tick :: "kernel \<Rightarrow> kernel res" where
  "thread_tick k =
     ebind (thread_current k) (\<lambda>t. ebind (get_thr t k) (\<lambda>th.
     let k = (if t = idle_thread k then k\<lparr>idle_ticks := idle_ticks k + 1\<rparr>
              else if pagedir th \<noteq> 0 then k\<lparr>user_ticks := user_ticks k + 1\<rparr>
              else k\<lparr>kernel_ticks := kernel_ticks k + 1\<rparr>);
         k = k\<lparr>thread_ticks := thread_ticks k + 1\<rparr>
     in if thread_ticks k \<ge> TIME_SLICE then intr_yield_on_return k else Inr k))"

section \<open>Creation and termination\<close>

text \<open>\<open>list_init\<close> and \<open>sema_init\<close> of the semaphores of a thread.\<close>

definition sema_init :: "sema_ref \<Rightarrow> u32 \<Rightarrow> kernel \<Rightarrow> kernel" where
  "sema_init sema v k = k\<lparr>semas := (semas k)(sema := \<lparr>sem_value = v, waiters = []\<rparr>)\<rparr>"

definition init_thread :: "tptr \<Rightarrow> u8 list \<Rightarrow> int \<Rightarrow> kernel \<Rightarrow> kernel res" where
  "init_thread t name pri k =
     ebind (kassert (t \<noteq> 0)) (\<lambda>_. ebind (kassert (PRI_MIN \<le> pri \<and> pri \<le> PRI_MAX)) (\<lambda>_.
     let th = \<lparr>tid = 0, status = THREAD_BLOCKED, tname = take 15 name, stack = t + PGSIZE,
               priority = pri, original_priority = pri, locksAq = [], lockWait = 0, semWait = 0,
               file_pointers = replicate 130 0, fd_index = 2, parent = 0, children = [], save = 0, exit_status = -1,
               load = 1, current_dir = 0, conWait = 0, pagedir = 0, ticks = 0, magic = THREAD_MAGIC\<rparr>;
         k = k\<lparr>thr := (thr k)(t \<mapsto> th), all_list := all_list k @ [t]\<rparr>;
         k = sema_init (Wait_block t) 0 k;
         k = sema_init (Parent_block t) 0 k;
         k = sema_init (Exec_block t) 0 k
     in Inr k))"

definition allocate_tid :: "kernel \<Rightarrow> int \<times> kernel" where
  "allocate_tid k = (next_tid k, k\<lparr>next_tid := next_tid k + 1\<rparr>)"

definition lock_init :: "nat \<Rightarrow> kernel \<Rightarrow> kernel" where
  "lock_init l k = sema_init (Lock_sema l) 1 (k\<lparr>holder := (holder k)(l := 0)\<rparr>)"

text \<open>Lock 0 is \<open>tid_lock\<close>.\<close>

definition thread_init :: "kernel \<Rightarrow> kernel res" where
  "thread_init k =
     ebind (kassert (\<not> intr_get_level k)) (\<lambda>_.
     let k = lock_init 0 k;
         t = running_thread k;
         k = k\<lparr>ready_list := [], all_list := [], initial_thread := t\<rparr>
     in ebind (init_thread t (map (of_nat \<circ> of_char) ''main'') PRI_DEFAULT k) (\<lambda>k.
        let k = set_thr t (\<lambda>th. th\<lparr>status := THREAD_RUNNING\<rparr>) k;
            (i, k) = allocate_tid k
        in Inr (set_thr t (\<lambda>th. th\<lparr>tid := i\<rparr>) k)))"

definition alloc_frame :: "tptr \<Rightarrow> u32 \<Rightarrow> kernel \<Rightarrow> (u32 \<times> kernel) res" where
  "alloc_frame t sz k =
     ebind (is_thread t k) (\<lambda>b. ebind (kassert b) (\<lambda>_. ebind (kassert (sz mod 4 = 0)) (\<lambda>_.
     ebind (get_thr t k) (\<lambda>th.
     Inr (stack th - sz, set_thr t (\<lambda>th. th\<lparr>stack := stack th - sz\<rparr>) k)))))"

text \<open>A word store in a stack frame.\<close>

definition poke :: "u32 \<Rightarrow> u32 \<Rightarrow> kernel \<Rightarrow> kernel" where
  "poke a v k = k\<lparr>pal := (pal k)\<lparr>ram := (ram (pal k))(a := v)\<rparr>\<rparr>"

text \<open>\<open>thread_create\<close>; \<open>kernel_thread\<close> and \<open>switch_entry\<close> are the addresses of these routines.\<close>

definition thread_create ::
  "u32 \<Rightarrow> u32 \<Rightarrow> u8 list \<Rightarrow> int \<Rightarrow> u32 \<Rightarrow> u32 \<Rightarrow> kernel \<Rightarrow> (int \<times> kernel) res" where
  "thread_create kernel_thread switch_entry name pri function aux k =
     ebind (kassert (function \<noteq> 0)) (\<lambda>_.
     ebind (palloc_get_page PAL_ZERO (pal k)) (\<lambda>(t, p).
     let k = k\<lparr>pal := p\<rparr>
     in if t = 0 then Inr (TID_ERROR, k)
        else ebind (init_thread t name pri k) (\<lambda>k.
             let (i, k) = allocate_tid k;
                 k = set_thr t (\<lambda>th. th\<lparr>tid := i\<rparr>) k
             in ebind (thread_current k) (\<lambda>cur.
                let k = set_thr t (\<lambda>th. th\<lparr>parent := cur\<rparr>) k;
                    k = set_thr cur (\<lambda>th. th\<lparr>children := children th @ [t]\<rparr>) k;
                    (old_level, k) = intr_disable k
                in ebind (alloc_frame t 12 k) (\<lambda>(kf, k).
                   let k = poke (kf + 8) aux (poke (kf + 4) function (poke kf 0 k))
                   in ebind (alloc_frame t 4 k) (\<lambda>(ef, k).
                      let k = poke ef kernel_thread k
                      in ebind (alloc_frame t 28 k) (\<lambda>(sf, k).
                         let k = poke (sf + 8) 0 (poke (sf + 16) switch_entry k)
                         in ebind (intr_set_level old_level k) (\<lambda>k.
                            ebind (thread_unblock t k) (\<lambda>k. Inr (i, k))))))))))"

text \<open>\<open>thread_exit\<close>; \<open>process_exit\<close> is the operation of \<open>src/userprog/process.c\<close>.\<close>

definition thread_exit :: "(kernel \<Rightarrow> kernel res) \<Rightarrow> kernel \<Rightarrow> kernel res" where
  "thread_exit process_exit k =
     ebind (kassert (\<not> intr_context k)) (\<lambda>_. ebind (process_exit k) (\<lambda>k.
     let (_, k) = intr_disable k
     in ebind (thread_current k) (\<lambda>t.
        schedule (set_thr t (\<lambda>th. th\<lparr>status := THREAD_DYING\<rparr>)
          (k\<lparr>all_list := remove1 t (all_list k)\<rparr>)))))"

fun find_tid :: "int \<Rightarrow> tptr list \<Rightarrow> kernel \<Rightarrow> tptr res" where
  "find_tid i [] k = Inr 0"
| "find_tid i (t # ts) k = ebind (get_thr t k) (\<lambda>th. if i = tid th then Inr t else find_tid i ts k)"

definition get_thread_tid :: "int \<Rightarrow> kernel \<Rightarrow> tptr res" where
  "get_thread_tid i k = ebind (thread_current k) (\<lambda>_. find_tid i (all_list k) k)"

fun foreach_loop :: "(tptr \<Rightarrow> kernel \<Rightarrow> kernel res) \<Rightarrow> tptr list \<Rightarrow> kernel \<Rightarrow> kernel res" where
  "foreach_loop func [] k = Inr k"
| "foreach_loop func (t # ts) k = ebind (func t k) (\<lambda>k. foreach_loop func ts k)"

definition thread_foreach :: "(tptr \<Rightarrow> kernel \<Rightarrow> kernel res) \<Rightarrow> kernel \<Rightarrow> kernel res" where
  "thread_foreach func k = ebind (kassert (\<not> intr_get_level k)) (\<lambda>_. foreach_loop func (all_list k) k)"

end
