(* ===== verification/Sched.thy ===== *)
theory Sched
  imports Thread
begin

text \<open>
  The invariants of the scheduler and that the operations of theory \<open>Thread\<close> keep them.

  \<open>sched_base\<close> describes the queues: the run queue holds exactly the ready threads other than
  the idle thread, in descending order of priority; the lists of waiters are disjoint and hold
  blocked threads only; the list of all threads holds the threads that are not dying; every thread
  but the initial one occupies a page that the page allocator has in use.  \<open>kinv\<close> adds that exactly
  the running thread has the status \<open>THREAD_RUNNING\<close>, and that its page directory and its kernel
  stack are the active ones.
\<close>

section \<open>Invariants\<close>

definition st :: "kernel \<Rightarrow> tptr \<Rightarrow> tstatus option" where
  "st k t = map_option status (thr k t)"

definition threads_ok :: "kernel \<Rightarrow> bool" where
  "threads_ok k \<longleftrightarrow> palloc_wf (pal k) \<and>
     (\<forall>t th. thr k t = Some th \<longrightarrow> t \<noteq> 0 \<and> magic th = THREAD_MAGIC \<and>
        (t = initial_thread k \<or> t \<in> used_pages (kernel_pool (pal k)))) \<and>
     (\<forall>i<pool_size (kernel_pool (pal k)). pool_page (kernel_pool (pal k)) i \<noteq> initial_thread k) \<and>
     thr k (running k) \<noteq> None"

definition queue_ok :: "kernel \<Rightarrow> bool" where
  "queue_ok k \<longleftrightarrow> distinct (ready_list k) \<and>
     (\<forall>t. t \<in> set (ready_list k) \<longleftrightarrow> st k t = Some THREAD_READY \<and> t \<noteq> idle_thread k) \<and>
     sorted_wrt (\<lambda>a b. prio k b \<le> prio k a) (ready_list k)"

definition waiters_ok :: "kernel \<Rightarrow> bool" where
  "waiters_ok k \<longleftrightarrow>
     (\<forall>s. distinct (waiters (semas k s)) \<and> idle_thread k \<notin> set (waiters (semas k s)) \<and>
        (\<forall>t\<in>set (waiters (semas k s)). st k t = Some THREAD_BLOCKED)) \<and>
     (\<forall>s s' t. t \<in> set (waiters (semas k s)) \<longrightarrow> t \<in> set (waiters (semas k s')) \<longrightarrow> s = s')"

definition all_ok :: "kernel \<Rightarrow> bool" where
  "all_ok k \<longleftrightarrow> distinct (all_list k) \<and>
     (\<forall>t. t \<in> set (all_list k) \<longleftrightarrow> st k t \<noteq> None \<and> st k t \<noteq> Some THREAD_DYING) \<and>
     idle_thread k \<in> set (all_list k)"

definition sched_base :: "kernel \<Rightarrow> bool" where
  "sched_base k \<longleftrightarrow> threads_ok k \<and> queue_ok k \<and> waiters_ok k \<and> all_ok k"

definition space_ok :: "kernel \<Rightarrow> bool" where
  "space_ok k \<longleftrightarrow> (\<exists>th. thr k (running k) = Some th \<and>
     active_pd k = (if pagedir th = 0 then init_page_dir k else pagedir th) \<and> esp0 k = running k + PGSIZE)"

definition kinv :: "kernel \<Rightarrow> bool" where
  "kinv k \<longleftrightarrow> sched_base k \<and> (\<forall>t. st k t = Some THREAD_RUNNING \<longleftrightarrow> t = running k) \<and> space_ok k"

text \<open>The state in which \<open>schedule\<close> is entered.\<close>

definition pre_sched :: "kernel \<Rightarrow> bool" where
  "pre_sched k \<longleftrightarrow> sched_base k \<and> (\<forall>t. st k t \<noteq> Some THREAD_RUNNING) \<and> \<not> intr_on k"

interpretation prio: strict_weak_order "prioritycmp k" for k
  by unfold_locales (auto simp: prioritycmp_def split: if_splits)

text \<open>The invariant does not depend on the other fields.\<close>

lemma kinv_cong:
  assumes "thr k' = thr k" "ready_list k' = ready_list k" "all_list k' = all_list k" "idle_thread k' = idle_thread k"
    "initial_thread k' = initial_thread k" "running k' = running k" "\<And>s. waiters (semas k' s) = waiters (semas k s)" "pal k' = pal k"
    "init_page_dir k' = init_page_dir k" "active_pd k' = active_pd k" "esp0 k' = esp0 k"
  shows "kinv k' = kinv k"
proof -
  have "st k' = st k" "prio k' = prio k" using assms(1) by (auto simp: st_def prio_def fun_eq_iff)
  then show ?thesis
    by (simp only: kinv_def sched_base_def threads_ok_def queue_ok_def waiters_ok_def all_ok_def space_ok_def assms)
qed

lemma st_None: "st k t = None \<longleftrightarrow> thr k t = None"
  by (simp add: st_def)

lemma st_set_thr_status:
  "st (set_thr t (\<lambda>th. th\<lparr>status := s\<rparr>) k) u = (if u = t then map_option (\<lambda>_. s) (thr k t) else st k u)"
  by (cases "thr k t") (auto simp: st_def set_thr_def)

lemma prio_set_thr_status [simp]: "prio (set_thr t (\<lambda>th. th\<lparr>status := s\<rparr>) k) = prio k"
  by (rule ext) (auto simp: prio_def set_thr_def split: option.splits)

lemma set_thr_simps [simp]:
  "ready_list (set_thr t f k) = ready_list k" "all_list (set_thr t f k) = all_list k"
  "idle_thread (set_thr t f k) = idle_thread k" "initial_thread (set_thr t f k) = initial_thread k"
  "running (set_thr t f k) = running k" "intr_on (set_thr t f k) = intr_on k"
  "in_external_intr (set_thr t f k) = in_external_intr k" "semas (set_thr t f k) = semas k"
  "holder (set_thr t f k) = holder k" "conds (set_thr t f k) = conds k"
  "pal (set_thr t f k) = pal k" "next_tid (set_thr t f k) = next_tid k"
  "init_page_dir (set_thr t f k) = init_page_dir k" "active_pd (set_thr t f k) = active_pd k"
  "esp0 (set_thr t f k) = esp0 k" "tail_priority (set_thr t f k) = tail_priority k"
  "thr (set_thr t f k) t = map_option f (thr k t)" "u \<noteq> t \<Longrightarrow> thr (set_thr t f k) u = thr k u"
  "thr (set_thr t f k) u = None \<longleftrightarrow> thr k u = None"
  by (auto simp: set_thr_def)

lemma get_thr_Some [simp]: "thr k t = Some th \<Longrightarrow> get_thr t k = Inr th"
  by (simp add: get_thr_def)

lemma is_thread_ok: "threads_ok k \<Longrightarrow> thr k t = Some th \<Longrightarrow> is_thread t k = Inr True"
  by (auto simp: is_thread_def threads_ok_def)

lemma thread_current_ok:
  "threads_ok k \<Longrightarrow> thr k (running k) = Some th \<Longrightarrow> status th = THREAD_RUNNING \<Longrightarrow>
   thread_current k = Inr (running k)"
  by (simp add: thread_current_def running_thread_def is_thread_ok)

lemma kinv_running: "kinv k \<Longrightarrow> \<exists>th. thr k (running k) = Some th \<and> status th = THREAD_RUNNING"
  by (force simp: kinv_def st_def)

lemma kinv_current: "kinv k \<Longrightarrow> thread_current k = Inr (running k)"
  using kinv_running[of k] thread_current_ok[of k] by (auto simp: kinv_def sched_base_def)

section \<open>The scheduler\<close>

definition next_thr :: "kernel \<Rightarrow> tptr" where
  "next_thr k = (case ready_list k of [] \<Rightarrow> idle_thread k | t # _ \<Rightarrow> t)"

text \<open>The state after the switch to the next thread, before a dying thread is destroyed.\<close>

definition switched :: "kernel \<Rightarrow> kernel" where
  "switched k =
     (set_thr (next_thr k) (\<lambda>th. th\<lparr>status := THREAD_RUNNING\<rparr>) k)\<lparr>
        ready_list := tl (ready_list k), running := next_thr k, thread_ticks := 0,
        active_pd := (case thr k (next_thr k) of None \<Rightarrow> 0
          | Some th \<Rightarrow> if pagedir th = 0 then init_page_dir k else pagedir th),
        esp0 := next_thr k + PGSIZE\<rparr>"

lemma switched_simps [simp]:
  "ready_list (switched k) = tl (ready_list k)" "all_list (switched k) = all_list k"
  "idle_thread (switched k) = idle_thread k" "initial_thread (switched k) = initial_thread k"
  "running (switched k) = next_thr k" "intr_on (switched k) = intr_on k"
  "in_external_intr (switched k) = in_external_intr k" "semas (switched k) = semas k"
  "holder (switched k) = holder k" "conds (switched k) = conds k"
  "pal (switched k) = pal k" "next_tid (switched k) = next_tid k"
  "thr (switched k) (next_thr k) = map_option (\<lambda>th. th\<lparr>status := THREAD_RUNNING\<rparr>) (thr k (next_thr k))"
  "t \<noteq> next_thr k \<Longrightarrow> thr (switched k) t = thr k t"
  by (simp_all add: switched_def)

lemma next_thr_ok:
  assumes "sched_base k"
  shows "\<exists>th. thr k (next_thr k) = Some th \<and> status th \<noteq> THREAD_DYING"
proof (cases "ready_list k")
  case Nil
  have "st k (idle_thread k) \<noteq> None \<and> st k (idle_thread k) \<noteq> Some THREAD_DYING"
    using assms unfolding sched_base_def all_ok_def by blast
  then show ?thesis using Nil by (auto simp: next_thr_def st_def)
next
  case (Cons t ts)
  then have "st k t = Some THREAD_READY" using assms by (auto simp: sched_base_def queue_ok_def)
  then show ?thesis using Cons by (auto simp: next_thr_def st_def)
qed

lemma schedule_switched:
  assumes "pre_sched k"
  shows "schedule k = (let cur = running k
     in if cur \<noteq> next_thr k \<and> st k cur = Some THREAD_DYING \<and> cur \<noteq> initial_thread k
        then ebind (palloc_free_page cur (pal k)) (\<lambda>p.
               Inr ((switched k)\<lparr>thr := (thr (switched k))(cur := None), pal := p\<rparr>))
        else Inr (switched k))"
proof -
  have b: "sched_base k" "\<not> intr_on k" "\<forall>t. st k t \<noteq> Some THREAD_RUNNING" using assms by (simp_all add: pre_sched_def)
  then have ok: "threads_ok k" by (simp add: sched_base_def)
  obtain c where c: "thr k (running k) = Some c" using ok by (auto simp: threads_ok_def)
  have cs: "status c \<noteq> THREAD_RUNNING" using b(3) c by (force simp: st_def)
  obtain n where n: "thr k (next_thr k) = Some n" "status n \<noteq> THREAD_DYING" using next_thr_ok[OF b(1)] by blast
  have nz: "next_thr k \<noteq> 0" "running k \<noteq> 0" "magic n = THREAD_MAGIC"
    using ok n c unfolding threads_ok_def by blast+
  have nt: "next_thread_to_run k = (next_thr k, k\<lparr>ready_list := tl (ready_list k)\<rparr>)"
    by (cases "ready_list k") (simp_all add: next_thread_to_run_def next_thr_def)
  let ?k1 = "k\<lparr>ready_list := tl (ready_list k), running := next_thr k\<rparr>"
  have act: "process_activate ((set_thr (next_thr k) (\<lambda>th. th\<lparr>status := THREAD_RUNNING\<rparr>) ?k1)\<lparr>thread_ticks := 0\<rparr>)
      = Inr (switched k)"
    using n nz by (simp add: process_activate_def thread_current_def running_thread_def is_thread_def get_thr_def
        set_thr_def switched_def)
  have tail: "thread_schedule_tail p ?k1 = (if p = 0 then Inr (switched k) else
      ebind (get_thr p (switched k)) (\<lambda>th.
        if status th = THREAD_DYING \<and> p \<noteq> initial_thread k
        then ebind (kassert (p \<noteq> next_thr k)) (\<lambda>_. ebind (palloc_free_page p (pal k)) (\<lambda>q.
             Inr ((switched k)\<lparr>thr := (thr (switched k))(p := None), pal := q\<rparr>)))
        else Inr (switched k)))" for p
    using b(2) by (simp add: thread_schedule_tail_def intr_get_level_def running_thread_def act cong del: ebind_weak_cong if_weak_cong)
  have same: "?k1 = k\<lparr>ready_list := tl (ready_list k)\<rparr>" if "running k = next_thr k" using that[symmetric] by simp
  show ?thesis
  proof (cases "running k = next_thr k")
    case True
    then show ?thesis
      using b(2) c cs n nz nt tail[of 0] same by (simp add: schedule_def running_thread_def intr_get_level_def
          is_thread_def get_thr_def Let_def)
  next
    case False
    then have "get_thr (running k) (switched k) = Inr c" using c by simp
    then show ?thesis
      using False b(2) c cs n nz nt tail[of "running k"] by (simp add: schedule_def running_thread_def
          intr_get_level_def is_thread_def get_thr_def Let_def st_def)
  qed
qed

lemma st_switched: "sched_base k \<Longrightarrow>
  st (switched k) t = (if t = next_thr k then Some THREAD_RUNNING else st k t)"
  using next_thr_ok[of k] by (auto simp: st_def)

lemma prio_switched [simp]: "prio (switched k) = prio k"
  by (rule ext) (auto simp: prio_def switched_def set_thr_def split: option.splits)

lemma kinv_switched:
  assumes "pre_sched k"
  shows "kinv (switched k)"
proof -
  have b: "sched_base k" "\<forall>t. st k t \<noteq> Some THREAD_RUNNING" using assms by (simp_all add: pre_sched_def)
  note s = st_switched[OF b(1)]
  obtain n where n: "thr k (next_thr k) = Some n" "status n \<noteq> THREAD_DYING" using next_thr_ok[OF b(1)] by blast
  have q: "distinct (ready_list k)" "\<forall>t. t \<in> set (ready_list k) \<longleftrightarrow> st k t = Some THREAD_READY \<and> t \<noteq> idle_thread k"
    "sorted_wrt (\<lambda>a b. prio k b \<le> prio k a) (ready_list k)"
    using b(1) by (simp_all add: sched_base_def queue_ok_def)
  have "threads_ok (switched k)"
  proof -
    have ok: "threads_ok k" using b(1) by (simp add: sched_base_def)
    then have "magic n = THREAD_MAGIC" using n(1) unfolding threads_ok_def by blast
    then show ?thesis using ok unfolding threads_ok_def
      by (auto simp: switched_def set_thr_def n(1) split: if_splits)
  qed
  moreover have "queue_ok (switched k)"
  proof (cases "ready_list k")
    case Nil
    then show ?thesis using q(2) by (auto simp: queue_ok_def s next_thr_def)
  next
    case (Cons t ts)
    then show ?thesis using q by (auto simp: queue_ok_def s next_thr_def)
  qed
  moreover have "waiters_ok (switched k)"
  proof -
    have "next_thr k \<notin> set (waiters (semas k x))" for x
    proof (cases "ready_list k")
      case Nil
      then show ?thesis using b(1) by (simp add: next_thr_def sched_base_def waiters_ok_def)
    next
      case (Cons t ts)
      then have "st k (next_thr k) = Some THREAD_READY" using q(2) by (auto simp: next_thr_def)
      then show ?thesis using b(1) unfolding sched_base_def waiters_ok_def by force
    qed
    then show ?thesis using b(1) unfolding sched_base_def waiters_ok_def by (auto simp: s)
  qed
  moreover have "all_ok (switched k)"
  proof -
    have "st k (next_thr k) \<noteq> None" "st k (next_thr k) \<noteq> Some THREAD_DYING" using n by (auto simp: st_def)
    then show ?thesis using b(1) unfolding sched_base_def all_ok_def by (auto simp: s)
  qed
  ultimately show ?thesis
    using b(2) n by (auto simp: kinv_def sched_base_def s space_ok_def) (simp_all add: switched_def)
qed

lemma used_pages_mem: "t \<in> used_pages p \<Longrightarrow> \<exists>i. i \<in> used_bits (used_map p) \<and> i < pool_size p \<and> t = pool_page p i"
  by (auto simp: used_pages_def pool_size_def dest: used_bits_lt)

lemma palloc_free_page_used:
  assumes "palloc_wf s" "t \<in> used_pages (pool_of u s)"
  shows "\<exists>s'. palloc_free_page t s = Inr s' \<and> palloc_wf s' \<and>
     used_pages (pool_of u s') = used_pages (pool_of u s) - {t} \<and>
     pool_size (pool_of u s') = pool_size (pool_of u s) \<and> pool_page (pool_of u s') = pool_page (pool_of u s) \<and>
     pool_of (\<not> u) s' = pool_of (\<not> u) s"
proof -
  obtain i where i: "i \<in> used_bits (used_map (pool_of u s))" "i < pool_size (pool_of u s)" "t = pool_page (pool_of u s) i"
    using used_pages_mem[OF assms(2)] by blast
  have one: "i + unat (1 :: u32) \<le> pool_size (pool_of u s)" "{i..<i + unat (1 :: u32)} = {i}" using i(2) by auto
  obtain b where b: "palloc_free_multiple t 1 s = Inr ((set_pool u ((pool_of u s)\<lparr>used_map := b\<rparr>) s)
        \<lparr>ram := fill_pages t 1 0xcccccccc (ram s)\<rparr>)"
      "bitmap_wf b" "bit_cnt b = bit_cnt (used_map (pool_of u s))" "used_bits b = used_bits (used_map (pool_of u s)) - {i}"
    using palloc_free_ok[OF assms(1) refl _ one(1)] i one(2) by auto
  have "pool_wf (pool_of u s)" using assms(1) by (rule palloc_wf_pool)
  then show ?thesis
    using b i palloc_wf_set[OF assms(1) b(2,3)] used_pages_image[of "pool_of u s" i 1]
    by (simp add: palloc_free_page_def used_pages_upd pool_size_def)
qed

lemma kinv_free:
  assumes k: "kinv k" and t: "st k t = Some THREAD_DYING" "t \<noteq> initial_thread k"
  shows "\<exists>p. palloc_free_page t (pal k) = Inr p \<and> kinv (k\<lparr>thr := (thr k)(t := None), pal := p\<rparr>)"
proof -
  have ok: "threads_ok k" and q: "queue_ok k" and w: "waiters_ok k" and a: "all_ok k"
    and r: "\<forall>t. st k t = Some THREAD_RUNNING \<longleftrightarrow> t = running k" and sp: "space_ok k"
    using k by (simp_all add: kinv_def sched_base_def)
  obtain th where th: "thr k t = Some th" using t(1) by (auto simp: st_def)
  then have used: "t \<in> used_pages (pool_of False (pal k))" using ok t(2) unfolding threads_ok_def pool_of_def by auto
  obtain p where p: "palloc_free_page t (pal k) = Inr p" "palloc_wf p"
      "used_pages (kernel_pool p) = used_pages (kernel_pool (pal k)) - {t}"
      "pool_size (kernel_pool p) = pool_size (kernel_pool (pal k))" "pool_page (kernel_pool p) = pool_page (kernel_pool (pal k))"
    using palloc_free_page_used[OF _ used] ok by (auto simp: threads_ok_def pool_of_def)
  let ?k = "k\<lparr>thr := (thr k)(t := None), pal := p\<rparr>"
  have s: "st ?k u = (if u = t then None else st k u)" for u by (simp add: st_def)
  have tr: "t \<noteq> running k" using r t(1) by force
  have nr: "t \<notin> set (ready_list k)" using q t(1) by (auto simp: queue_ok_def)
  have pr: "prio ?k u = prio k u" if "u \<in> set (ready_list k)" for u using nr that by (auto simp: prio_def)
  have "threads_ok ?k" using ok p tr unfolding threads_ok_def by auto
  moreover have "queue_ok ?k"
    using q nr t(1) sorted_wrt_mono_rel[of "ready_list k" "\<lambda>a b. prio k b \<le> prio k a" "\<lambda>a b. prio ?k b \<le> prio ?k a"] pr
    by (auto simp: queue_ok_def s)
  moreover have "waiters_ok ?k"
    using w t(1) unfolding waiters_ok_def by (auto simp: s)
  moreover have "all_ok ?k" using a t(1) unfolding all_ok_def by (auto simp: s)
  ultimately have "kinv ?k" using r tr sp by (auto simp: kinv_def sched_base_def s space_ok_def)
  then show ?thesis using p(1) by blast
qed

text \<open>What a run of \<open>schedule\<close> leaves.\<close>

definition resched :: "kernel \<Rightarrow> kernel \<Rightarrow> bool" where
  "resched k k' \<longleftrightarrow> running k' = next_thr k \<and> ready_list k' = tl (ready_list k) \<and> semas k' = semas k \<and>
     holder k' = holder k \<and> conds k' = conds k \<and>
     intr_on k' = intr_on k \<and> in_external_intr k' = in_external_intr k \<and>
     idle_thread k' = idle_thread k \<and> initial_thread k' = initial_thread k \<and>
     (\<forall>t. st k' t = (if t = next_thr k then Some THREAD_RUNNING
        else if t = running k \<and> st k t = Some THREAD_DYING \<and> t \<noteq> initial_thread k then None else st k t))"

lemma schedule_ok:
  assumes "pre_sched k"
  shows "\<exists>k'. schedule k = Inr k' \<and> kinv k' \<and> resched k k'"
proof -
  have b: "sched_base k" using assms by (simp add: pre_sched_def)
  note s = st_switched[OF b] and kv = kinv_switched[OF assms] and sc = schedule_switched[OF assms]
  show ?thesis
  proof (cases "running k \<noteq> next_thr k \<and> st k (running k) = Some THREAD_DYING \<and> running k \<noteq> initial_thread k")
    case True
    then have "st (switched k) (running k) = Some THREAD_DYING" by (simp add: s)
    then obtain p where "palloc_free_page (running k) (pal k) = Inr p"
        "kinv ((switched k)\<lparr>thr := (thr (switched k))(running k := None), pal := p\<rparr>)"
      using kinv_free[OF kv, of "running k"] True by auto
    moreover have "st ((switched k)\<lparr>thr := (thr (switched k))(running k := None), pal := p\<rparr>) t
        = (if t = running k then None else st (switched k) t)" for t by (simp add: st_def)
    ultimately show ?thesis using True sc by (auto simp: resched_def s)
  next
    case False
    then have "schedule k = Inr (switched k)" using sc by (auto simp: Let_def)
    moreover have "st k (next_thr k) \<noteq> Some THREAD_DYING" using next_thr_ok[OF b] by (auto simp: st_def)
    ultimately show ?thesis using kv False by (auto simp: resched_def s)
  qed
qed

section \<open>Blocking and waking\<close>

text \<open>The running thread appended to the waiters of a semaphore.\<close>

definition wait_on :: "sema_ref \<Rightarrow> kernel \<Rightarrow> kernel" where
  "wait_on s k = k\<lparr>semas := (semas k)(s := (semas k s)\<lparr>waiters := waiters (semas k s) @ [running k]\<rparr>)\<rparr>"

lemma kinv_parts:
  assumes "kinv k"
  shows "threads_ok k" "queue_ok k" "waiters_ok k" "all_ok k"
    "st k t = Some THREAD_RUNNING \<longleftrightarrow> t = running k" "space_ok k"
  using assms by (simp_all add: kinv_def sched_base_def)

lemma running_not_waiting: "kinv k \<Longrightarrow> running k \<notin> set (waiters (semas k s))"
  using kinv_parts(3)[of k] kinv_parts(5)[of k "running k"] unfolding waiters_ok_def by force

lemma running_not_ready: "kinv k \<Longrightarrow> running k \<notin> set (ready_list k)"
  using kinv_parts(2)[of k] kinv_parts(5)[of k "running k"] unfolding queue_ok_def by force

lemma threads_ok_set_thr: "threads_ok k \<Longrightarrow> (\<And>th. magic (f th) = magic th) \<Longrightarrow> threads_ok (set_thr t f k)"
  unfolding threads_ok_def by (auto simp: set_thr_def)

lemma threads_ok_semas [simp]: "threads_ok (k\<lparr>semas := S\<rparr>) = threads_ok k"
  by (simp add: threads_ok_def)

lemma pre_sched_blocked:
  assumes k: "kinv k" and off: "\<not> intr_on k"
  shows "pre_sched (set_thr (running k) (\<lambda>th. th\<lparr>status := THREAD_BLOCKED\<rparr>) k)"
    and "running k \<noteq> idle_thread k \<Longrightarrow>
      pre_sched (set_thr (running k) (\<lambda>th. th\<lparr>status := THREAD_BLOCKED\<rparr>) (wait_on s k))"
proof -
  note p = kinv_parts[OF k]
  obtain th where th: "thr k (running k) = Some th" using kinv_running[OF k] by blast
  let ?b = "\<lambda>k'. set_thr (running k) (\<lambda>th. th\<lparr>status := THREAD_BLOCKED\<rparr>) k'"
  have s: "st (?b k') u = (if u = running k then Some THREAD_BLOCKED else st k u)"
    if "thr k' = thr k" for k' u using that th by (simp add: st_set_thr_status) (simp add: st_def)
  have base: "threads_ok (?b k') \<and> queue_ok (?b k') \<and> all_ok (?b k') \<and> (\<forall>t. st (?b k') t \<noteq> Some THREAD_RUNNING)"
    if k': "k' = k \<or> k' = wait_on s k" for k'
  proof -
    have e: "thr k' = thr k" "ready_list k' = ready_list k" "idle_thread k' = idle_thread k" "all_list k' = all_list k"
      using k' by (auto simp: wait_on_def)
    have "threads_ok k'" using k' p(1) by (auto simp: wait_on_def)
    then have "threads_ok (?b k')" by (rule threads_ok_set_thr) simp
    moreover have "queue_ok (?b k')"
    proof -
      have pr: "prio k' = prio k" using e(1) by (auto simp: prio_def fun_eq_iff)
      have q: "u \<in> set (ready_list k) \<longleftrightarrow> st k u = Some THREAD_READY \<and> u \<noteq> idle_thread k" for u
        using p(2) by (simp add: queue_ok_def)
      have "u \<in> set (ready_list k) \<longleftrightarrow> st (?b k') u = Some THREAD_READY \<and> u \<noteq> idle_thread k" for u
        using q[of u] running_not_ready[OF k] by (cases "u = running k") (simp_all add: s[OF e(1)])
      then show ?thesis using p(2) by (simp add: queue_ok_def e pr)
    qed
    moreover have "st k (running k) = Some THREAD_RUNNING" using p(5) by simp
    then have "all_ok (?b k')"
      using p(4) unfolding all_ok_def by (auto simp: s[OF e(1)] e)
    ultimately show ?thesis using p(5) by (auto simp: s[OF e(1)])
  qed
  have "waiters_ok (?b k)" using p(3) unfolding waiters_ok_def by (auto simp: s)
  then show "pre_sched (?b k)" using base[of k] off by (simp add: pre_sched_def sched_base_def)
  assume i: "running k \<noteq> idle_thread k"
  have e: "thr (wait_on s k) = thr k" "idle_thread (wait_on s k) = idle_thread k" by (simp_all add: wait_on_def)
  have w: "waiters (semas (wait_on s k) x) = waiters (semas k x) @ (if x = s then [running k] else [])" for x
    by (simp add: wait_on_def)
  have "waiters_ok (?b (wait_on s k))"
    using p(3) i running_not_waiting[OF k] unfolding waiters_ok_def by (auto simp: s[OF e(1)] e w)
  then show "pre_sched (?b (wait_on s k))"
    using base[of "wait_on s k"] off by (simp add: pre_sched_def sched_base_def wait_on_def)
qed

lemma thread_block_ok:
  assumes "kinv k" "\<not> intr_on k" "\<not> in_external_intr k"
  shows "thread_block k = schedule (set_thr (running k) (\<lambda>th. th\<lparr>status := THREAD_BLOCKED\<rparr>) k)"
  using assms kinv_current[OF assms(1)] by (simp add: thread_block_def intr_context_def intr_get_level_def)

lemma prioritycmp_iff: "prioritycmp k a b \<longleftrightarrow> prio k b < prio k a"
  by (auto simp: prioritycmp_def)

lemma set_ins_ordered [simp]: "set (ins_ordered lt e xs) = insert e (set xs)"
proof -
  have "set (takeWhile (\<lambda>y. \<not> lt e y) xs) \<union> set (dropWhile (\<lambda>y. \<not> lt e y) xs) = set xs"
    by (metis set_append takeWhile_dropWhile_id)
  then show ?thesis by (auto simp: ins_ordered_def)
qed

lemma distinct_ins_ordered: "distinct xs \<Longrightarrow> e \<notin> set xs \<Longrightarrow> distinct (ins_ordered lt e xs)"
proof -
  assume d: "distinct xs" "e \<notin> set xs"
  have "set (takeWhile (\<lambda>y. \<not> lt e y) xs) \<inter> set (dropWhile (\<lambda>y. \<not> lt e y) xs) = {}"
    using d(1) by (metis distinct_append takeWhile_dropWhile_id)
  then show ?thesis using d by (auto simp: ins_ordered_def dest: set_takeWhileD set_dropWhileD)
qed

lemma sorted_ins_ordered:
  "sorted_wrt (\<lambda>a b. prio k b \<le> prio k a) xs \<Longrightarrow>
   sorted_wrt (\<lambda>a b. prio k b \<le> prio k a) (ins_ordered (prioritycmp k) t xs)"
  using prio.in_order_ins_ordered[of k xs t] unfolding prio.in_order_sorted_wrt
  by (simp add: prioritycmp_iff not_less)

text \<open>The state after a thread has been made ready.\<close>

definition made_ready :: "tptr \<Rightarrow> kernel \<Rightarrow> kernel" where
  "made_ready t k = set_thr t (\<lambda>th. th\<lparr>status := THREAD_READY\<rparr>)
     (k\<lparr>ready_list := ins_ordered (prioritycmp k) t (ready_list k)\<rparr>)"

lemma made_ready_simps [simp]:
  "all_list (made_ready t k) = all_list k" "idle_thread (made_ready t k) = idle_thread k"
  "initial_thread (made_ready t k) = initial_thread k" "running (made_ready t k) = running k"
  "intr_on (made_ready t k) = intr_on k" "in_external_intr (made_ready t k) = in_external_intr k"
  "semas (made_ready t k) = semas k" "holder (made_ready t k) = holder k" "conds (made_ready t k) = conds k"
  "pal (made_ready t k) = pal k"
  "ready_list (made_ready t k) = ins_ordered (prioritycmp k) t (ready_list k)"
  "prio (made_ready t k) = prio k"
  by (simp_all add: made_ready_def) (auto simp: prio_def fun_eq_iff)

lemma st_made_ready: "st (made_ready t k) u = (if u = t then map_option (\<lambda>_. THREAD_READY) (thr k t) else st k u)"
  by (simp add: made_ready_def st_set_thr_status) (simp add: st_def)

lemma sched_base_made_ready:
  assumes b: "sched_base k" and t: "thr k t = Some th" "status th \<noteq> THREAD_READY" "status th \<noteq> THREAD_DYING"
      "t \<noteq> idle_thread k" "\<forall>s. t \<notin> set (waiters (semas k s))"
  shows "sched_base (made_ready t k)"
proof -
  have p: "threads_ok k" "queue_ok k" "waiters_ok k" "all_ok k" using b by (simp_all add: sched_base_def)
  have s: "st (made_ready t k) u = (if u = t then Some THREAD_READY else st k u)" for u
    using t(1) by (simp add: st_made_ready)
  have "threads_ok (k\<lparr>ready_list := r\<rparr>)" for r using p(1) by (simp add: threads_ok_def)
  then have "threads_ok (made_ready t k)" unfolding made_ready_def by (rule threads_ok_set_thr) simp
  moreover have "t \<notin> set (ready_list k)" using p(2) t(1,2) by (auto simp: queue_ok_def st_def)
  then have "queue_ok (made_ready t k)"
    using p(2) t(4) unfolding queue_ok_def by (auto simp: s distinct_ins_ordered sorted_ins_ordered)
  moreover have "waiters_ok (made_ready t k)"
    using p(3) t(5) unfolding waiters_ok_def by (auto simp: s)
  moreover have "st k t \<noteq> None" "st k t \<noteq> Some THREAD_DYING" using t by (auto simp: st_def)
  then have "all_ok (made_ready t k)" using p(4) unfolding all_ok_def by (auto simp: s)
  ultimately show ?thesis by (simp add: sched_base_def)
qed

lemma kinv_made_ready:
  assumes k: "kinv k" and t: "st k t = Some THREAD_BLOCKED" "t \<noteq> idle_thread k" "\<forall>s. t \<notin> set (waiters (semas k s))"
  shows "kinv (made_ready t k)"
proof -
  obtain th where th: "thr k t = Some th" "status th = THREAD_BLOCKED" using t(1) by (auto simp: st_def)
  have "sched_base (made_ready t k)" using k th t by (intro sched_base_made_ready[of k t th]) (auto simp: kinv_def)
  moreover have "t \<noteq> running k" using kinv_parts(5)[OF k, of t] t(1) by auto
  then have "space_ok (made_ready t k)" "\<forall>u. st (made_ready t k) u = Some THREAD_RUNNING \<longleftrightarrow> u = running k"
    using kinv_parts(5,6)[OF k] th by (auto simp: space_ok_def st_made_ready) (auto simp: made_ready_def)
  ultimately show ?thesis by (simp add: kinv_def)
qed

lemma thread_unblock_ok:
  assumes ok: "threads_ok k" and t: "st k t = Some THREAD_BLOCKED" and i: "in_external_intr k \<longrightarrow> \<not> intr_on k"
  shows "thread_unblock t k = Inr (made_ready t k)"
proof -
  obtain th where th: "thr k t = Some th" "status th = THREAD_BLOCKED" using t by (auto simp: st_def)
  have "prioritycmp (k\<lparr>intr_on := False\<rparr>) = prioritycmp k" by (auto simp: fun_eq_iff prioritycmp_iff prio_def)
  then have "(set_thr t (\<lambda>th. th\<lparr>status := THREAD_READY\<rparr>) (k\<lparr>intr_on := False,
      ready_list := ins_ordered (prioritycmp (k\<lparr>intr_on := False\<rparr>)) t (ready_list k)\<rparr>))\<lparr>intr_on := intr_on k\<rparr> = made_ready t k"
    by (simp add: made_ready_def set_thr_def)
  then show ?thesis
    using th is_thread_ok[OF ok th(1)] i
    by (auto simp: thread_unblock_def intr_disable_def intr_get_level_def get_thr_def Let_def
        intr_set_level_def intr_enable_def intr_context_def)
qed

section \<open>Yielding\<close>

lemma intr_off_simps [simp]:
  "thr (k\<lparr>intr_on := b\<rparr>) = thr k" "st (k\<lparr>intr_on := b\<rparr>) = st k" "prio (k\<lparr>intr_on := b\<rparr>) = prio k"
  "prioritycmp (k\<lparr>intr_on := b\<rparr>) = prioritycmp k"
  by (auto simp: st_def prio_def prioritycmp_def fun_eq_iff)

lemma sched_base_intr [simp]: "sched_base (k\<lparr>intr_on := b\<rparr>) = sched_base k"
  by (simp add: sched_base_def threads_ok_def queue_ok_def waiters_ok_def all_ok_def)

lemma kinv_intr [simp]: "kinv (k\<lparr>intr_on := b\<rparr>) = kinv k"
  by (simp add: kinv_def space_ok_def)

text \<open>The running thread put back: into the run queue, or, for the idle thread, nowhere.\<close>

definition put_back :: "kernel \<Rightarrow> kernel" where
  "put_back k = (if running k \<noteq> idle_thread k then made_ready (running k) (k\<lparr>intr_on := False\<rparr>)
     else set_thr (running k) (\<lambda>th. th\<lparr>status := THREAD_READY\<rparr>) (k\<lparr>intr_on := False\<rparr>))"

lemma st_put_back: "kinv k \<Longrightarrow> st (put_back k) u = (if u = running k then Some THREAD_READY else st k u)"
  using kinv_running[of k] by (auto simp: put_back_def st_made_ready st_set_thr_status)

lemma put_back_simps [simp]:
  "running (put_back k) = running k" "idle_thread (put_back k) = idle_thread k" "prio (put_back k) = prio k"
  "holder (put_back k) = holder k" "conds (put_back k) = conds k"
  "semas (put_back k) = semas k" "initial_thread (put_back k) = initial_thread k" "intr_on (put_back k) = False"
  "in_external_intr (put_back k) = in_external_intr k"
  "ready_list (put_back k) =
     (if running k \<noteq> idle_thread k then ins_ordered (prioritycmp k) (running k) (ready_list k) else ready_list k)"
  by (simp_all add: put_back_def)

lemma pre_sched_put_back:
  assumes k: "kinv k"
  shows "pre_sched (put_back k)"
proof -
  note p = kinv_parts[OF k]
  obtain th where th: "thr k (running k) = Some th" "status th = THREAD_RUNNING" using kinv_running[OF k] by blast
  have run: "\<forall>t. st (put_back k) t \<noteq> Some THREAD_RUNNING" using p(5) by (simp add: st_put_back[OF k])
  have "sched_base (put_back k)"
  proof (cases "running k = idle_thread k")
    case False
    then show ?thesis
      using k th running_not_waiting[OF k] unfolding put_back_def
      by (auto simp: kinv_def intro!: sched_base_made_ready)
  next
    case True
    note s = st_put_back[OF k]
    have "threads_ok (k\<lparr>intr_on := False\<rparr>)" using p(1) by (simp add: threads_ok_def)
    then have "threads_ok (put_back k)" using True by (simp add: put_back_def threads_ok_set_thr)
    moreover have "queue_ok (put_back k)"
      using p(2) running_not_ready[OF k] True by (auto simp: queue_ok_def s)
    moreover have "waiters_ok (put_back k)"
      using p(3) running_not_waiting[OF k] by (auto simp: waiters_ok_def s)
    moreover have "all_list (put_back k) = all_list k" using True by (simp add: put_back_def)
    then have "all_ok (put_back k)" using p(4) True unfolding all_ok_def by (auto simp: s)
    ultimately show ?thesis by (simp add: sched_base_def)
  qed
  then show ?thesis using run by (simp add: pre_sched_def)
qed

lemma next_thr_put_back:
  assumes "\<And>h r. ready_list k = h # r \<Longrightarrow> prio k (running k) \<le> prio k h"
  shows "next_thr (put_back k) = (case ready_list k of [] \<Rightarrow> running k | h # _ \<Rightarrow> h)"
  using assms by (cases "ready_list k") (auto simp: next_thr_def ins_ordered_def prioritycmp_iff)

lemma thread_yield_cases:
  assumes k: "kinv k" and e: "\<not> in_external_intr k"
  shows "thread_yield k =
     (if prio k (running k) > (case ready_list k of [] \<Rightarrow> tail_priority k | h # _ \<Rightarrow> prio k h) then Inr (None, k)
      else ebind (schedule (put_back k)) (\<lambda>k'. Inr (Some (intr_on k), k')))"
proof -
  obtain c where c: "thr k (running k) = Some c" "status c = THREAD_RUNNING" using kinv_running[OF k] by blast
  have first: "first_priority k = Inr (case ready_list k of [] \<Rightarrow> tail_priority k | h # _ \<Rightarrow> prio k h)"
  proof (cases "ready_list k")
    case (Cons h r)
    then have "st k h = Some THREAD_READY" using kinv_parts(2)[OF k] by (auto simp: queue_ok_def)
    then show ?thesis using Cons by (auto simp: first_priority_def st_def prio_def get_thr_def)
  qed (simp add: first_priority_def)
  have cur: "cur_thr k = Inr c" using kinv_current[OF k] c by (simp add: cur_thr_def)
  have pc: "priority c = prio k (running k)" using c by (simp add: prio_def)
  show ?thesis
    using e by (simp add: thread_yield_def cur first pc intr_context_def intr_disable_def intr_get_level_def
        running_thread_def put_back_def made_ready_def Let_def)
qed

text \<open>The running thread is at least as urgent as every ready thread.\<close>

definition top_priority :: "kernel \<Rightarrow> bool" where
  "top_priority k \<longleftrightarrow> (\<forall>t\<in>set (ready_list k). prio k t \<le> prio k (running k))"

lemma prio_schedule:
  assumes "pre_sched k" "schedule k = Inr k'" "st k (running k) \<noteq> Some THREAD_DYING"
  shows "prio k' = prio k"
  using assms by (auto simp: schedule_switched)

lemma thread_yield_ok:
  assumes k: "kinv k" and e: "\<not> in_external_intr k"
  shows "\<exists>r k'. thread_yield k = Inr (r, k') \<and> kinv k' \<and> top_priority k' \<and> prio k' = prio k \<and> semas k' = semas k \<and>
     (case r of None \<Rightarrow> k' = k
      | Some old \<Rightarrow> old = intr_on k \<and> \<not> intr_on k' \<and>
          running k' = (case ready_list k of [] \<Rightarrow> running k | h # _ \<Rightarrow> h) \<and>
          ready_list k' = tl (ready_list (put_back k)))"
proof -
  note p = kinv_parts[OF k] and y = thread_yield_cases[OF k e]
  have sorted: "sorted_wrt (\<lambda>a b. prio k b \<le> prio k a) (ready_list k)" using p(2) by (simp add: queue_ok_def)
  show ?thesis
  proof (cases "prio k (running k) > (case ready_list k of [] \<Rightarrow> tail_priority k | h # _ \<Rightarrow> prio k h)")
    case True
    then have "top_priority k" using sorted by (cases "ready_list k") (auto simp: top_priority_def)
    then show ?thesis using True y k by simp
  next
    case False
    have ps: "pre_sched (put_back k)" using k by (rule pre_sched_put_back)
    obtain k' where k': "schedule (put_back k) = Inr k'" "kinv k'" "resched (put_back k) k'"
      using schedule_ok[OF ps] by blast
    have pr: "prio k' = prio k" using prio_schedule[OF ps k'(1)] by (simp add: st_put_back[OF k])
    have nx: "next_thr (put_back k) = (case ready_list k of [] \<Rightarrow> running k | h # _ \<Rightarrow> h)"
      using False by (intro next_thr_put_back) auto
    have "top_priority k'"
    proof (cases "ready_list k")
      case Nil
      then show ?thesis
        using k'(3) by (auto simp: top_priority_def resched_def ins_ordered_def)
    next
      case (Cons h r)
      then have hd: "prio k (running k) \<le> prio k h" "\<forall>t\<in>set r. prio k t \<le> prio k h"
        using False sorted by auto
      then have "tl (ins_ordered (prioritycmp k) (running k) (h # r)) = ins_ordered (prioritycmp k) (running k) r"
        by (auto simp: ins_ordered_def prioritycmp_iff)
      then show ?thesis using k'(3) hd nx Cons by (auto simp: top_priority_def resched_def pr)
    qed
    then show ?thesis using False y k' nx pr by (auto simp: resched_def)
  qed
qed

section \<open>Exit and creation\<close>

lemma pre_sched_dying:
  assumes k: "kinv k" and i: "running k \<noteq> idle_thread k"
  shows "pre_sched (set_thr (running k) (\<lambda>th. th\<lparr>status := THREAD_DYING\<rparr>)
           (k\<lparr>intr_on := False, all_list := remove1 (running k) (all_list k)\<rparr>))"
    (is "pre_sched ?k")
proof -
  note p = kinv_parts[OF k]
  have s: "st ?k u = (if u = running k then Some THREAD_DYING else st k u)" for u
    using kinv_running[OF k] by (auto simp: st_set_thr_status) (simp add: st_def)
  have pr: "prio ?k = prio k" by (auto simp: prio_def set_thr_def fun_eq_iff split: option.splits)
  have "threads_ok (k\<lparr>intr_on := False, all_list := l\<rparr>)" for l using p(1) by (simp add: threads_ok_def)
  then have "threads_ok ?k" by (rule threads_ok_set_thr) simp
  moreover have "queue_ok ?k"
    using p(2) running_not_ready[OF k] pr unfolding queue_ok_def by (auto simp: s)
  moreover have "waiters_ok ?k"
    using p(3) running_not_waiting[OF k] unfolding waiters_ok_def by (auto simp: s)
  moreover have "all_ok ?k"
    using p(4) i unfolding all_ok_def by (auto simp: s set_remove1_eq)
  ultimately show ?thesis using p(5) by (auto simp: pre_sched_def sched_base_def s)
qed

lemma thread_exit_ok:
  assumes k: "kinv k" and pe: "process_exit k = Inr k1" "kinv k1" "in_external_intr k1 = in_external_intr k"
    and i: "running k1 \<noteq> idle_thread k1" and e: "\<not> in_external_intr k"
  shows "\<exists>k'. thread_exit process_exit k = Inr k' \<and> kinv k' \<and> running k' = next_thr k1 \<and> semas k' = semas k1 \<and>
           (running k1 \<noteq> initial_thread k1 \<longrightarrow> thr k' (running k1) = None)"
proof -
  let ?k = "set_thr (running k1) (\<lambda>th. th\<lparr>status := THREAD_DYING\<rparr>)
           (k1\<lparr>intr_on := False, all_list := remove1 (running k1) (all_list k1)\<rparr>)"
  have ps: "pre_sched ?k" using pre_sched_dying[OF pe(2) i] .
  obtain k' where k': "schedule ?k = Inr k'" "kinv k'" "resched ?k k'" using schedule_ok[OF ps] by blast
  have cur: "thread_current (k1\<lparr>intr_on := False\<rparr>) = Inr (running k1)"
    using kinv_current[of "k1\<lparr>intr_on := False\<rparr>"] pe(2) by simp
  have "next_thr ?k = next_thr k1" by (simp add: next_thr_def split: list.split)
  moreover have "next_thr k1 \<noteq> running k1"
    using running_not_ready[OF pe(2)] i by (auto simp: next_thr_def split: list.splits)
  moreover have "st ?k (running k1) = Some THREAD_DYING"
    using kinv_running[OF pe(2)] by (auto simp: st_set_thr_status)
  ultimately show ?thesis
    using k' e pe(1) cur by (auto simp: thread_exit_def intr_context_def intr_disable_def resched_def st_None[symmetric])
qed

text \<open>The state in which \<open>thread_create\<close> wakes the new thread.\<close>

definition new_thread :: "tptr \<Rightarrow> u8 list \<Rightarrow> int \<Rightarrow> kernel \<Rightarrow> thread" where
  "new_thread t name pri k =
     \<lparr>tid = next_tid k, status = THREAD_BLOCKED, tname = take 15 name, stack = t + PGSIZE - 44,
      priority = pri, original_priority = pri, locksAq = [], lockWait = 0, semWait = 0, file_pointers = replicate 130 0, fd_index = 2,
      parent = running k, children = [], save = 0, exit_status = -1, load = 1, current_dir = 0, conWait = 0, pagedir = 0,
      ticks = 0, magic = THREAD_MAGIC\<rparr>"

definition fresh_semas :: "tptr \<Rightarrow> kernel \<Rightarrow> sema_ref \<Rightarrow> semaphore" where
  "fresh_semas t k = (semas k)(Wait_block t := \<lparr>sem_value = 0, waiters = []\<rparr>,
     Parent_block t := \<lparr>sem_value = 0, waiters = []\<rparr>, Exec_block t := \<lparr>sem_value = 0, waiters = []\<rparr>)"

definition created :: "tptr \<Rightarrow> palloc \<Rightarrow> (u32 \<Rightarrow> u32) \<Rightarrow> u8 list \<Rightarrow> int \<Rightarrow> kernel \<Rightarrow> kernel" where
  "created t p m name pri k =
     (set_thr (running k) (\<lambda>th. th\<lparr>children := children th @ [t]\<rparr>) k)\<lparr>
       pal := p\<lparr>ram := m\<rparr>, all_list := all_list k @ [t], semas := fresh_semas t k, next_tid := next_tid k + 1,
       thr := (thr (set_thr (running k) (\<lambda>th. th\<lparr>children := children th @ [t]\<rparr>) k))(t \<mapsto> new_thread t name pri k)\<rparr>"

lemma thread_create_page:
  assumes k: "kinv k" and e: "\<not> in_external_intr k" and f: "function \<noteq> 0" and pri: "0 \<le> pri" "pri \<le> 63"
    and pg: "palloc_get_page PAL_ZERO (pal k) = Inr (t, p)" "t \<noteq> 0" "thr k t = None"
  shows "\<exists>m. thread_create kt se name pri function aux k
     = ebind (thread_unblock t (created t p m name pri k)) (\<lambda>k'. Inr (next_tid k, k'))"
proof -
  obtain c where c: "thr k (running k) = Some c" "status c = THREAD_RUNNING" using kinv_running[OF k] by blast
  have cm: "magic c = THREAD_MAGIC" "running k \<noteq> 0" using kinv_parts(1)[OF k] c unfolding threads_ok_def by auto
  have tn: "t \<noteq> running k" using c pg(3) by auto
  define m where "m = (ram p)(t + PGSIZE - 12 := 0, t + PGSIZE - 8 := function, t + PGSIZE - 4 := aux,
    t + PGSIZE - 16 := kt, t + PGSIZE - 28 := se, t + PGSIZE - 36 := 0)"
  have eq: "ebind (thread_unblock t a) g = ebind (thread_unblock t b) g" if "a = b" for a b g
    using that by simp
  show ?thesis
  proof (rule exI[of _ m], cases "intr_on k")
    case True
    then show "thread_create kt se name pri function aux k
        = ebind (thread_unblock t (created t p m name pri k)) (\<lambda>k'. Inr (next_tid k, k'))"
      using f pri pg tn c cm e
      by (simp add: thread_create_def init_thread_def sema_init_def allocate_tid_def thread_current_def running_thread_def
        is_thread_def get_thr_def intr_disable_def intr_get_level_def alloc_frame_def poke_def intr_set_level_def
        intr_enable_def intr_context_def Let_def set_thr_def)
       (rule eq, rule kernel.equality, simp_all add: created_def new_thread_def fresh_semas_def set_thr_def m_def)
  next
    case False
    then show "thread_create kt se name pri function aux k
        = ebind (thread_unblock t (created t p m name pri k)) (\<lambda>k'. Inr (next_tid k, k'))"
      using f pri pg tn c cm e
      by (simp add: thread_create_def init_thread_def sema_init_def allocate_tid_def thread_current_def running_thread_def
        is_thread_def get_thr_def intr_disable_def intr_get_level_def alloc_frame_def poke_def intr_set_level_def
        intr_enable_def intr_context_def Let_def set_thr_def)
       (rule eq, rule kernel.equality, simp_all add: created_def new_thread_def fresh_semas_def set_thr_def m_def)
  qed
qed

lemma kinv_created:
  assumes k: "kinv k" and p: "palloc_wf p" "used_pages (kernel_pool p) = insert t (used_pages (kernel_pool (pal k)))"
      "pool_size (kernel_pool p) = pool_size (kernel_pool (pal k))" "pool_page (kernel_pool p) = pool_page (kernel_pool (pal k))"
    and t: "t \<noteq> 0" "thr k t = None"
  shows "kinv (created t p m name pri k)" (is "kinv ?k")
    and "st (created t p m name pri k) t = Some THREAD_BLOCKED"
    and "\<forall>s. t \<notin> set (waiters (semas (created t p m name pri k) s))"
proof -
  note q = kinv_parts[OF k]
  obtain c where c: "thr k (running k) = Some c" "status c = THREAD_RUNNING" using kinv_running[OF k] by blast
  have tn: "t \<noteq> running k" using c t(2) by auto
  have s: "st ?k u = (if u = t then Some THREAD_BLOCKED else st k u)" for u
    using c by (auto simp: st_def created_def new_thread_def set_thr_def)
  have f: "ready_list ?k = ready_list k" "idle_thread ?k = idle_thread k" "initial_thread ?k = initial_thread k"
    "running ?k = running k" "all_list ?k = all_list k @ [t]" by (simp_all add: created_def)
  have stt: "st k t = None" using t(2) by (simp add: st_def)
  have w: "waiters (semas ?k x) = (if x \<in> {Wait_block t, Parent_block t, Exec_block t} then [] else waiters (semas k x))" for x
    by (simp add: created_def fresh_semas_def)
  have wf: "palloc_wf (p\<lparr>ram := m\<rparr>)" using p(1) by (simp add: palloc_wf_def)
  have th: "thr ?k u = (if u = t then Some (new_thread t name pri k)
      else if u = running k then Some (c\<lparr>children := children c @ [t]\<rparr>) else thr k u)" for u
    using c by (simp add: created_def set_thr_def)
  have pal: "pal ?k = p\<lparr>ram := m\<rparr>" by (simp add: created_def)
  have old: "u \<noteq> 0 \<and> magic x = THREAD_MAGIC \<and> (u = initial_thread k \<or> u \<in> used_pages (kernel_pool (pal k)))"
    if "thr k u = Some x" for u x using q(1) that unfolding threads_ok_def by blast
  have new: "u \<noteq> 0 \<and> magic x = THREAD_MAGIC \<and> (u = initial_thread k \<or> u \<in> used_pages (kernel_pool p))"
    if "thr ?k u = Some x" for u x
  proof -
    consider "u = t" | "u \<noteq> t" "u = running k" | "u \<noteq> t" "u \<noteq> running k" by blast
    then show ?thesis
    proof cases
      case 1
      then show ?thesis using that t(1) p(2) by (auto simp: th new_thread_def)
    next
      case 2
      then show ?thesis using that old[OF c(1)] p(2) by (auto simp: th)
    next
      case 3
      then show ?thesis using that old[of u x] p(2) by (auto simp: th)
    qed
  qed
  have pool: "\<forall>i<pool_size (kernel_pool p). pool_page (kernel_pool p) i \<noteq> initial_thread k"
    using q(1) p(3,4) by (simp add: threads_ok_def)
  have kp: "kernel_pool (p\<lparr>ram := m\<rparr>) = kernel_pool p" by simp
  have "threads_ok ?k" unfolding threads_ok_def f pal kp
  proof (intro conjI allI impI)
    show "thr ?k (running k) \<noteq> None" using tn by (simp add: th)
  qed (use wf pool in \<open>auto dest: new\<close>)
  moreover have "t \<notin> set (ready_list k)" using q(2) stt by (auto simp: queue_ok_def)
  then have pr: "prio ?k u = prio k u" if "u \<in> set (ready_list k)" for u
    using that c(1) by (cases "u = running k") (auto simp: prio_def th)
  have "sorted_wrt (\<lambda>a b. prio ?k b \<le> prio ?k a) (ready_list k)"
    using q(2) sorted_wrt_mono_rel[of "ready_list k" "\<lambda>a b. prio k b \<le> prio k a"] by (simp add: queue_ok_def pr)
  then have "queue_ok ?k"
    using q(2) stt \<open>t \<notin> set (ready_list k)\<close> unfolding queue_ok_def f by (simp add: s)
  moreover have tw: "t \<notin> set (waiters (semas k x))" for x using q(3) stt unfolding waiters_ok_def by force
  then have "waiters_ok ?k" using q(3) unfolding waiters_ok_def by (auto simp: s f w)
  moreover have "all_ok ?k" using q(4) stt unfolding all_ok_def by (auto simp: s f)
  ultimately show "kinv ?k"
    using q(5,6) tn stt c unfolding kinv_def sched_base_def space_ok_def
    by (auto simp: s f) (auto simp: created_def set_thr_def)
  show "st ?k t = Some THREAD_BLOCKED" by (simp add: s)
  show "\<forall>x. t \<notin> set (waiters (semas ?k x))" using tw by (simp add: w)
qed

lemma pool_of_False [simp]: "pool_of False s = kernel_pool s"
  by (simp add: pool_of_def)

lemma thread_create_ok:
  assumes k: "kinv k" and e: "\<not> in_external_intr k" and f: "function \<noteq> 0" and pri: "0 \<le> pri" "pri \<le> 63"
  shows "(\<exists>t k'. thread_create kt se name pri function aux k = Inr (next_tid k, k') \<and> kinv k' \<and>
            thr k t = None \<and> st k' t = Some THREAD_READY \<and> prio k' t = pri \<and> running k' = running k \<and>
            set (ready_list k') = insert t (set (ready_list k)) \<and> next_tid k' = next_tid k + 1) \<or>
         thread_create kt se name pri function aux k = Inr (-1, k)"
proof -
  note q = kinv_parts[OF k]
  have wf: "palloc_wf (pal k)" using q(1) by (simp add: threads_ok_def)
  have fl: "False = (and PAL_ZERO PAL_USER \<noteq> 0)" "and PAL_ZERO PAL_ASSERT = 0"
    by (simp_all add: PAL_ZERO_def PAL_USER_def PAL_ASSERT_def)
  show ?thesis
  proof (cases rule: palloc_get_page_cases[OF wf fl(1)])
    case (1 t p)
    have tn: "t \<noteq> initial_thread k"
    proof -
      have "t \<in> used_pages (kernel_pool p)" using 1 by simp
      then obtain i where "i < pool_size (kernel_pool p)" "t = pool_page (kernel_pool p) i"
        using used_pages_mem by blast
      then show ?thesis using 1 q(1) by (auto simp: threads_ok_def)
    qed
    then have tt: "thr k t = None"
      using 1(6) q(1) unfolding threads_ok_def pool_of_False by (cases "thr k t") blast+
    obtain m where m: "thread_create kt se name pri function aux k
        = ebind (thread_unblock t (created t p m name pri k)) (\<lambda>k'. Inr (next_tid k, k'))"
      using thread_create_page[OF k e f pri 1(1,3) tt] by blast
    let ?k = "created t p m name pri k"
    have c: "kinv ?k" "st ?k t = Some THREAD_BLOCKED" "\<forall>s. t \<notin> set (waiters (semas ?k s))"
      using kinv_created[OF k 1(2) _ _ _ 1(3) tt] 1(7,9,10) by simp_all
    have ids: "idle_thread ?k = idle_thread k" "in_external_intr ?k = in_external_intr k" "running ?k = running k"
      "ready_list ?k = ready_list k" "next_tid ?k = next_tid k + 1" "prio ?k t = pri" "thr ?k t \<noteq> None"
      by (simp_all add: created_def prio_def new_thread_def)
    have "idle_thread k \<noteq> t" using q(4) tt by (auto simp: all_ok_def st_def)
    then have "kinv (made_ready t ?k)" using kinv_made_ready[OF c(1,2) _ c(3)] ids by simp
    moreover have "thread_unblock t ?k = Inr (made_ready t ?k)"
      using thread_unblock_ok[OF kinv_parts(1)[OF c(1)] c(2)] e ids by simp
    moreover have "next_tid (made_ready t ?k) = next_tid k + 1" using ids by (simp add: made_ready_def)
    ultimately show ?thesis
      using m tt ids by (intro disjI1 exI[of _ t] exI[of _ "made_ready t ?k"]) (auto simp: st_made_ready)
  next
    case 2
    then show ?thesis using f fl(2) by (simp add: thread_create_def)
  qed
qed

lemma thread_tick_ok:
  assumes k: "kinv k" and e: "in_external_intr k"
  shows "\<exists>k'. thread_tick k = Inr k' \<and> kinv k' \<and> thread_ticks k' = thread_ticks k + 1 \<and>
     (yield_on_return k' \<longleftrightarrow> yield_on_return k \<or> thread_ticks k + 1 \<ge> 4) \<and>
     idle_ticks k' + kernel_ticks k' + user_ticks k' = idle_ticks k + kernel_ticks k + user_ticks k + 1"
proof -
  obtain c where c: "thr k (running k) = Some c" using kinv_running[OF k] by blast
  show ?thesis
    using kinv_current[OF k] c e
    by (auto simp: thread_tick_def intr_yield_on_return_def intr_context_def Let_def
        intro!: kinv_cong[THEN iffD2, OF _ _ _ _ _ _ _ _ _ _ _ k])
qed

section \<open>Properties\<close>

text \<open>A kernel for the witnesses: the initial thread runs, the idle thread is blocked, and a thread
  of higher priority is ready.\<close>

definition wthread :: "int \<Rightarrow> tstatus \<Rightarrow> int \<Rightarrow> thread" where
  "wthread i s pri = \<lparr>tid = i, status = s, tname = [], stack = 0, priority = pri, original_priority = pri,
     locksAq = [], lockWait = 0, semWait = 0, file_pointers = replicate 130 0, fd_index = 2, parent = 0, children = [], save = 0,
     exit_status = -1, load = 1, current_dir = 0, conWait = 0, pagedir = 0, ticks = 0, magic = THREAD_MAGIC\<rparr>"

definition wpool :: palloc where
  "wpool = \<lparr>kernel_pool = \<lparr>used_map = \<lparr>bit_cnt = 4, bits = [3]\<rparr>, base = 0xc0101000\<rparr>,
     user_pool = \<lparr>used_map = \<lparr>bit_cnt = 1, bits = [0]\<rparr>, base = 0xc0108000\<rparr>, ram = (\<lambda>_. 0)\<rparr>"

definition wkern :: kernel where
  "wkern = \<lparr>thr = [0xc000e000 \<mapsto> wthread 1 THREAD_RUNNING 31, 0xc0101000 \<mapsto> wthread 2 THREAD_BLOCKED 0,
       0xc0102000 \<mapsto> wthread 3 THREAD_READY 40],
     ready_list = [0xc0102000], all_list = [0xc000e000, 0xc0101000, 0xc0102000], idle_thread = 0xc0101000,
     initial_thread = 0xc000e000, running = 0xc000e000, intr_on = True, in_external_intr = False,
     yield_on_return = False, idle_ticks = 0, kernel_ticks = 0, user_ticks = 0, thread_ticks = 0, next_tid = 4,
     tail_priority = 0, init_page_dir = 0xc000f000, active_pd = 0xc000f000, esp0 = 0xc000f000,
     semas = (\<lambda>_. \<lparr>sem_value = 0, waiters = []\<rparr>), holder = (\<lambda>_. 0), conds = (\<lambda>_. []), pal = wpool\<rparr>"

lemma wpool_used: "used_pages (kernel_pool wpool) = {0xc0101000, 0xc0102000}"
proof -
  have "used_bits \<lparr>bit_cnt = 4, bits = [3]\<rparr> = {0, 1}"
  proof -
    have "abits \<lparr>bit_cnt = 4, bits = [3]\<rparr> = [True, True, False, False]" by code_simp
    moreover have "i < 4 \<Longrightarrow> i = 0 \<or> i = 1 \<or> i = 2 \<or> i = 3" for i :: nat by linarith
    ultimately show ?thesis by (fastforce simp: used_bits_def)
  qed
  then show ?thesis by (simp add: used_pages_def wpool_def pool_page_def PGSIZE_val)
qed

lemma wpool_wf: "palloc_wf wpool"
  by (simp add: wpool_def palloc_wf_def pool_wf_def pool_size_def bitmap_wf_def unat_BITMAP_ERROR
      page_aligned_def word_unat_eq_iff unat_pg_ofs is_kernel_vaddr_def PHYS_BASE_def)

lemma wkern_inv: "kinv wkern"
proof -
  have pool: "\<forall>i<pool_size (kernel_pool wpool). pool_page (kernel_pool wpool) i \<noteq> 0xc000e000"
  proof -
    have "i < 4 \<Longrightarrow> i = 0 \<or> i = 1 \<or> i = 2 \<or> i = 3" for i :: nat by linarith
    then show ?thesis by (fastforce simp: wpool_def pool_size_def pool_page_def PGSIZE_val)
  qed
  show ?thesis
    using wpool_wf wpool_used pool
    by (auto simp: kinv_def sched_base_def threads_ok_def queue_ok_def waiters_ok_def all_ok_def space_ok_def
        st_def wkern_def wthread_def PGSIZE_val split: if_splits)
qed

text \<open>C18.  In a kernel that satisfies the invariant, \<open>thread_yield\<close> returns or switches, keeps the
  invariant, and leaves a thread running that is at least as urgent as every ready thread, whatever
  the memory behind an empty run queue reads as.  If the caller gives up the processor, the first
  thread of the run queue runs and the caller is queued behind all threads of its own priority.\<close>

theorem thread_yield_correct:
  assumes "kinv k" "\<not> in_external_intr k"
  shows "\<exists>r k'. thread_yield k = Inr (r, k') \<and> kinv k' \<and> (\<forall>t\<in>set (ready_list k'). prio k' t \<le> prio k' (running k')) \<and>
     (case r of None \<Rightarrow> k' = k
      | Some old \<Rightarrow> old = intr_on k \<and> running k' = (case ready_list k of [] \<Rightarrow> running k | h # _ \<Rightarrow> h))"
  using thread_yield_ok[OF assms] unfolding top_priority_def by (fastforce split: option.splits)

theorem thread_yield_correct_witness:
  "\<exists>r k'. thread_yield wkern = Inr (r, k') \<and> kinv k' \<and> (running k' = running wkern \<or> running k' = 0xc0102000)"
proof -
  have "\<not> in_external_intr wkern" "ready_list wkern = [0xc0102000]" by (simp_all add: wkern_def)
  then show ?thesis using thread_yield_correct[OF wkern_inv] by (force split: option.splits)
qed

text \<open>C32.  \<open>thread_create\<close> either finds no page and returns \<open>TID_ERROR\<close> with nothing changed, or makes a
  thread at an address where there was none, with a new identifier and the priority asked for,
  and puts it into the run queue; the invariant of the scheduler is kept.\<close>

theorem thread_create_correct:
  assumes "kinv k" "\<not> in_external_intr k" "function \<noteq> 0" "0 \<le> pri" "pri \<le> 63"
  shows "(\<exists>t k'. thread_create kt se name pri function aux k = Inr (next_tid k, k') \<and> kinv k' \<and>
            thr k t = None \<and> st k' t = Some THREAD_READY \<and> prio k' t = pri \<and> running k' = running k \<and>
            set (ready_list k') = insert t (set (ready_list k)) \<and> next_tid k' = next_tid k + 1) \<or>
         thread_create kt se name pri function aux k = Inr (-1, k)"
  by (rule thread_create_ok[OF assms])

theorem thread_create_correct_witness:
  "kinv wkern \<and> ((\<exists>t k'. thread_create 1 2 [97] 20 4096 0 wkern = Inr (4, k') \<and> kinv k' \<and> prio k' t = 20) \<or>
     thread_create 1 2 [97] 20 4096 0 wkern = Inr (-1, wkern))"
proof -
  have "next_tid wkern = 4" "\<not> in_external_intr wkern" by (simp_all add: wkern_def)
  then show ?thesis using thread_create_correct[OF wkern_inv, of 4096 20 1 2 "[97]" 0] wkern_inv by auto
qed



end
