(* ===== verification/Synch.thy ===== *)
theory Synch
  imports Sched
begin

text \<open>
  Semaphores, locks and condition variables: \<open>src/threads/synch.c\<close>.

  A call that makes its caller wait ends in \<open>schedule\<close>, with another thread running.  Its result is
  then \<open>Some old_level\<close>, and the caller goes on, when it runs again, with the operation that the
  definitions name: \<open>sema_down_loop\<close> is the loop of \<open>sema_down\<close>, entered again after
  \<open>thread_block\<close> has returned.  A result \<open>None\<close> says that the call has returned to its caller.
  \<open>lock_acquire\<close> and \<open>cond_wait\<close> are split in the same way at the points where they may wait.

  Locks and conditions are designated by numbers; the holder of lock \<open>l\<close> and the waiters of a
  condition are fields of the kernel state, and the semaphore inside lock \<open>l\<close> is \<open>Lock_sema l\<close>.
\<close>

definition sema_down_loop :: "sema_ref \<Rightarrow> bool \<Rightarrow> kernel \<Rightarrow> (bool option \<times> kernel) res" where
  "sema_down_loop s old_level k =
     (if sem_value (semas k s) = 0 then
        ebind (thread_current k) (\<lambda>t.
        let k = k\<lparr>semas := (semas k)(s := (semas k s)\<lparr>waiters := waiters (semas k s) @ [t]\<rparr>)\<rparr>
        in ebind (thread_block k) (\<lambda>k. Inr (Some old_level, k)))
      else
        let k = k\<lparr>semas := (semas k)(s := (semas k s)\<lparr>sem_value := sem_value (semas k s) - 1\<rparr>)\<rparr>
        in ebind (intr_set_level old_level k) (\<lambda>k. Inr (None, k)))"

definition sema_down :: "sema_ref \<Rightarrow> kernel \<Rightarrow> (bool option \<times> kernel) res" where
  "sema_down s k =
     ebind (kassert (\<not> intr_context k)) (\<lambda>_.
     let (old_level, k) = intr_disable k in sema_down_loop s old_level k)"

definition sema_try_down :: "sema_ref \<Rightarrow> kernel \<Rightarrow> (bool \<times> kernel) res" where
  "sema_try_down s k =
     (let (old_level, k) = intr_disable k;
          (success, k) =
            (if sem_value (semas k s) > 0
             then (True, k\<lparr>semas := (semas k)(s := (semas k s)\<lparr>sem_value := sem_value (semas k s) - 1\<rparr>)\<rparr>)
             else (False, k))
      in ebind (intr_set_level old_level k) (\<lambda>k. Inr (success, k)))"

definition sema_up :: "sema_ref \<Rightarrow> kernel \<Rightarrow> kernel res" where
  "sema_up s k =
     (let (old_level, k) = intr_disable k
      in ebind (case waiters (semas k s) of
            [] \<Rightarrow> Inr k
          | t # ts \<Rightarrow> thread_unblock t (k\<lparr>semas := (semas k)(s := (semas k s)\<lparr>waiters := ts\<rparr>)\<rparr>)) (\<lambda>k.
         let k = k\<lparr>semas := (semas k)(s := (semas k s)\<lparr>sem_value := sem_value (semas k s) + 1\<rparr>)\<rparr>
         in intr_set_level old_level k))"

definition lock_held_by_current_thread :: "nat \<Rightarrow> kernel \<Rightarrow> bool res" where
  "lock_held_by_current_thread l k = ebind (thread_current k) (\<lambda>t. Inr (holder k l = t))"

text \<open>The end of \<open>lock_acquire\<close>, after \<open>sema_down\<close> has returned.\<close>

definition set_holder :: "nat \<Rightarrow> kernel \<Rightarrow> kernel res" where
  "set_holder l k = ebind (thread_current k) (\<lambda>t. Inr (k\<lparr>holder := (holder k)(l := t)\<rparr>))"

definition then_hold :: "nat \<Rightarrow> bool option \<times> kernel \<Rightarrow> (bool option \<times> kernel) res" where
  "then_hold l r = (case r of (None, k) \<Rightarrow> ebind (set_holder l k) (\<lambda>k. Inr (None, k)) | (Some old, k) \<Rightarrow> Inr (Some old, k))"

definition lock_acquire :: "nat \<Rightarrow> kernel \<Rightarrow> (bool option \<times> kernel) res" where
  "lock_acquire l k =
     ebind (kassert (\<not> intr_context k)) (\<lambda>_.
     ebind (lock_held_by_current_thread l k) (\<lambda>h. ebind (kassert (\<not> h)) (\<lambda>_.
     ebind (sema_down (Lock_sema l) k) (then_hold l))))"

definition lock_try_acquire :: "nat \<Rightarrow> kernel \<Rightarrow> (bool \<times> kernel) res" where
  "lock_try_acquire l k =
     ebind (lock_held_by_current_thread l k) (\<lambda>h. ebind (kassert (\<not> h)) (\<lambda>_.
     ebind (sema_try_down (Lock_sema l) k) (\<lambda>(success, k).
     if success then ebind (set_holder l k) (\<lambda>k. Inr (True, k)) else Inr (False, k))))"

definition lock_release :: "nat \<Rightarrow> kernel \<Rightarrow> kernel res" where
  "lock_release l k =
     ebind (lock_held_by_current_thread l k) (\<lambda>h. ebind (kassert h) (\<lambda>_.
     sema_up (Lock_sema l) (k\<lparr>holder := (holder k)(l := 0)\<rparr>)))"

definition cond_init :: "nat \<Rightarrow> kernel \<Rightarrow> kernel" where
  "cond_init c k = k\<lparr>conds := (conds k)(c := [])\<rparr>"

text \<open>\<open>cond_wait\<close> up to the wait for the signal; \<open>w\<close> is the semaphore on the stack of the caller.
  When \<open>sema_down\<close> has returned, the caller goes on with \<open>lock_acquire l\<close>.\<close>

definition cond_wait :: "nat \<Rightarrow> nat \<Rightarrow> nat \<Rightarrow> kernel \<Rightarrow> (bool option \<times> kernel) res" where
  "cond_wait c l w k =
     ebind (kassert (\<not> intr_context k)) (\<lambda>_.
     ebind (lock_held_by_current_thread l k) (\<lambda>h. ebind (kassert h) (\<lambda>_.
     let k = sema_init (Cond_sema w) 0 k;
         k = k\<lparr>conds := (conds k)(c := conds k c @ [w])\<rparr>
     in ebind (lock_release l k) (\<lambda>k. sema_down (Cond_sema w) k))))"

definition cond_signal :: "nat \<Rightarrow> nat \<Rightarrow> kernel \<Rightarrow> kernel res" where
  "cond_signal c l k =
     ebind (kassert (\<not> intr_context k)) (\<lambda>_.
     ebind (lock_held_by_current_thread l k) (\<lambda>h. ebind (kassert h) (\<lambda>_.
     case conds k c of [] \<Rightarrow> Inr k
     | w # ws \<Rightarrow> sema_up (Cond_sema w) (k\<lparr>conds := (conds k)(c := ws)\<rparr>))))"

text \<open>The loop of \<open>cond_broadcast\<close>, with a bound on the number of iterations.\<close>

fun cond_broadcast :: "nat \<Rightarrow> nat \<Rightarrow> nat \<Rightarrow> kernel \<Rightarrow> kernel res" where
  "cond_broadcast 0 c l k = Inl Out_of_fuel"
| "cond_broadcast (Suc n) c l k =
     (if conds k c = [] then Inr k
      else ebind (cond_signal c l k) (\<lambda>k. cond_broadcast n c l k))"


section \<open>Threads that start\<close>

text \<open>\<open>thread_start\<close> up to the wait for the idle thread; \<open>s\<close> is the semaphore \<open>idle_started\<close>.\<close>

definition thread_start :: "u32 \<Rightarrow> u32 \<Rightarrow> u32 \<Rightarrow> nat \<Rightarrow> kernel \<Rightarrow> (bool option \<times> kernel) res" where
  "thread_start kernel_thread switch_entry idle s k =
     (let k = sema_init (Sema s) 0 k
      in ebind (thread_create kernel_thread switch_entry (map (of_nat \<circ> of_char) ''idle'') PRI_MIN idle (of_nat s) k) (\<lambda>(_, k).
         ebind (intr_enable k) (\<lambda>(_, k). sema_down (Sema s) k)))"

text \<open>One turn of the loop of \<open>idle\<close>, to the call of \<open>thread_block\<close>, and the beginning of \<open>idle\<close>.\<close>

definition idle_once :: "kernel \<Rightarrow> kernel res" where
  "idle_once k = (let (_, k) = intr_disable k in thread_block k)"

definition idle_begin :: "nat \<Rightarrow> kernel \<Rightarrow> kernel res" where
  "idle_begin s k = ebind (thread_current k) (\<lambda>t. ebind (sema_up (Sema s) (k\<lparr>idle_thread := t\<rparr>)) idle_once)"

text \<open>\<open>kernel_thread\<close>, with the thread function as an argument.\<close>

definition kernel_thread_body :: "(kernel \<Rightarrow> kernel res) \<Rightarrow> (kernel \<Rightarrow> kernel res) \<Rightarrow> kernel \<Rightarrow> kernel res" where
  "kernel_thread_body process_exit function k =
     ebind (intr_enable k) (\<lambda>(_, k). ebind (function k) (\<lambda>k. thread_exit process_exit k))"

section \<open>What the operations do\<close>

lemma intr_set_level_ok: "\<not> in_external_intr k \<Longrightarrow> intr_set_level b k = Inr (k\<lparr>intr_on := b\<rparr>)"
  by (simp add: intr_set_level_def intr_enable_def intr_disable_def intr_context_def)

text \<open>The state of the caller's machine after it went to sleep on semaphore \<open>s\<close>.\<close>

definition slept :: "sema_ref \<Rightarrow> kernel \<Rightarrow> kernel \<Rightarrow> bool" where
  "slept s k k' \<longleftrightarrow> kinv k' \<and> \<not> intr_on k' \<and> \<not> in_external_intr k' \<and> semas k' = semas (wait_on s k) \<and>
     holder k' = holder k \<and> conds k' = conds k \<and> idle_thread k' = idle_thread k \<and>
     running k' = next_thr k \<and> running k' \<noteq> running k \<and>
     (\<forall>t. st k' t = (if t = next_thr k then Some THREAD_RUNNING else if t = running k then Some THREAD_BLOCKED else st k t))"

definition decreased :: "sema_ref \<Rightarrow> kernel \<Rightarrow> kernel" where
  "decreased s k = k\<lparr>semas := (semas k)(s := (semas k s)\<lparr>sem_value := sem_value (semas k s) - 1\<rparr>)\<rparr>"

lemma next_thr_not_running: "kinv k \<Longrightarrow> running k \<noteq> idle_thread k \<Longrightarrow> next_thr k \<noteq> running k"
  using running_not_ready[of k] by (cases "ready_list k") (auto simp: next_thr_def)

lemma sema_down_loop_waits:
  assumes k: "kinv k" "\<not> intr_on k" "\<not> in_external_intr k" "running k \<noteq> idle_thread k" and z: "sem_value (semas k s) = 0"
  shows "\<exists>k'. sema_down_loop s old k = Inr (Some old, k') \<and> slept s k k'"
proof -
  let ?b = "set_thr (running k) (\<lambda>th. th\<lparr>status := THREAD_BLOCKED\<rparr>) (wait_on s k)"
  obtain th where th: "thr k (running k) = Some th" "status th = THREAD_RUNNING" using kinv_running[OF k(1)] by blast
  have w: "threads_ok (wait_on s k)" "thr (wait_on s k) = thr k" "running (wait_on s k) = running k"
    "in_external_intr (wait_on s k) = in_external_intr k" "intr_on (wait_on s k) = intr_on k"
    "ready_list (wait_on s k) = ready_list k" "idle_thread (wait_on s k) = idle_thread k"
    "holder (wait_on s k) = holder k" "conds (wait_on s k) = conds k"
    using kinv_parts(1)[OF k(1)] by (simp_all add: wait_on_def)
  have cur: "thread_current (wait_on s k) = Inr (running k)"
    using thread_current_ok[OF w(1)] th w(2,3) by simp
  have bl: "thread_block (wait_on s k) = schedule ?b"
    using k w cur by (simp add: thread_block_def intr_context_def intr_get_level_def)
  obtain k' where k': "schedule ?b = Inr k'" "kinv k'" "resched ?b k'"
    using schedule_ok[OF pre_sched_blocked(2)[OF k(1,2,4)]] by blast
  have s: "st ?b u = (if u = running k then Some THREAD_BLOCKED else st k u)" for u
    using th w(2) by (simp add: st_set_thr_status) (simp add: st_def)
  have nt: "next_thr ?b = next_thr k" by (simp add: next_thr_def w split: list.split)
  have "sema_down_loop s old k = Inr (Some old, k')"
    using z kinv_current[OF k(1)] bl k'(1) by (simp add: sema_down_loop_def wait_on_def Let_def)
  moreover have "slept s k k'"
    using k' k w next_thr_not_running[OF k(1,4)] unfolding slept_def resched_def nt s by simp
  ultimately show ?thesis by blast
qed

lemma sema_down_loop_goes:
  "\<not> in_external_intr k \<Longrightarrow> sem_value (semas k s) \<noteq> 0 \<Longrightarrow>
   sema_down_loop s old k = Inr (None, (decreased s k)\<lparr>intr_on := old\<rparr>)"
  by (simp add: sema_down_loop_def decreased_def Let_def intr_set_level_ok)

lemma sema_down_eq: "\<not> in_external_intr k \<Longrightarrow> sema_down s k = sema_down_loop s (intr_on k) (k\<lparr>intr_on := False\<rparr>)"
  by (simp add: sema_down_def intr_context_def intr_disable_def intr_get_level_def)

lemma sema_try_down_eq:
  "\<not> in_external_intr k \<Longrightarrow> sema_try_down s k = Inr (if sem_value (semas k s) > 0 then (True, decreased s k) else (False, k))"
  by (simp add: sema_try_down_def intr_disable_def intr_get_level_def intr_set_level_ok decreased_def Let_def)

text \<open>The effect of \<open>sema_up\<close>: the first waiter, if there is one, becomes ready.\<close>

definition upped :: "sema_ref \<Rightarrow> kernel \<Rightarrow> kernel \<Rightarrow> bool" where
  "upped s k k' \<longleftrightarrow> kinv k' \<and> intr_on k' = intr_on k \<and> in_external_intr k' = in_external_intr k \<and>
     semas k' = (semas k)(s := \<lparr>sem_value = sem_value (semas k s) + 1, waiters = tl (waiters (semas k s))\<rparr>) \<and>
     holder k' = holder k \<and> conds k' = conds k \<and> idle_thread k' = idle_thread k \<and> running k' = running k \<and>
     (\<forall>t. st k' t = (if waiters (semas k s) \<noteq> [] \<and> t = hd (waiters (semas k s)) then Some THREAD_READY else st k t))"

lemma kinv_sem_value:
  "kinv (k\<lparr>semas := (semas k)(s := (semas k s)\<lparr>sem_value := v\<rparr>)\<rparr>) = kinv k"
  by (rule kinv_cong; simp)

lemma kinv_pop_waiter:
  assumes "kinv k" and w: "waiters (semas k s) = t # ts"
  shows "kinv (k\<lparr>semas := (semas k)(s := (semas k s)\<lparr>waiters := ts\<rparr>)\<rparr>)" (is "kinv ?k")
    and "\<forall>s'. t \<notin> set (waiters (((semas k)(s := (semas k s)\<lparr>waiters := ts\<rparr>)) s'))"
proof -
  note p = kinv_parts[OF assms(1)]
  have d: "distinct (t # ts)" "\<And>s'. t \<in> set (waiters (semas k s')) \<Longrightarrow> s' = s"
    using p(3) w unfolding waiters_ok_def by (metis, metis list.set_intros(1))
  then show "\<forall>s'. t \<notin> set (waiters (((semas k)(s := (semas k s)\<lparr>waiters := ts\<rparr>)) s'))" by auto
  have e: "st ?k = st k" "prio ?k = prio k" by (auto simp: st_def prio_def fun_eq_iff)
  have sub: "set (waiters (semas ?k s')) \<subseteq> set (waiters (semas k s'))" "distinct (waiters (semas ?k s'))" for s'
    using w p(3) d(1) by (auto simp: waiters_ok_def)
  have "waiters_ok ?k"
  proof -
    have wk: "idle_thread k \<notin> set (waiters (semas k s'))" "t' \<in> set (waiters (semas k s')) \<Longrightarrow> st k t' = Some THREAD_BLOCKED"
      "t' \<in> set (waiters (semas k s')) \<Longrightarrow> t' \<in> set (waiters (semas k s'')) \<Longrightarrow> s' = s''" for s' s'' t'
      using p(3) unfolding waiters_ok_def by blast+
    have "idle_thread ?k = idle_thread k" by simp
    then show ?thesis
      unfolding waiters_ok_def e using sub wk by (metis (no_types, lifting) subsetD)
  qed
  moreover have "threads_ok ?k" using p(1) by simp
  moreover have "queue_ok ?k" using p(2) by (simp only: queue_ok_def e) simp
  moreover have "all_ok ?k" using p(4) by (auto simp: all_ok_def e)
  moreover have "space_ok ?k" using p(6) by (auto simp: space_ok_def)
  ultimately show "kinv ?k" using p(5) by (simp add: kinv_def sched_base_def e)
qed

lemma sema_up_ok:
  assumes k: "kinv k" "\<not> in_external_intr k"
  shows "\<exists>k'. sema_up s k = Inr k' \<and> upped s k k'"
proof (cases "waiters (semas k s)")
  case Nil
  let ?k = "k\<lparr>semas := (semas k)(s := (semas k s)\<lparr>sem_value := sem_value (semas k s) + 1\<rparr>)\<rparr>"
  have "sema_up s k = Inr ?k"
    using Nil k(2) by (simp add: sema_up_def intr_disable_def intr_get_level_def intr_set_level_ok)
  moreover have e: "(semas k s)\<lparr>sem_value := v\<rparr> = \<lparr>sem_value = v, waiters = []\<rparr>" for v
    using Nil by (cases "semas k s") simp
  have "kinv ?k" using kinv_sem_value k(1) by blast
  then have "upped s k ?k" unfolding e using Nil k by (simp add: upped_def st_def)
  ultimately show ?thesis by blast
next
  case (Cons t ts)
  let ?p = "(k\<lparr>intr_on := False\<rparr>)\<lparr>semas := (semas k)(s := (semas k s)\<lparr>waiters := ts\<rparr>)\<rparr>"
  let ?r = "made_ready t ?p"
  let ?k = "?r\<lparr>semas := (semas ?r)(s := (semas ?r s)\<lparr>sem_value := sem_value (semas ?r s) + 1\<rparr>)\<rparr>"
  have p: "kinv ?p" "\<forall>s'. t \<notin> set (waiters (semas ?p s'))"
    using kinv_pop_waiter[of "k\<lparr>intr_on := False\<rparr>" s t ts] k(1) Cons by simp_all
  have b: "st k t = Some THREAD_BLOCKED" "t \<noteq> idle_thread k"
    using kinv_parts(3)[OF k(1)] Cons unfolding waiters_ok_def by (metis list.set_intros(1))+
  then have b': "st ?p t = Some THREAD_BLOCKED" "t \<noteq> idle_thread ?p" by (simp_all add: st_def)
  have "thread_unblock t ?p = Inr ?r" using thread_unblock_ok[OF kinv_parts(1)[OF p(1)] b'(1)] by simp
  then have up: "sema_up s k = Inr (?k\<lparr>intr_on := intr_on k\<rparr>)"
    using Cons k(2) by (simp add: sema_up_def intr_disable_def intr_get_level_def intr_set_level_ok)
  have kr: "kinv ?r" using kinv_made_ready[OF p(1) b' p(2)] .
  obtain th where "thr k t = Some th" using b(1) by (auto simp: st_def)
  then have s: "st ?r u = (if u = t then Some THREAD_READY else st k u)" for u
    by (simp add: st_made_ready) (simp add: st_def)
  have "upped s k (?k\<lparr>intr_on := intr_on k\<rparr>)"
    unfolding upped_def kinv_intr kinv_sem_value using kr Cons s by (auto simp: st_def)
  then show ?thesis using up by blast
qed

end
