(* ===== verification/Synch_Sys.thy ===== *)
theory Synch_Sys
  imports Synch
begin

text \<open>
  Threads that use the operations of theory \<open>Synch\<close>, interleaved by the scheduler.

  A state of the system is the kernel state, for each thread the point of its code where it
  stands, and for each lock the set of the threads that have acquired it and have not released it,
  a record of the history that the code does not have.  A step is one operation called by
  the running thread, or the rest of an operation by a thread that has been switched to.
  Interrupts are off while the code of an operation runs; \<open>lock_acquire\<close> and \<open>lock_release\<close> store
  the holder outside that section, and the step takes the store and the section together.
  A preemption is a call of \<open>thread_yield\<close>.
\<close>

section \<open>The system\<close>

text \<open>What follows \<open>sema_down\<close>: the return to the caller, the rest of \<open>lock_acquire\<close>, or the
  \<open>lock_acquire\<close> at the end of \<open>cond_wait\<close>.\<close>

datatype after = Returns | Holds nat | Relocks nat

text \<open>The point where a thread stands: at the start of \<open>kernel_thread\<close>; in code of its own; at a call of
  \<open>lock_acquire\<close>; in \<open>thread_yield\<close>, after \<open>schedule\<close>; in the loop of \<open>sema_down\<close>, after
  \<open>thread_block\<close>; in the loop of \<open>idle\<close>, after \<open>thread_block\<close>.\<close>

datatype point = Starts | Runs | Locks nat | Yielded bool point | Downs sema_ref bool after | Idles

record sys =
  kern :: kernel
  pc :: "tptr \<Rightarrow> point"
  own :: "nat \<Rightarrow> tptr set"

definition user_sema :: "sema_ref \<Rightarrow> bool" where
  "user_sema s = (case s of Lock_sema _ \<Rightarrow> False | Cond_sema _ \<Rightarrow> False | _ \<Rightarrow> True)"

text \<open>The state after a call of \<open>sema_down\<close>, or a part of it, by thread \<open>t\<close>: it waits, or goes on.\<close>

definition after_down :: "tptr \<Rightarrow> sema_ref \<Rightarrow> after \<Rightarrow> bool option \<times> kernel \<Rightarrow> sys \<Rightarrow> sys" where
  "after_down t s a r S =
     (case r of (Some old, k) \<Rightarrow> S\<lparr>kern := k, pc := (pc S)(t := Downs s old a)\<rparr>
      | (None, k) \<Rightarrow>
          (case a of Returns \<Rightarrow> S\<lparr>kern := k, pc := (pc S)(t := Runs)\<rparr>
           | Holds l \<Rightarrow> S\<lparr>kern := k, pc := (pc S)(t := Runs), own := (own S)(l := insert t (own S l))\<rparr>
           | Relocks l \<Rightarrow> S\<lparr>kern := k, pc := (pc S)(t := Locks l)\<rparr>))"

text \<open>The rest of the operation that called \<open>sema_down\<close>.\<close>

definition resume_down :: "sema_ref \<Rightarrow> bool \<Rightarrow> after \<Rightarrow> kernel \<Rightarrow> (bool option \<times> kernel) res" where
  "resume_down s old a k =
     ebind (sema_down_loop s old k) (\<lambda>r. case a of Holds l \<Rightarrow> then_hold l r | _ \<Rightarrow> Inr r)"

inductive sstep :: "sys \<Rightarrow> sys \<Rightarrow> bool" where
  start: "\<lbrakk>t = running (kern S); pc S t = Starts; intr_enable (kern S) = Inr (old, k)\<rbrakk>
    \<Longrightarrow> sstep S (S\<lparr>kern := k, pc := (pc S)(t := Runs)\<rparr>)"
| idle: "\<lbrakk>t = running (kern S); pc S t = Runs; t = idle_thread (kern S); idle_once (kern S) = Inr k\<rbrakk>
    \<Longrightarrow> sstep S (S\<lparr>kern := k, pc := (pc S)(t := Idles)\<rparr>)"
| idle_wakes: "\<lbrakk>t = running (kern S); pc S t = Idles; intr_enable (kern S) = Inr (old, k)\<rbrakk>
    \<Longrightarrow> sstep S (S\<lparr>kern := k, pc := (pc S)(t := Runs)\<rparr>)"
| yield: "\<lbrakk>t = running (kern S); pc S t = Runs \<or> pc S t = Locks l; thread_yield (kern S) = Inr (r, k)\<rbrakk>
    \<Longrightarrow> sstep S (S\<lparr>kern := k, pc := (case r of None \<Rightarrow> pc S | Some old \<Rightarrow> (pc S)(t := Yielded old (pc S t)))\<rparr>)"
| yielded: "\<lbrakk>t = running (kern S); pc S t = Yielded old p; intr_set_level old (kern S) = Inr k\<rbrakk>
    \<Longrightarrow> sstep S (S\<lparr>kern := k, pc := (pc S)(t := p)\<rparr>)"
| down: "\<lbrakk>t = running (kern S); pc S t = Runs; t \<noteq> idle_thread (kern S); user_sema s; sema_down s (kern S) = Inr r\<rbrakk>
    \<Longrightarrow> sstep S (after_down t s Returns r S)"
| resume: "\<lbrakk>t = running (kern S); pc S t = Downs s old a; resume_down s old a (kern S) = Inr r\<rbrakk>
    \<Longrightarrow> sstep S (after_down t s a r S)"
| up: "\<lbrakk>pc S (running (kern S)) = Runs; user_sema s; sema_up s (kern S) = Inr k\<rbrakk>
    \<Longrightarrow> sstep S (S\<lparr>kern := k\<rparr>)"
| try_down: "\<lbrakk>pc S (running (kern S)) = Runs; user_sema s; sema_try_down s (kern S) = Inr (b, k)\<rbrakk>
    \<Longrightarrow> sstep S (S\<lparr>kern := k\<rparr>)"
| acquire: "\<lbrakk>t = running (kern S); pc S t = Runs \<or> pc S t = Locks l; t \<noteq> idle_thread (kern S);
    lock_acquire l (kern S) = Inr r\<rbrakk>
    \<Longrightarrow> sstep S (after_down t (Lock_sema l) (Holds l) r S)"
| try_acquire: "\<lbrakk>t = running (kern S); pc S t = Runs; lock_try_acquire l (kern S) = Inr (b, k)\<rbrakk>
    \<Longrightarrow> sstep S (S\<lparr>kern := k, own := (own S)(l := own S l \<union> (if b then {t} else {}))\<rparr>)"
| release: "\<lbrakk>t = running (kern S); pc S t = Runs; lock_release l (kern S) = Inr k\<rbrakk>
    \<Longrightarrow> sstep S (S\<lparr>kern := k, own := (own S)(l := own S l - {t})\<rparr>)"
| wait: "\<lbrakk>t = running (kern S); pc S t = Runs; t \<noteq> idle_thread (kern S);
    waiters (semas (kern S) (Cond_sema w)) = []; \<forall>u old a. pc S u \<noteq> Downs (Cond_sema w) old a;
    cond_wait c l w (kern S) = Inr r\<rbrakk>
    \<Longrightarrow> sstep S (after_down t (Cond_sema w) (Relocks l) r (S\<lparr>own := (own S)(l := own S l - {t})\<rparr>))"
| signal: "\<lbrakk>pc S (running (kern S)) = Runs; cond_signal c l (kern S) = Inr k\<rbrakk>
    \<Longrightarrow> sstep S (S\<lparr>kern := k\<rparr>)"
| broadcast: "\<lbrakk>pc S (running (kern S)) = Runs; cond_broadcast n c l (kern S) = Inr k\<rbrakk>
    \<Longrightarrow> sstep S (S\<lparr>kern := k\<rparr>)"

section \<open>The invariant\<close>

text \<open>The threads that are in the loop of \<open>sema_down\<close> on \<open>s\<close> and have been woken.\<close>

definition woken :: "sema_ref \<Rightarrow> kernel \<Rightarrow> (tptr \<Rightarrow> point) \<Rightarrow> tptr set" where
  "woken s k p = {t. (\<exists>old a. p t = Downs s old a) \<and> t \<notin> set (waiters (semas k s))}"

definition lock_ok :: "nat \<Rightarrow> sys \<Rightarrow> bool" where
  "lock_ok l S \<longleftrightarrow>
     sem_value (semas (kern S) (Lock_sema l)) = 1 \<and> holder (kern S) l = 0 \<and> own S l = {} \<or>
     sem_value (semas (kern S) (Lock_sema l)) = 0 \<and> holder (kern S) l \<noteq> 0 \<and> own S l = {holder (kern S) l}"

text \<open>A thread that waits for the semaphore of a lock is in \<open>lock_acquire\<close>; a thread that was preempted was
  in code of its own or at a call of \<open>lock_acquire\<close>.\<close>

definition point_ok :: "point \<Rightarrow> bool" where
  "point_ok p = (case p of Downs s _ a \<Rightarrow> (case s of Lock_sema l \<Rightarrow> a = Holds l | _ \<Rightarrow> (\<forall>l. a \<noteq> Holds l))
     | Yielded _ q \<Rightarrow> (case q of Runs \<Rightarrow> True | Locks _ \<Rightarrow> True | _ \<Rightarrow> False) | _ \<Rightarrow> True)"

fun in_down :: "point \<Rightarrow> bool" where
  "in_down (Downs _ _ _) = True"
| "in_down _ = False"

definition sync_ok :: "kernel \<Rightarrow> (tptr \<Rightarrow> point) \<Rightarrow> bool" where
  "sync_ok k p \<longleftrightarrow> kinv k \<and> \<not> in_external_intr k \<and>
     (\<forall>s. \<forall>t\<in>set (waiters (semas k s)). \<exists>old a. p t = Downs s old a) \<and>
     (\<forall>s. waiters (semas k s) \<noteq> [] \<longrightarrow> unat (sem_value (semas k s)) \<le> card (woken s k p)) \<and>
     (\<forall>t. point_ok (p t)) \<and>
     (\<forall>t. st k t = Some THREAD_BLOCKED \<longrightarrow> t = idle_thread k \<or> (\<exists>s. t \<in> set (waiters (semas k s)))) \<and>
     (in_down (p (running k)) \<longrightarrow> \<not> intr_on k) \<and>
     \<not> in_down (p (idle_thread k))"

definition sinv :: "sys \<Rightarrow> bool" where
  "sinv S \<longleftrightarrow> sync_ok (kern S) (pc S) \<and> (\<forall>l. lock_ok l S)"

lemma sync_okD:
  assumes "sync_ok k p"
  shows "kinv k" "\<not> in_external_intr k" "t \<in> set (waiters (semas k s)) \<Longrightarrow> \<exists>old a. p t = Downs s old a"
    "waiters (semas k s) \<noteq> [] \<Longrightarrow> unat (sem_value (semas k s)) \<le> card (woken s k p)"
    "point_ok (p t)"
    "st k t = Some THREAD_BLOCKED \<Longrightarrow> t = idle_thread k \<or> (\<exists>s. t \<in> set (waiters (semas k s)))"
    "in_down (p (running k)) \<Longrightarrow> \<not> intr_on k" "\<not> in_down (p (idle_thread k))"
  using assms unfolding sync_ok_def by blast+

section \<open>Steps that keep it\<close>

text \<open>A change of the running thread, of the interrupt level or of the point of the running thread.\<close>

lemma sync_ok_move:
  assumes S: "sync_ok k p" and k': "kinv k'" "\<not> in_external_intr k'" "semas k' = semas k" "idle_thread k' = idle_thread k"
      "\<And>u. st k' u = Some THREAD_BLOCKED \<Longrightarrow> u = idle_thread k \<or> st k u = Some THREAD_BLOCKED"
    and p: "\<not> in_down (p (running k))" "\<not> in_down q" "point_ok q"
    and off: "running k' \<noteq> running k \<Longrightarrow> \<not> intr_on k'"
  shows "sync_ok k' (p(running k := q))"
proof -
  note d = sync_okD[OF S]
  have nw: "running k \<notin> set (waiters (semas k s))" for s using running_not_waiting[OF d(1)] .
  have "woken s k' (p(running k := q)) = woken s k p" for s
    using p(1,2) by (auto simp: woken_def k'(3))
  moreover have "\<exists>old a. (p(running k := q)) t = Downs s old a" if "t \<in> set (waiters (semas k s))" for s t
    using d(3)[OF that] nw[of s] that by (cases "t = running k") auto
  moreover have "t = idle_thread k \<or> (\<exists>s. t \<in> set (waiters (semas k s)))" if "st k' t = Some THREAD_BLOCKED" for t
    using k'(5)[OF that] d(6)[of t] by blast
  ultimately show ?thesis
    unfolding sync_ok_def k'(3,4) using d(4,5,8) k'(1,2) p off by (auto simp: fun_upd_def)
qed

text \<open>The running thread goes to sleep on a semaphore.\<close>

lemma sync_ok_slept:
  assumes S: "sync_ok k p" and i: "running k \<noteq> idle_thread k" and sl: "slept s (k\<lparr>intr_on := b\<rparr>) k'"
    and p: "\<And>s' old a. p (running k) = Downs s' old a \<Longrightarrow> s' = s" and q: "point_ok (Downs s old a)"
    and z: "sem_value (semas k s) = 0"
  shows "sync_ok k' (p(running k := Downs s old a))" (is "sync_ok k' ?p")
proof -
  note d = sync_okD[OF S]
  have nt: "next_thr (k\<lparr>intr_on := b\<rparr>) = next_thr k" by (simp add: next_thr_def split: list.split)
  have k': "kinv k'" "\<not> intr_on k'" "\<not> in_external_intr k'" "idle_thread k' = idle_thread k"
      "st k' u = (if u = next_thr k then Some THREAD_RUNNING else if u = running k then Some THREAD_BLOCKED else st k u)"
      "waiters (semas k' x) = waiters (semas k x) @ (if x = s then [running k] else [])"
      "sem_value (semas k' x) = sem_value (semas k x)" for u x
    using sl unfolding slept_def nt by (simp_all add: wait_on_def)
  have nw: "running k \<notin> set (waiters (semas k x))" for x using running_not_waiting[OF d(1)] .
  have wk: "woken x k' ?p = woken x k p" if "x \<noteq> s" for x
    using that p by (auto simp: woken_def k'(6))
  have c: "\<exists>old a. ?p t = Downs x old a" if "t \<in> set (waiters (semas k' x))" for x t
    using d(3)[of t x] nw[of x] that by (auto simp: k'(6) split: if_splits)
  have w: "unat (sem_value (semas k' x)) \<le> card (woken x k' ?p)" if "waiters (semas k' x) \<noteq> []" for x
    using that wk[of x] d(4)[of x] z by (cases "x = s") (auto simp: k'(6,7))
  have f: "t = idle_thread k \<or> (\<exists>x. t \<in> set (waiters (semas k' x)))" if "st k' t = Some THREAD_BLOCKED" for t
  proof (cases "t = running k")
    case False
    then show ?thesis using that d(6)[of t] by (fastforce simp: k'(5,6) split: if_splits)
  qed (auto simp: k'(6))
  show ?thesis
    unfolding sync_ok_def k'(4) using k'(1-3) c w f d(5,8) q i by (auto simp: fun_upd_def)
qed

lemma decreased_simps [simp]:
  "waiters (semas (decreased s k) x) = waiters (semas k x)" "running (decreased s k) = running k"
  "idle_thread (decreased s k) = idle_thread k" "st (decreased s k) = st k" "holder (decreased s k) = holder k"
  "conds (decreased s k) = conds k" "in_external_intr (decreased s k) = in_external_intr k"
  "sem_value (semas (decreased s k) x) = sem_value (semas k x) - (if x = s then 1 else 0)"
  by (simp_all add: decreased_def st_def fun_eq_iff)

lemma kinv_decreased [simp]: "kinv (decreased s k) = kinv k"
  by (simp add: decreased_def kinv_sem_value)

text \<open>The running thread takes a unit of a semaphore.\<close>

lemma sync_ok_decreased:
  assumes S: "sync_ok k p" and p: "\<And>s' old a. p (running k) = Downs s' old a \<Longrightarrow> s' = s"
    and q: "\<not> in_down q" "point_ok q" and z: "sem_value (semas k s) \<noteq> 0"
  shows "sync_ok ((decreased s k)\<lparr>intr_on := b\<rparr>) (p(running k := q))" (is "sync_ok ?k ?p")
proof -
  note d = sync_okD[OF S]
  have kv: "kinv ?k" using d(1) by simp
  have e: "waiters (semas ?k x) = waiters (semas k x)" "running ?k = running k" "idle_thread ?k = idle_thread k"
      "st ?k = st k" "in_external_intr ?k = in_external_intr k"
      "sem_value (semas ?k x) = sem_value (semas k x) - (if x = s then 1 else 0)" for x
    by simp_all
  have nw: "running k \<notin> set (waiters (semas k x))" for x using running_not_waiting[OF d(1)] .
  have c: "\<exists>old a. ?p t = Downs x old a" if "t \<in> set (waiters (semas k x))" for x t
    using d(3)[OF that] nw[of x] that by (cases "t = running k") auto
  have w: "unat (sem_value (semas ?k x)) \<le> card (woken x ?k ?p)" if x: "waiters (semas k x) \<noteq> []" for x
  proof (cases "x = s")
    case True
    have "woken s k p - {running k} \<subseteq> woken s ?k ?p" by (auto simp: woken_def e)
    then have "card (woken s k p) - 1 \<le> card (woken s ?k ?p)"
      using card_mono[of "woken s ?k ?p" "woken s k p - {running k}"] by (simp add: card_Diff_singleton_if split: if_splits)
    moreover have "unat (sem_value (semas k s) - 1) = unat (sem_value (semas k s)) - 1"
      using z by (simp add: unat_minus_one)
    ultimately show ?thesis using d(4)[OF x] True by (simp add: e)
  next
    case False
    have "woken x ?k ?p = woken x k p" using False p q(1) by (auto simp: woken_def e)
    then show ?thesis using d(4)[OF x] False by (simp add: e)
  qed
  show ?thesis
    unfolding sync_ok_def e using kv c w d(2,5,6,8) q by (auto simp: fun_upd_def)
qed

text \<open>The running thread releases a unit of a semaphore.\<close>

lemma sync_ok_upped:
  assumes S: "sync_ok k p" and u: "upped s k k'"
  shows "sync_ok k' p"
proof -
  note d = sync_okD[OF S]
  let ?w = "waiters (semas k s)"
  have e: "kinv k'" "running k' = running k" "idle_thread k' = idle_thread k" "intr_on k' = intr_on k"
      "in_external_intr k' = in_external_intr k"
      "st k' t = (if ?w \<noteq> [] \<and> t = hd ?w then Some THREAD_READY else st k t)"
      "waiters (semas k' x) = (if x = s then tl ?w else waiters (semas k x))"
      "sem_value (semas k' x) = sem_value (semas k x) + (if x = s then 1 else 0)" for x t
    using u unfolding upped_def by simp_all
  have dist: "distinct ?w" using kinv_parts(3)[OF d(1)] by (simp add: waiters_ok_def)
  have sub: "set (waiters (semas k' x)) \<subseteq> set (waiters (semas k x))" for x
    by (auto simp: e(7) dest: list.set_sel(2)[rotated]) (metis empty_iff list.sel(2) list.set(1) list.set_sel(2))
  have c: "\<exists>old a. p t = Downs x old a" if "t \<in> set (waiters (semas k' x))" for x t
    using d(3)[of t x] sub that by blast
  have w: "unat (sem_value (semas k' x)) \<le> card (woken x k' p)" if x: "waiters (semas k' x) \<noteq> []" for x
  proof (cases "x = s")
    case True
    then obtain h r where h: "?w = h # r" using x by (cases ?w) (auto simp: e)
    then have "h \<in> set ?w" by simp
    then have "woken s k' p = insert h (woken s k p)" "h \<notin> woken s k p"
      using d(3)[of h s] dist h by (auto simp: woken_def e)
    then have "card (woken s k' p) = Suc (card (woken s k p))" by simp
    moreover have "unat (sem_value (semas k s) + 1) \<le> unat (sem_value (semas k s)) + 1"
      using unat_plus_if'[of "sem_value (semas k s)" 1] by (auto split: if_splits)
    moreover have "unat (sem_value (semas k s)) \<le> card (woken s k p)" using d(4)[of s] h by simp
    ultimately show ?thesis using True by (simp add: e)
  next
    case False
    have "woken x k' p = woken x k p" using False by (auto simp: woken_def e)
    then show ?thesis using d(4)[of x] False x by (simp add: e)
  qed
  have f: "t = idle_thread k \<or> (\<exists>x. t \<in> set (waiters (semas k' x)))" if b: "st k' t = Some THREAD_BLOCKED" for t
  proof -
    have nh: "\<not> (?w \<noteq> [] \<and> t = hd ?w)" "st k t = Some THREAD_BLOCKED" using b by (auto simp: e split: if_splits)
    then consider "t = idle_thread k" | x where "t \<in> set (waiters (semas k x))" using d(6) by blast
    then show ?thesis
    proof cases
      case (2 x)
      then have "t \<in> set (waiters (semas k' x))"
        using nh(1) by (cases ?w) (auto simp: e)
      then show ?thesis by blast
    qed simp
  qed
  show ?thesis
    unfolding sync_ok_def e(2-5) using e(1) c w f d(2,5,7,8) by auto
qed

section \<open>Every step keeps the invariant\<close>

lemma sync_ok_cong:
  "sync_ok (k\<lparr>holder := h\<rparr>) p = sync_ok k p" "sync_ok (k\<lparr>conds := c\<rparr>) p = sync_ok k p"
proof -
  have "kinv (k\<lparr>holder := h\<rparr>) = kinv k" "kinv (k\<lparr>conds := c\<rparr>) = kinv k" by (rule kinv_cong; simp)+
  moreover have "st (k\<lparr>holder := h\<rparr>) = st k" "st (k\<lparr>conds := c\<rparr>) = st k" by (simp_all add: st_def fun_eq_iff)
  ultimately show "sync_ok (k\<lparr>holder := h\<rparr>) p = sync_ok k p" "sync_ok (k\<lparr>conds := c\<rparr>) p = sync_ok k p"
    by (simp_all add: sync_ok_def woken_def)
qed

lemma lock_ok_cong:
  "sem_value (semas (kern S') (Lock_sema l)) = sem_value (semas (kern S) (Lock_sema l)) \<Longrightarrow>
   holder (kern S') l = holder (kern S) l \<Longrightarrow> own S' l = own S l \<Longrightarrow> lock_ok l S' = lock_ok l S"
  by (simp add: lock_ok_def)

lemma running_nonzero: "kinv k \<Longrightarrow> running k \<noteq> 0"
  using kinv_running[of k] kinv_parts(1)[of k] unfolding threads_ok_def by blast

lemma point_ok_sema:
  "point_ok (Downs s old a) \<longleftrightarrow> (case a of Holds l \<Rightarrow> s = Lock_sema l | _ \<Rightarrow> (\<forall>l. s \<noteq> Lock_sema l))"
  by (cases a; cases s) (auto simp: point_ok_def)

lemma point_ok_simps [simp]: "point_ok Runs" "point_ok (Locks l)" "point_ok Starts" "point_ok Idles"
  "point_ok (Yielded b Runs)" "point_ok (Yielded b (Locks l))"
  by (simp_all add: point_ok_def)

lemma down_cases:
  assumes S: "sync_ok k p" and i: "running k \<noteq> idle_thread k"
    and p: "\<And>s' old a. p (running k) = Downs s' old a \<Longrightarrow> s' = s" and a: "point_ok (Downs s old a)"
    and q: "\<not> in_down q" "point_ok q" and down: "sema_down_loop s old (k\<lparr>intr_on := False\<rparr>) = Inr r"
  obtains k' where "r = (Some old, k')" "sync_ok k' (p(running k := Downs s old a))"
      "\<And>x. sem_value (semas k' x) = sem_value (semas k x)" "holder k' = holder k"
  | k' where "r = (None, k')" "sem_value (semas k s) \<noteq> 0" "k' = (decreased s k)\<lparr>intr_on := old\<rparr>"
      "sync_ok k' (p(running k := q))"
proof (cases "sem_value (semas k s) = 0")
  case True
  note d = sync_okD[OF S]
  obtain k' where k': "sema_down_loop s old (k\<lparr>intr_on := False\<rparr>) = Inr (Some old, k')" "slept s (k\<lparr>intr_on := False\<rparr>) k'"
    using sema_down_loop_waits[of "k\<lparr>intr_on := False\<rparr>" s old] d(1,2) i True by auto
  have "semas k' = semas (wait_on s k)" "holder k' = holder k"
    using k'(2) by (simp_all add: slept_def wait_on_def)
  then show ?thesis
    using that(1)[of k'] sync_ok_slept[OF S i k'(2) p a True] k'(1) down by (simp add: wait_on_def)
next
  case False
  have "r = (None, (decreased s k)\<lparr>intr_on := old\<rparr>)"
    using down sema_down_loop_goes[of "k\<lparr>intr_on := False\<rparr>" s old] sync_okD(2)[OF S] False by (simp add: decreased_def)
  moreover have "sync_ok ((decreased s k)\<lparr>intr_on := old\<rparr>) (p(running k := q))"
    using sync_ok_decreased[OF S _ q False] p by blast
  ultimately show ?thesis using that(2) False by blast
qed

lemma sinv_after_down:
  assumes S: "sinv S" and t: "t = running (kern S)" "t \<noteq> idle_thread (kern S)"
    and p: "\<And>s' old a. pc S t = Downs s' old a \<Longrightarrow> s' = s" and a: "point_ok (Downs s old a)"
    and down: "ebind (sema_down_loop s old ((kern S)\<lparr>intr_on := False\<rparr>))
       (\<lambda>r. case a of Holds l \<Rightarrow> then_hold l r | _ \<Rightarrow> Inr r) = Inr r"
  shows "sinv (after_down t s a r S)"
proof -
  have so: "sync_ok (kern S) (pc S)" and lo: "lock_ok l S" for l using S by (simp_all add: sinv_def)
  obtain r0 where r0: "sema_down_loop s old ((kern S)\<lparr>intr_on := False\<rparr>) = Inr r0"
      "(case a of Holds l \<Rightarrow> then_hold l r0 | _ \<Rightarrow> Inr r0) = Inr r"
    using down by (cases "sema_down_loop s old ((kern S)\<lparr>intr_on := False\<rparr>)") auto
  let ?q = "case a of Relocks l \<Rightarrow> Locks l | _ \<Rightarrow> Runs"
  have q: "\<not> in_down ?q" "point_ok ?q" by (cases a; simp)+
  show ?thesis
  proof (rule down_cases[OF so _ _ a q r0(1)])
    show "running (kern S) \<noteq> idle_thread (kern S)" using t by simp
  next
    fix k' assume k': "r0 = (Some old, k')" "sync_ok k' ((pc S)(running (kern S) := Downs s old a))"
      "\<And>x. sem_value (semas k' x) = sem_value (semas (kern S) x)" "holder k' = holder (kern S)"
    then have "r = (Some old, k')" using r0(2) by (cases a) (auto simp: then_hold_def)
    then show ?thesis using k' lo t by (simp add: after_down_def sinv_def lock_ok_def)
  next
    fix k' assume k': "r0 = (None, k')" "sem_value (semas (kern S) s) \<noteq> 0" "k' = (decreased s (kern S))\<lparr>intr_on := old\<rparr>"
      "sync_ok k' ((pc S)(running (kern S) := ?q))"
    have other: "sinv (S\<lparr>kern := k', pc := (pc S)(t := ?q)\<rparr>)" if "\<And>l. a \<noteq> Holds l"
    proof -
      have "s \<noteq> Lock_sema l" for l using a that by (cases a) (auto simp: point_ok_sema)
      then have "lock_ok l (S\<lparr>kern := k', pc := (pc S)(t := ?q)\<rparr>)" for l
        using lo[of l] by (auto simp: lock_ok_def k'(3))
      then show ?thesis using k'(4) t by (simp add: sinv_def)
    qed
    show ?thesis
    proof (cases a)
      case (Holds l)
      then have s: "s = Lock_sema l" using a by (simp add: point_ok_sema)
      have cur: "thread_current k' = Inr t" using kinv_current[OF sync_okD(1)[OF k'(4)]] k'(3) t by simp
      then have r: "r = (None, k'\<lparr>holder := (holder k')(l := t)\<rparr>)"
        using r0(2) k'(1) Holds by (simp add: then_hold_def set_holder_def)
      have one: "sem_value (semas (kern S) (Lock_sema l)) = 1" "own S l = {}" using lo[of l] k'(2) s by (auto simp: lock_ok_def)
      have "lock_ok l' (after_down t s a r S)" for l'
        using one lo[of l'] running_nonzero[OF sync_okD(1)[OF so]] t
        by (cases "l' = l") (auto simp: after_down_def Holds r lock_ok_def k'(3) s)
      then show ?thesis using k'(4) Holds t by (simp add: sinv_def after_down_def r sync_ok_cong)
    qed (use k'(1) r0(2) other in \<open>auto simp: after_down_def\<close>)
  qed (use p t in auto)
qed

lemma sinv_upped:
  assumes S: "sinv S" and s: "\<And>l. s \<noteq> Lock_sema l" and u: "upped s (kern S) k"
  shows "sinv (S\<lparr>kern := k\<rparr>)"
  using S s sync_ok_upped[of "kern S" "pc S" s k] u by (auto simp: sinv_def upped_def lock_ok_def)

lemma lock_held_ok: "kinv k \<Longrightarrow> lock_held_by_current_thread l k = Inr (holder k l = running k)"
  by (simp add: lock_held_by_current_thread_def kinv_current)

lemma sinv_release:
  assumes S: "sinv S" and r: "lock_release l (kern S) = Inr k"
  shows "sinv (S\<lparr>kern := k, own := (own S)(l := own S l - {running (kern S)})\<rparr>)"
    and "running k = running (kern S)" "idle_thread k = idle_thread (kern S)" "intr_on k = intr_on (kern S)"
      "sem_value (semas k (Cond_sema w)) = sem_value (semas (kern S) (Cond_sema w))"
proof -
  have so: "sync_ok (kern S) (pc S)" and lo: "lock_ok l' S" for l' using S by (simp_all add: sinv_def)
  note d = sync_okD[OF so]
  let ?k = "(kern S)\<lparr>holder := (holder (kern S))(l := 0)\<rparr>"
  have h: "holder (kern S) l = running (kern S)" "sema_up (Lock_sema l) ?k = Inr k"
    using r by (auto simp: lock_release_def lock_held_ok[OF d(1)] kassert_def split: if_splits)
  have so': "sync_ok ?k (pc S)" using so by (simp add: sync_ok_cong)
  obtain k' where "sema_up (Lock_sema l) ?k = Inr k'" "upped (Lock_sema l) ?k k'"
    using sema_up_ok[of ?k "Lock_sema l"] sync_okD(1,2)[OF so'] by blast
  then have u: "upped (Lock_sema l) ?k k" using h(2) by simp
  have "sem_value (semas (kern S) (Lock_sema l)) = 0" "own S l = {running (kern S)}"
    using lo[of l] h(1) running_nonzero[OF d(1)] by (auto simp: lock_ok_def)
  then have "lock_ok l' (S\<lparr>kern := k, own := (own S)(l := own S l - {running (kern S)})\<rparr>)" for l'
    using lo[of l'] u by (auto simp: lock_ok_def upped_def)
  then show "sinv (S\<lparr>kern := k, own := (own S)(l := own S l - {running (kern S)})\<rparr>)"
    using sync_ok_upped[OF so' u] by (simp add: sinv_def)
  show "running k = running (kern S)" "idle_thread k = idle_thread (kern S)" "intr_on k = intr_on (kern S)"
    "sem_value (semas k (Cond_sema w)) = sem_value (semas (kern S) (Cond_sema w))"
    using u by (simp_all add: upped_def)
qed

lemma sinv_signal:
  assumes S: "sinv S" and r: "cond_signal c l (kern S) = Inr k"
  shows "sinv (S\<lparr>kern := k\<rparr>)" "conds k c = tl (conds (kern S) c)" "holder k = holder (kern S)" "running k = running (kern S)"
proof -
  have so: "sync_ok (kern S) (pc S)" and lo: "lock_ok l' S" for l' using S by (simp_all add: sinv_def)
  note d = sync_okD[OF so]
  have *: "sinv (S\<lparr>kern := k\<rparr>) \<and> conds k c = tl (conds (kern S) c) \<and> holder k = holder (kern S) \<and> running k = running (kern S)"
  proof (cases "conds (kern S) c")
    case Nil
    then have "k = kern S" using r by (auto simp: cond_signal_def lock_held_ok[OF d(1)] kassert_def split: if_splits)
    then show ?thesis using S Nil by simp
  next
    case (Cons w ws)
    let ?k = "(kern S)\<lparr>conds := (conds (kern S))(c := ws)\<rparr>"
    have h: "sema_up (Cond_sema w) ?k = Inr k"
      using r Cons by (auto simp: cond_signal_def lock_held_ok[OF d(1)] kassert_def split: if_splits)
    have so': "sync_ok ?k (pc S)" using so by (simp add: sync_ok_cong)
    obtain k' where "sema_up (Cond_sema w) ?k = Inr k'" "upped (Cond_sema w) ?k k'"
      using sema_up_ok[of ?k "Cond_sema w"] sync_okD(1,2)[OF so'] by blast
    then have u: "upped (Cond_sema w) ?k k" using h by simp
    then have "conds k c = ws" "holder k = holder (kern S)" "running k = running (kern S)" by (simp_all add: upped_def)
    moreover have "sinv (S\<lparr>kern := ?k\<rparr>)" using so' lo by (simp add: sinv_def lock_ok_def)
    then have "sinv (S\<lparr>kern := k\<rparr>)" using sinv_upped[of "S\<lparr>kern := ?k\<rparr>" "Cond_sema w" k] u by simp
    ultimately show ?thesis using Cons by simp
  qed
  then show "sinv (S\<lparr>kern := k\<rparr>)" "conds k c = tl (conds (kern S) c)" "holder k = holder (kern S)"
    "running k = running (kern S)" by simp_all
qed

lemma sinv_broadcast: "sinv S \<Longrightarrow> cond_broadcast n c l (kern S) = Inr k \<Longrightarrow> sinv (S\<lparr>kern := k\<rparr>)"
proof (induction n arbitrary: S)
  case (Suc n)
  show ?case
  proof (cases "conds (kern S) c = []")
    case False
    then obtain k1 where k1: "cond_signal c l (kern S) = Inr k1" "cond_broadcast n c l k1 = Inr k"
      using Suc.prems(2) by (cases "cond_signal c l (kern S)") auto
    then show ?thesis using Suc.IH[of "S\<lparr>kern := k1\<rparr>"] sinv_signal(1)[OF Suc.prems(1) k1(1)] by simp
  next
    case True
    then have "k = kern S" using Suc.prems(2) by simp
    then show ?thesis using Suc.prems(1) by simp
  qed
qed simp

lemma idle_once_ok:
  assumes k: "kinv k" "\<not> in_external_intr k" "running k = idle_thread k"
  shows "\<exists>k'. idle_once k = Inr k' \<and> kinv k' \<and> \<not> in_external_intr k' \<and> \<not> intr_on k' \<and> semas k' = semas k \<and>
     holder k' = holder k \<and> idle_thread k' = idle_thread k \<and>
     (\<forall>u. st k' u = Some THREAD_BLOCKED \<longrightarrow> u = idle_thread k \<or> st k u = Some THREAD_BLOCKED)"
proof -
  let ?k = "k\<lparr>intr_on := False\<rparr>"
  let ?b = "set_thr (running ?k) (\<lambda>th. th\<lparr>status := THREAD_BLOCKED\<rparr>) ?k"
  obtain k' where k': "schedule ?b = Inr k'" "kinv k'" "resched ?b k'"
    using schedule_ok[OF pre_sched_blocked(1)[of ?k]] k(1) by auto
  have "idle_once k = Inr k'"
    using k' k thread_block_ok[of ?k] by (simp add: idle_once_def intr_disable_def)
  then show ?thesis using k' k by (auto simp: resched_def st_set_thr_status split: if_splits)
qed

lemma sinv_move:
  assumes S: "sinv S" and k': "kinv k'" "\<not> in_external_intr k'" "semas k' = semas (kern S)"
      "idle_thread k' = idle_thread (kern S)" "holder k' = holder (kern S)"
      "\<And>u. st k' u = Some THREAD_BLOCKED \<Longrightarrow> u = idle_thread (kern S) \<or> st (kern S) u = Some THREAD_BLOCKED"
    and p: "t = running (kern S)" "\<not> in_down (pc S t)" "\<not> in_down q" "point_ok q"
    and off: "running k' \<noteq> running (kern S) \<Longrightarrow> \<not> intr_on k'"
  shows "sinv (S\<lparr>kern := k', pc := (pc S)(t := q)\<rparr>)"
proof -
  have "sync_ok k' ((pc S)(t := q))"
    unfolding p(1) using S k' p off by (intro sync_ok_move[of "kern S"]) (auto simp: sinv_def)
  moreover have "lock_ok l (S\<lparr>kern := k', pc := (pc S)(t := q)\<rparr>) = lock_ok l S" for l
    by (rule lock_ok_cong) (simp_all add: k')
  ultimately show ?thesis using S by (simp add: sinv_def)
qed

lemma sinv_intr:
  assumes "sinv S" "t = running (kern S)" "\<not> in_down (pc S t)" "\<not> in_down q" "point_ok q"
  shows "sinv (S\<lparr>kern := (kern S)\<lparr>intr_on := b\<rparr>, pc := (pc S)(t := q)\<rparr>)"
  using assms sync_okD(1,2)[of "kern S" "pc S"] by (intro sinv_move) (auto simp: sinv_def)

lemma thread_yield_sys:
  assumes k: "kinv k" "\<not> in_external_intr k" and y: "thread_yield k = Inr (Some old, k')"
  shows "kinv k' \<and> \<not> in_external_intr k' \<and> \<not> intr_on k' \<and> semas k' = semas k \<and> holder k' = holder k \<and>
     idle_thread k' = idle_thread k \<and> (\<forall>u. st k' u = Some THREAD_BLOCKED \<longrightarrow> st k u = Some THREAD_BLOCKED)"
proof -
  obtain k1 where k1: "schedule (put_back k) = Inr k1" "kinv k1" "resched (put_back k) k1"
    using schedule_ok[OF pre_sched_put_back[OF k(1)]] by blast
  have "k' = k1" using y k1(1) thread_yield_cases[OF k] by (auto split: if_splits)
  then show ?thesis using k1 k by (auto simp: resched_def st_put_back split: if_splits)
qed

lemma thread_yield_None:
  assumes "kinv k" "\<not> in_external_intr k" "thread_yield k = Inr (None, k')"
  shows "k' = k"
  using thread_yield_cases[OF assms(1,2)] assms(3)
  by (cases "schedule (put_back k)") (auto split: if_splits)

lemma sinv_cond_prepare:
  assumes S: "sinv S" and w: "waiters (semas (kern S) (Cond_sema w)) = []"
  shows "sinv (S\<lparr>kern := (sema_init (Cond_sema w) 0 (kern S))\<lparr>conds := c\<rparr>\<rparr>)"
proof -
  have so: "sync_ok (kern S) (pc S)" and lo: "lock_ok l' S" for l' using S by (simp_all add: sinv_def)
  note d = sync_okD[OF so]
  let ?k = "sema_init (Cond_sema w) 0 (kern S)"
  have e: "waiters (semas ?k x) = waiters (semas (kern S) x)"
      "sem_value (semas ?k x) = (if x = Cond_sema w then 0 else sem_value (semas (kern S) x))" for x
    using w by (simp_all add: sema_init_def)
  have "kinv ?k"
  proof -
    have "(semas (kern S) (Cond_sema w))\<lparr>sem_value := 0\<rparr> = \<lparr>sem_value = 0, waiters = []\<rparr>"
      using w by (cases "semas (kern S) (Cond_sema w)") simp
    then show ?thesis using d(1) kinv_sem_value[of "kern S" "Cond_sema w" 0] by (simp add: sema_init_def)
  qed
  moreover have "st ?k = st (kern S)" "running ?k = running (kern S)" "idle_thread ?k = idle_thread (kern S)"
      "intr_on ?k = intr_on (kern S)" "in_external_intr ?k = in_external_intr (kern S)" "woken x ?k (pc S) = woken x (kern S) (pc S)" for x
    by (simp_all add: sema_init_def st_def fun_eq_iff woken_def w)
  ultimately have "sync_ok ?k (pc S)" using so w unfolding sync_ok_def e by auto
  then show ?thesis
    using lo unfolding sinv_def by (simp add: sync_ok_cong lock_ok_def sema_init_def)
qed

lemma user_sema_not_lock: "user_sema s \<Longrightarrow> s \<noteq> Lock_sema l"
  by (auto simp: user_sema_def)

lemma sinv_parts: "sinv S \<Longrightarrow> kinv (kern S)" "sinv S \<Longrightarrow> \<not> in_external_intr (kern S)"
  by (simp_all add: sinv_def sync_ok_def)

lemma sinv_acquire:
  assumes S: "sinv S" and t: "t = running (kern S)" "t \<noteq> idle_thread (kern S)" "pc S t = Runs \<or> pc S t = Locks l"
    and a: "lock_acquire l (kern S) = Inr r"
  shows "sinv (after_down t (Lock_sema l) (Holds l) r S)"
proof -
  have "ebind (sema_down_loop (Lock_sema l) (intr_on (kern S)) ((kern S)\<lparr>intr_on := False\<rparr>)) (then_hold l) = Inr r"
    using a sinv_parts[OF S] by (auto simp: lock_acquire_def intr_context_def lock_held_ok sema_down_eq kassert_def split: if_splits)
  then show ?thesis
    using t by (intro sinv_after_down[OF S t(1,2), of "Lock_sema l" "intr_on (kern S)"]) (auto simp: point_ok_def)
qed

lemma sinv_try_acquire:
  assumes S: "sinv S" and a: "lock_try_acquire l (kern S) = Inr (b, k)" and t: "pc S (running (kern S)) = Runs"
  shows "sinv (S\<lparr>kern := k, own := (own S)(l := own S l \<union> (if b then {running (kern S)} else {}))\<rparr>)"
proof -
  note p = sinv_parts[OF S]
  have so: "sync_ok (kern S) (pc S)" and lo: "lock_ok l' S" for l' using S by (simp_all add: sinv_def)
  let ?d = "decreased (Lock_sema l) (kern S)"
  have "kinv ?d" using p(1) by simp
  then have cur: "thread_current ?d = Inr (running (kern S))" by (simp add: kinv_current)
  have c: "(b, k) = (if sem_value (semas (kern S) (Lock_sema l)) > 0
      then (True, ?d\<lparr>holder := (holder ?d)(l := running (kern S))\<rparr>) else (False, kern S))"
    using a p cur by (auto simp: lock_try_acquire_def lock_held_ok kassert_def sema_try_down_eq set_holder_def split: if_splits)
  show ?thesis
  proof (cases "sem_value (semas (kern S) (Lock_sema l)) > 0")
    case True
    have "sync_ok (?d\<lparr>intr_on := intr_on (kern S)\<rparr>) ((pc S)(running (kern S) := Runs))"
      using so t True by (intro sync_ok_decreased) (auto simp: point_ok_def)
    moreover have "?d\<lparr>intr_on := intr_on (kern S)\<rparr> = ?d" by (simp add: decreased_def)
    ultimately have "sync_ok k (pc S)" using c True t by (simp add: sync_ok_cong fun_upd_idem)
    moreover have "lock_ok l' (S\<lparr>kern := k, own := (own S)(l := own S l \<union> (if b then {running (kern S)} else {}))\<rparr>)" for l'
      using lo[of l'] c True running_nonzero[OF p(1)] by (auto simp: lock_ok_def)
    ultimately show ?thesis by (simp add: sinv_def)
  next
    case False
    then have "S\<lparr>kern := k, own := (own S)(l := own S l \<union> (if b then {running (kern S)} else {}))\<rparr> = S" using c by simp
    then show ?thesis using S by simp
  qed
qed

lemma sinv_wait:
  assumes S: "sinv S" and t: "t = running (kern S)" "t \<noteq> idle_thread (kern S)" "pc S t = Runs"
    and w: "waiters (semas (kern S) (Cond_sema w)) = []" and r: "cond_wait c l w (kern S) = Inr r"
  shows "sinv (after_down t (Cond_sema w) (Relocks l) r (S\<lparr>own := (own S)(l := own S l - {t})\<rparr>))"
proof -
  note p = sinv_parts[OF S]
  let ?k1 = "(sema_init (Cond_sema w) 0 (kern S))\<lparr>conds := (conds (kern S))(c := conds (kern S) c @ [w])\<rparr>"
  have S1: "sinv (S\<lparr>kern := ?k1\<rparr>)" using S w by (rule sinv_cond_prepare)
  obtain k2 where k2: "lock_release l ?k1 = Inr k2" "sema_down (Cond_sema w) k2 = Inr r"
  proof -
    have "conds (sema_init (Cond_sema w) 0 (kern S)) = conds (kern S)" by (simp add: sema_init_def)
    then have "ebind (lock_release l ?k1) (sema_down (Cond_sema w)) = Inr r"
      using r p by (auto simp: cond_wait_def intr_context_def lock_held_ok kassert_def Let_def split: if_splits)
    then show ?thesis using that by (cases "lock_release l ?k1") auto
  qed
  have e: "running ?k1 = running (kern S)" "idle_thread ?k1 = idle_thread (kern S)" by (simp_all add: sema_init_def)
  let ?S2 = "S\<lparr>kern := k2, own := (own S)(l := own S l - {t})\<rparr>"
  have S2: "sinv ?S2" and r2: "running k2 = t" "idle_thread k2 = idle_thread (kern S)"
    using sinv_release[OF S1, of l k2] k2(1) e t(1) by simp_all
  have "sinv (after_down t (Cond_sema w) (Relocks l) r ?S2)"
    using k2(2) sinv_parts(2)[OF S2] t r2
    by (intro sinv_after_down[OF S2, of t "Cond_sema w" "intr_on k2"]) (auto simp: sema_down_eq point_ok_def)
  moreover have "after_down t (Cond_sema w) (Relocks l) r ?S2 =
      after_down t (Cond_sema w) (Relocks l) r (S\<lparr>own := (own S)(l := own S l - {t})\<rparr>)"
    by (auto simp: after_down_def split: prod.splits option.splits)
  ultimately show ?thesis by simp
qed

lemma sinv_resume:
  assumes S: "sinv S" and t: "t = running (kern S)" "pc S t = Downs s old a" and r: "resume_down s old a (kern S) = Inr r"
  shows "sinv (after_down t s a r S)"
proof -
  have d: "point_ok (pc S t)" "\<not> intr_on (kern S)" "\<not> in_down (pc S (idle_thread (kern S)))"
    using S t(2)[unfolded t(1)] sync_okD(7,8)[of "kern S" "pc S"] by (auto simp: sinv_def intro: sync_okD(5))
  then have "(kern S)\<lparr>intr_on := False\<rparr> = kern S" by simp
  moreover have "t \<noteq> idle_thread (kern S)" using d(3) t(2) by auto
  ultimately show ?thesis
    using r t d(1) by (intro sinv_after_down[OF S t(1), of s old]) (auto simp: resume_down_def)
qed

lemma sinv_step: "sstep S S' \<Longrightarrow> sinv S \<Longrightarrow> sinv S'"
proof (induction rule: sstep.induct)
  case (idle t S k)
  then show ?case using idle_once_ok[of "kern S"] sinv_parts[of S] by (intro sinv_move) auto
next
  case (yield t S l r k)
  note p = sinv_parts[OF yield.prems]
  show ?case
  proof (cases r)
    case None
    then have "k = kern S" using yield(3) thread_yield_None[OF p] by simp
    then show ?thesis using None yield.prems by simp
  next
    case (Some old)
    then show ?thesis
      using yield thread_yield_sys[OF p, of old k] by (simp, intro sinv_move) auto
  qed
next
  case (yielded t S old q k)
  have "point_ok (pc S t)" using yielded.prems by (auto simp: sinv_def sync_ok_def)
  then have "\<not> in_down q" "point_ok q" using yielded(2) by (auto simp: point_ok_def split: point.splits)
  then show ?case
    using yielded sinv_parts(2)[of S] by (auto simp: intr_set_level_ok intro!: sinv_intr)
next
  case (down t S s r)
  then show ?case
    using sinv_parts[of S] user_sema_not_lock[of s]
    by (intro sinv_after_down[of S t s "intr_on (kern S)"]) (auto simp: sema_down_eq point_ok_sema)
next
  case (up S s k)
  then obtain k' where "sema_up s (kern S) = Inr k'" "upped s (kern S) k'" using sema_up_ok sinv_parts by blast
  then show ?case using up sinv_upped[of S s k'] user_sema_not_lock by auto
next
  case (try_down S s b k)
  note p = sinv_parts[OF try_down.prems]
  show ?case
  proof (cases "sem_value (semas (kern S) s) > 0")
    case True
    then have k: "k = decreased s (kern S)" using try_down(3) p by (simp add: sema_try_down_eq)
    have "sync_ok ((decreased s (kern S))\<lparr>intr_on := intr_on (kern S)\<rparr>) ((pc S)(running (kern S) := Runs))"
      using try_down True by (intro sync_ok_decreased) (auto simp: sinv_def)
    moreover have "(decreased s (kern S))\<lparr>intr_on := intr_on (kern S)\<rparr> = decreased s (kern S)" by (simp add: decreased_def)
    ultimately have "sync_ok k (pc S)" using k try_down(1) by (simp add: fun_upd_idem)
    then show ?thesis
      using try_down k user_sema_not_lock[of s] by (auto simp: sinv_def lock_ok_def)
  next
    case False
    then have "k = kern S" using try_down(3) p by (simp add: sema_try_down_eq)
    then show ?thesis using try_down.prems by simp
  qed
next
  case (acquire t S l r)
  then show ?case by (intro sinv_acquire) auto
next
  case (try_acquire t S l b k)
  then show ?case using sinv_try_acquire[of S l b k] by blast
next
  case (release t S l k)
  then show ?case using sinv_release(1)[of S l k] by simp
next
  case (wait t S w c l r)
  then show ?case by (intro sinv_wait) auto
qed (auto simp: intr_enable_def intr_context_def kassert_def split: if_splits
       intro: sinv_intr sinv_resume sinv_signal(1) sinv_broadcast)

lemma sinv_reachable: "sstep\<^sup>*\<^sup>* S S' \<Longrightarrow> sinv S \<Longrightarrow> sinv S'"
  by (induction rule: rtranclp_induct) (auto intro: sinv_step)

section \<open>The operations return\<close>

lemma sema_down_returns:
  assumes "kinv k" "\<not> in_external_intr k" "running k \<noteq> idle_thread k"
  shows "\<exists>r k'. sema_down s k = Inr (r, k') \<and> kinv k'"
proof (cases "sem_value (semas k s) = 0")
  case True
  then show ?thesis
    using sema_down_loop_waits[of "k\<lparr>intr_on := False\<rparr>" s "intr_on k"] assms by (auto simp: sema_down_eq slept_def)
next
  case False
  then show ?thesis
    using sema_down_loop_goes[of "k\<lparr>intr_on := False\<rparr>" s "intr_on k"] assms
    by (simp add: sema_down_eq)
qed

lemma lock_acquire_returns:
  assumes "kinv k" "\<not> in_external_intr k" "running k \<noteq> idle_thread k" "holder k l \<noteq> running k"
  shows "\<exists>r k'. lock_acquire l k = Inr (r, k')"
proof -
  obtain r k' where "sema_down (Lock_sema l) k = Inr (r, k')" "kinv k'" using sema_down_returns[OF assms(1-3)] by blast
  then show ?thesis
    using assms by (cases r) (auto simp: lock_acquire_def intr_context_def lock_held_ok then_hold_def set_holder_def kinv_current)
qed

lemma cond_signal_returns:
  assumes "kinv k" "\<not> in_external_intr k" "holder k l = running k"
  shows "\<exists>k'. cond_signal c l k = Inr k'"
proof (cases "conds k c")
  case (Cons w ws)
  have "kinv (k\<lparr>conds := x\<rparr>) = kinv k" for x by (rule kinv_cong; simp)
  then show ?thesis
    using Cons sema_up_ok[of "k\<lparr>conds := (conds k)(c := ws)\<rparr>" "Cond_sema w"] assms
    by (auto simp: cond_signal_def intr_context_def lock_held_ok)
qed (use assms in \<open>simp add: cond_signal_def intr_context_def lock_held_ok\<close>)

lemma cond_broadcast_returns:
  "sinv S \<Longrightarrow> holder (kern S) l = running (kern S) \<Longrightarrow> length (conds (kern S) c) < n \<Longrightarrow>
   \<exists>k. cond_broadcast n c l (kern S) = Inr k \<and> conds k c = []"
proof (induction n arbitrary: S)
  case (Suc n)
  show ?case
  proof (cases "conds (kern S) c = []")
    case False
    obtain k where k: "cond_signal c l (kern S) = Inr k"
      using cond_signal_returns[OF sinv_parts[OF Suc.prems(1)] Suc.prems(2)] by blast
    note sg = sinv_signal[OF Suc.prems(1) k]
    have "length (tl (conds (kern S) c)) < n" using Suc.prems(3) False by (cases "conds (kern S) c") auto
    then have "\<exists>k'. cond_broadcast n c l k = Inr k' \<and> conds k' c = []"
      using Suc.IH[of "S\<lparr>kern := k\<rparr>"] sg Suc.prems by simp
    then show ?thesis using False k by simp
  qed (use Suc.prems in simp)
qed simp

section \<open>Properties\<close>

definition wsys :: sys where
  "wsys = \<lparr>kern = wkern\<lparr>semas := (\<lambda>s. \<lparr>sem_value = (case s of Lock_sema _ \<Rightarrow> 1 | _ \<Rightarrow> 0), waiters = []\<rparr>)\<rparr>,
     pc = (\<lambda>t. if t = 0xc000e000 then Runs else Starts), own = (\<lambda>_. {})\<rparr>"

lemma wsys_inv: "sinv wsys"
proof -
  let ?k = "kern wsys"
  have "kinv ?k = kinv wkern" by (rule kinv_cong; simp add: wsys_def wkern_def)
  then have k: "kinv ?k" using wkern_inv by simp
  have "lock_ok l wsys" for l by (simp add: lock_ok_def wsys_def wkern_def)
  moreover have "sync_ok ?k (pc wsys)"
    unfolding sync_ok_def
  proof (intro conjI allI impI k)
    fix t assume "st (kern wsys) t = Some THREAD_BLOCKED"
    then show "t = idle_thread (kern wsys) \<or> (\<exists>s. t \<in> set (waiters (semas (kern wsys) s)))"
      by (auto simp: wsys_def wkern_def st_def wthread_def split: if_splits)
  qed (simp_all add: wsys_def wkern_def)
  ultimately show ?thesis by (simp add: sinv_def)
qed


lemma wsys_acquire: "\<exists>k. running k = 0xc000e000 \<and> idle_thread k = 0xc0101000 \<and> sstep wsys (S\<lparr>kern := k, pc := pc wsys, own := (\<lambda>_. {})(0 := {0xc000e000})\<rparr>)"
proof -
  note p = sinv_parts[OF wsys_inv]
  let ?k = "(decreased (Lock_sema 0) (kern wsys))\<lparr>intr_on := True\<rparr>"
  have v: "running (kern wsys) = 0xc000e000" "idle_thread (kern wsys) = 0xc0101000" "holder (kern wsys) 0 = 0"
      "sem_value (semas (kern wsys) (Lock_sema 0)) = 1" "intr_on (kern wsys) = True" "pc wsys 0xc000e000 = Runs" "own wsys = (\<lambda>_. {})"
    by (simp_all add: wsys_def wkern_def)
  have "kinv ?k" using p(1) by simp
  then have "lock_acquire 0 (kern wsys) = Inr (None, ?k\<lparr>holder := (holder ?k)(0 := 0xc000e000)\<rparr>)"
    using p v sema_down_loop_goes[of "(kern wsys)\<lparr>intr_on := False\<rparr>" "Lock_sema 0" True]
    by (simp add: lock_acquire_def intr_context_def lock_held_ok sema_down_eq then_hold_def set_holder_def kinv_current decreased_def)
  then have "sstep wsys (after_down 0xc000e000 (Lock_sema 0) (Holds 0) (None, ?k\<lparr>holder := (holder ?k)(0 := 0xc000e000)\<rparr>) wsys)"
    using v by (intro sstep.acquire) auto
  moreover have "after_down 0xc000e000 (Lock_sema 0) (Holds 0) (None, k) wsys =
      S\<lparr>kern := k, pc := pc wsys, own := (\<lambda>_. {})(0 := {0xc000e000})\<rparr>" for k
    using v by (cases S) (simp add: after_down_def wsys_def fun_eq_iff)
  ultimately show ?thesis using v by (intro exI[of _ "?k\<lparr>holder := (holder ?k)(0 := 0xc000e000)\<rparr>"]) simp
qed




text \<open>C31.  In every reachable state the operations called by the running thread (not the idle thread) meet no
  failed assertion as long as it follows the rules: \<open>sema_down\<close> and \<open>sema_up\<close> return or switch,
  \<open>lock_acquire\<close> does so if and only if the thread does not own the lock, \<open>lock_release\<close> if and only if it
  does, and \<open>cond_broadcast\<close>, for its owner, empties the list of waiters after as many signals as there are waiters.\<close>

theorem synch_operations_return:
  assumes "sinv S" "sstep\<^sup>*\<^sup>* S S'" "t = running (kern S')" "t \<noteq> idle_thread (kern S')"
  shows "(\<exists>r. sema_down s (kern S') = Inr r) \<and> (\<exists>k. sema_up s (kern S') = Inr k) \<and>
    (if t \<in> own S' l then lock_acquire l (kern S') = Inl Assert_failed else \<exists>r. lock_acquire l (kern S') = Inr r) \<and>
    (if t \<in> own S' l then \<exists>k. lock_release l (kern S') = Inr k else lock_release l (kern S') = Inl Assert_failed) \<and>
    (t \<in> own S' l \<longrightarrow> (\<exists>k. cond_broadcast (Suc (length (conds (kern S') c))) c l (kern S') = Inr k \<and> conds k c = []))"
proof -
  have S': "sinv S'" using sinv_reachable[OF assms(2,1)] .
  note p = sinv_parts[OF S']
  have lk: "lock_ok l S'" using S' by (simp add: sinv_def)
  have own: "t \<in> own S' l \<longleftrightarrow> holder (kern S') l = t"
  proof -
    have "t \<noteq> 0" using running_nonzero[OF p(1)] assms(3) by simp
    then show ?thesis using lk unfolding lock_ok_def by (metis empty_iff singleton_iff)
  qed
  have "kinv ((kern S')\<lparr>holder := x\<rparr>) = kinv (kern S')" for x by (rule kinv_cong; simp)
  then have rel: "t \<in> own S' l \<Longrightarrow> \<exists>k. lock_release l (kern S') = Inr k"
    using sema_up_ok[of "(kern S')\<lparr>holder := (holder (kern S'))(l := 0)\<rparr>" "Lock_sema l"] own p assms(3)
    by (auto simp: lock_release_def lock_held_ok)
  have "t \<in> own S' l \<Longrightarrow> lock_acquire l (kern S') = Inl Assert_failed"
    "t \<notin> own S' l \<Longrightarrow> lock_release l (kern S') = Inl Assert_failed"
    using own p assms(3) by (auto simp: lock_acquire_def lock_release_def intr_context_def lock_held_ok kassert_def)
  moreover have "t \<notin> own S' l \<Longrightarrow> \<exists>r. lock_acquire l (kern S') = Inr r"
    using lock_acquire_returns[of "kern S'" l] p own assms(3,4) by auto
  moreover have "t \<in> own S' l \<Longrightarrow> \<exists>k. cond_broadcast (Suc (length (conds (kern S') c))) c l (kern S') = Inr k \<and> conds k c = []"
    using cond_broadcast_returns[OF S', of l c "Suc (length (conds (kern S') c))"] own assms(3) by blast
  moreover have "\<exists>r. sema_down s (kern S') = Inr r" "\<exists>k. sema_up s (kern S') = Inr k"
    using sema_down_returns[OF p, of s] sema_up_ok[OF p, of s] assms(3,4) by blast+
  ultimately show ?thesis using rel by (simp del: cond_broadcast.simps)
qed

theorem synch_operations_return_witness:
  "\<exists>S'. sstep\<^sup>*\<^sup>* wsys S' \<and> 0xc000e000 \<in> own S' 0 \<and> running (kern S') = 0xc000e000 \<and>
     lock_acquire 0 (kern S') = Inl Assert_failed \<and> (\<exists>k. lock_release 0 (kern S') = Inr k)"
proof -
  obtain k where k: "sstep wsys (wsys\<lparr>kern := k, pc := pc wsys, own := (\<lambda>_. {})(0 := {0xc000e000})\<rparr>)" (is "sstep _ ?S")
      and v: "running k = 0xc000e000" "idle_thread k = 0xc0101000"
    using wsys_acquire[of wsys] by blast
  then have r: "sstep\<^sup>*\<^sup>* wsys ?S" by (intro r_into_rtranclp)
  show ?thesis
    using synch_operations_return[OF wsys_inv r, of "0xc000e000" "Sema 0" 0 0] r v by auto
qed

end
