(* ===== verification/Cstring.thy ===== *)
theory Cstring
  imports Prelude
begin

text \<open>
  Memory blocks and strings, \<open>src/lib/string.c\<close>.

  Memory is a partial map from addresses to bytes; an access to an address that is not mapped
  is \<open>Bad_access\<close>.  Objects are contiguous, so addresses and sizes are natural numbers and
  pointer steps inside an object do not wrap.  Loops that look for a terminator take an
  iteration bound; the lemmas show that the length of the string plus one is enough.

  \<open>block_at m p bs\<close> and \<open>str_at m p s\<close> say that the bytes \<open>bs\<close>, or the string \<open>s\<close> with
  its terminator, are stored at \<open>p\<close>.
\<close>

type_synonym addr = nat
type_synonym mem = "addr \<Rightarrow> u8 option"

definition rd :: "mem \<Rightarrow> addr \<Rightarrow> u8 res" where
  "rd m p = (case m p of None \<Rightarrow> Inl Bad_access | Some v \<Rightarrow> Inr v)"

definition wr :: "mem \<Rightarrow> addr \<Rightarrow> u8 \<Rightarrow> mem res" where
  "wr m p v = (case m p of None \<Rightarrow> Inl Bad_access | Some _ \<Rightarrow> Inr (m(p \<mapsto> v)))"

section \<open>The operations of string.c\<close>

fun copy_up :: "addr \<Rightarrow> addr \<Rightarrow> nat \<Rightarrow> mem \<Rightarrow> (addr \<times> mem) res" where
  "copy_up dst src 0 m = Inr (dst, m)"
| "copy_up dst src (Suc n) m =
     ebind (rd m src) (\<lambda>v. ebind (wr m dst v) (\<lambda>m. copy_up (dst + 1) (src + 1) n m))"

fun copy_down :: "addr \<Rightarrow> addr \<Rightarrow> nat \<Rightarrow> mem \<Rightarrow> (addr \<times> mem) res" where
  "copy_down dst src 0 m = Inr (dst, m)"
| "copy_down dst src (Suc n) m =
     ebind (rd m (src - 1)) (\<lambda>v. ebind (wr m (dst - 1) v) (\<lambda>m. copy_down (dst - 1) (src - 1) n m))"

definition memcpy :: "addr \<Rightarrow> addr \<Rightarrow> nat \<Rightarrow> mem \<Rightarrow> (addr \<times> mem) res" where
  "memcpy dst0 src0 sz m =
     ebind (kassert (dst0 \<noteq> 0 \<or> sz = 0)) (\<lambda>_. ebind (kassert (src0 \<noteq> 0 \<or> sz = 0)) (\<lambda>_.
     ebind (copy_up dst0 src0 sz m) (\<lambda>(_, m). Inr (dst0, m))))"

definition memmove :: "addr \<Rightarrow> addr \<Rightarrow> nat \<Rightarrow> mem \<Rightarrow> (addr \<times> mem) res" where
  "memmove dst0 src0 sz m =
     ebind (kassert (dst0 \<noteq> 0 \<or> sz = 0)) (\<lambda>_. ebind (kassert (src0 \<noteq> 0 \<or> sz = 0)) (\<lambda>_.
     if dst0 < src0 then copy_up dst0 src0 sz m
     else copy_down (dst0 + sz) (src0 + sz) sz m))"

fun memcmp_loop :: "addr \<Rightarrow> addr \<Rightarrow> nat \<Rightarrow> mem \<Rightarrow> int res" where
  "memcmp_loop a b 0 m = Inr 0"
| "memcmp_loop a b (Suc n) m =
     ebind (rd m a) (\<lambda>x. ebind (rd m b) (\<lambda>y.
     if x \<noteq> y then Inr (if x > y then 1 else -1) else memcmp_loop (a + 1) (b + 1) n m))"

definition memcmp :: "addr \<Rightarrow> addr \<Rightarrow> nat \<Rightarrow> mem \<Rightarrow> int res" where
  "memcmp a b sz m =
     ebind (kassert (a \<noteq> 0 \<or> sz = 0)) (\<lambda>_. ebind (kassert (b \<noteq> 0 \<or> sz = 0)) (\<lambda>_. memcmp_loop a b sz m))"

fun strcmp_loop :: "nat \<Rightarrow> addr \<Rightarrow> addr \<Rightarrow> mem \<Rightarrow> int res" where
  "strcmp_loop 0 a b m = Inl Out_of_fuel"
| "strcmp_loop (Suc n) a b m =
     ebind (rd m a) (\<lambda>x. ebind (rd m b) (\<lambda>y.
     if x \<noteq> 0 \<and> x = y then strcmp_loop n (a + 1) (b + 1) m
     else Inr (if x < y then -1 else if x > y then 1 else 0)))"

definition strcmp :: "nat \<Rightarrow> addr \<Rightarrow> addr \<Rightarrow> mem \<Rightarrow> int res" where
  "strcmp n a b m =
     ebind (kassert (a \<noteq> 0)) (\<lambda>_. ebind (kassert (b \<noteq> 0)) (\<lambda>_. strcmp_loop n a b m))"

fun memchr_loop :: "addr \<Rightarrow> u8 \<Rightarrow> nat \<Rightarrow> mem \<Rightarrow> addr res" where
  "memchr_loop p ch 0 m = Inr 0"
| "memchr_loop p ch (Suc n) m =
     ebind (rd m p) (\<lambda>x. if x = ch then Inr p else memchr_loop (p + 1) ch n m)"

definition memchr :: "addr \<Rightarrow> u8 \<Rightarrow> nat \<Rightarrow> mem \<Rightarrow> addr res" where
  "memchr block ch sz m = ebind (kassert (block \<noteq> 0 \<or> sz = 0)) (\<lambda>_. memchr_loop block ch sz m)"

fun strchr_loop :: "nat \<Rightarrow> addr \<Rightarrow> u8 \<Rightarrow> mem \<Rightarrow> addr res" where
  "strchr_loop 0 p c m = Inl Out_of_fuel"
| "strchr_loop (Suc n) p c m =
     ebind (rd m p) (\<lambda>x.
     if x = c then Inr p else if x = 0 then Inr 0 else strchr_loop n (p + 1) c m)"

definition strchr :: "nat \<Rightarrow> addr \<Rightarrow> u8 \<Rightarrow> mem \<Rightarrow> addr res" where
  "strchr n string c m = ebind (kassert (string \<noteq> 0)) (\<lambda>_. strchr_loop n string c m)"

text \<open>\<open>strcspn\<close> and \<open>strspn\<close>: the bound \<open>n\<close> serves the outer loop, \<open>k\<close> the calls of \<open>strchr\<close>.\<close>

fun strcspn_loop :: "nat \<Rightarrow> nat \<Rightarrow> addr \<Rightarrow> addr \<Rightarrow> nat \<Rightarrow> mem \<Rightarrow> nat res" where
  "strcspn_loop 0 k string stop len m = Inl Out_of_fuel"
| "strcspn_loop (Suc n) k string stop len m =
     ebind (rd m (string + len)) (\<lambda>x.
     if x = 0 then Inr len
     else ebind (strchr k stop x m) (\<lambda>r.
          if r \<noteq> 0 then Inr len else strcspn_loop n k string stop (len + 1) m))"

definition strcspn :: "nat \<Rightarrow> nat \<Rightarrow> addr \<Rightarrow> addr \<Rightarrow> mem \<Rightarrow> nat res" where
  "strcspn n k string stop m = strcspn_loop n k string stop 0 m"

fun strspn_loop :: "nat \<Rightarrow> nat \<Rightarrow> addr \<Rightarrow> addr \<Rightarrow> nat \<Rightarrow> mem \<Rightarrow> nat res" where
  "strspn_loop 0 k string skip len m = Inl Out_of_fuel"
| "strspn_loop (Suc n) k string skip len m =
     ebind (rd m (string + len)) (\<lambda>x.
     if x = 0 then Inr len
     else ebind (strchr k skip x m) (\<lambda>r.
          if r = 0 then Inr len else strspn_loop n k string skip (len + 1) m))"

definition strspn :: "nat \<Rightarrow> nat \<Rightarrow> addr \<Rightarrow> addr \<Rightarrow> mem \<Rightarrow> nat res" where
  "strspn n k string skip m = strspn_loop n k string skip 0 m"

fun strpbrk :: "nat \<Rightarrow> nat \<Rightarrow> addr \<Rightarrow> addr \<Rightarrow> mem \<Rightarrow> addr res" where
  "strpbrk 0 k string stop m = Inl Out_of_fuel"
| "strpbrk (Suc n) k string stop m =
     ebind (rd m string) (\<lambda>x.
     if x = 0 then Inr 0
     else ebind (strchr k stop x m) (\<lambda>r. if r \<noteq> 0 then Inr string else strpbrk n k (string + 1) stop m))"

fun strrchr_loop :: "nat \<Rightarrow> addr \<Rightarrow> u8 \<Rightarrow> addr \<Rightarrow> mem \<Rightarrow> addr res" where
  "strrchr_loop 0 string c p m = Inl Out_of_fuel"
| "strrchr_loop (Suc n) string c p m =
     ebind (rd m string) (\<lambda>x.
     if x = 0 then Inr p else strrchr_loop n (string + 1) c (if x = c then string else p) m)"

definition strrchr :: "nat \<Rightarrow> addr \<Rightarrow> u8 \<Rightarrow> mem \<Rightarrow> addr res" where
  "strrchr n string c m = strrchr_loop n string c 0 m"

fun strlen_loop :: "nat \<Rightarrow> addr \<Rightarrow> mem \<Rightarrow> addr res" where
  "strlen_loop 0 p m = Inl Out_of_fuel"
| "strlen_loop (Suc n) p m = ebind (rd m p) (\<lambda>x. if x = 0 then Inr p else strlen_loop n (p + 1) m)"

definition strlen :: "nat \<Rightarrow> addr \<Rightarrow> mem \<Rightarrow> nat res" where
  "strlen n string m =
     ebind (kassert (string \<noteq> 0)) (\<lambda>_. ebind (strlen_loop n string m) (\<lambda>p. Inr (p - string)))"

fun strstr_loop :: "nat \<Rightarrow> addr \<Rightarrow> addr \<Rightarrow> nat \<Rightarrow> nat \<Rightarrow> mem \<Rightarrow> addr res" where
  "strstr_loop 0 haystack needle needle_len i m = Inr 0"
| "strstr_loop (Suc n) haystack needle needle_len i m =
     ebind (memcmp (haystack + i) needle needle_len m) (\<lambda>c.
     if c = 0 then Inr (haystack + i) else strstr_loop n haystack needle needle_len (i + 1) m)"

text \<open>The loop of \<open>strstr\<close> runs from 0 to \<open>haystack_len - needle_len\<close>; the first argument of
  \<open>strstr_loop\<close> is the number of iterations left.\<close>

definition strstr :: "nat \<Rightarrow> addr \<Rightarrow> addr \<Rightarrow> mem \<Rightarrow> addr res" where
  "strstr n haystack needle m =
     ebind (strlen n haystack m) (\<lambda>haystack_len. ebind (strlen n needle m) (\<lambda>needle_len.
     if haystack_len \<ge> needle_len
     then strstr_loop (haystack_len - needle_len + 1) haystack needle needle_len 0 m
     else Inr 0))"

text \<open>\<open>strtok_r\<close>: the result is the token, the saved position and the memory.\<close>

fun skip_delims :: "nat \<Rightarrow> nat \<Rightarrow> addr \<Rightarrow> addr \<Rightarrow> mem \<Rightarrow> (bool \<times> addr) res" where
  "skip_delims 0 k s delimiters m = Inl Out_of_fuel"
| "skip_delims (Suc n) k s delimiters m =
     ebind (rd m s) (\<lambda>x. ebind (strchr k delimiters x m) (\<lambda>r.
     if r \<noteq> 0 then if x = 0 then Inr (True, s) else skip_delims n k (s + 1) delimiters m
     else Inr (False, s)))"

fun skip_token :: "nat \<Rightarrow> nat \<Rightarrow> addr \<Rightarrow> addr \<Rightarrow> mem \<Rightarrow> addr res" where
  "skip_token 0 k s delimiters m = Inl Out_of_fuel"
| "skip_token (Suc n) k s delimiters m =
     ebind (rd m s) (\<lambda>x. ebind (strchr k delimiters x m) (\<lambda>r.
     if r = 0 then skip_token n k (s + 1) delimiters m else Inr s))"

definition strtok_r :: "nat \<Rightarrow> nat \<Rightarrow> addr \<Rightarrow> addr \<Rightarrow> addr \<Rightarrow> mem \<Rightarrow> (addr \<times> addr \<times> mem) res" where
  "strtok_r n k s delimiters save_ptr m =
     ebind (kassert (delimiters \<noteq> 0)) (\<lambda>_.
     let s = (if s = 0 then save_ptr else s)
     in ebind (kassert (s \<noteq> 0)) (\<lambda>_.
        ebind (skip_delims n k s delimiters m) (\<lambda>(eos, s).
        if eos then Inr (0, s, m)
        else let token = s
             in ebind (skip_token n k s delimiters m) (\<lambda>s.
                ebind (rd m s) (\<lambda>x.
                if x \<noteq> 0 then ebind (wr m s 0) (\<lambda>m. Inr (token, s + 1, m))
                else Inr (token, s, m))))))"

fun set_up :: "addr \<Rightarrow> u8 \<Rightarrow> nat \<Rightarrow> mem \<Rightarrow> mem res" where
  "set_up dst v 0 m = Inr m"
| "set_up dst v (Suc n) m = ebind (wr m dst v) (\<lambda>m. set_up (dst + 1) v n m)"

definition memset :: "addr \<Rightarrow> u8 \<Rightarrow> nat \<Rightarrow> mem \<Rightarrow> (addr \<times> mem) res" where
  "memset dst v sz m =
     ebind (kassert (dst \<noteq> 0 \<or> sz = 0)) (\<lambda>_. ebind (set_up dst v sz m) (\<lambda>m. Inr (dst, m)))"

text \<open>\<open>strnlen\<close> reads \<open>string[length]\<close> before it compares \<open>length\<close> with \<open>maxlen\<close>.\<close>

fun strnlen_loop :: "nat \<Rightarrow> addr \<Rightarrow> nat \<Rightarrow> nat \<Rightarrow> mem \<Rightarrow> nat res" where
  "strnlen_loop 0 string maxlen len m = Inl Out_of_fuel"
| "strnlen_loop (Suc n) string maxlen len m =
     ebind (rd m (string + len)) (\<lambda>x.
     if x \<noteq> 0 \<and> len < maxlen then strnlen_loop n string maxlen (len + 1) m else Inr len)"

definition strnlen :: "nat \<Rightarrow> addr \<Rightarrow> nat \<Rightarrow> mem \<Rightarrow> nat res" where
  "strnlen n string maxlen m = strnlen_loop n string maxlen 0 m"

definition strlcpy :: "nat \<Rightarrow> addr \<Rightarrow> addr \<Rightarrow> nat \<Rightarrow> mem \<Rightarrow> (nat \<times> mem) res" where
  "strlcpy n dst src sz m =
     ebind (kassert (dst \<noteq> 0)) (\<lambda>_. ebind (kassert (src \<noteq> 0)) (\<lambda>_.
     ebind (strlen n src m) (\<lambda>src_len.
     if sz > 0 then
       let dst_len = sz - 1;
           dst_len = (if src_len < dst_len then src_len else dst_len)
       in ebind (memcpy dst src dst_len m) (\<lambda>(_, m).
          ebind (wr m (dst + dst_len) 0) (\<lambda>m. Inr (src_len, m)))
     else Inr (src_len, m))))"

definition strlcat :: "nat \<Rightarrow> addr \<Rightarrow> addr \<Rightarrow> nat \<Rightarrow> mem \<Rightarrow> (nat \<times> mem) res" where
  "strlcat n dst src sz m =
     ebind (kassert (dst \<noteq> 0)) (\<lambda>_. ebind (kassert (src \<noteq> 0)) (\<lambda>_.
     ebind (strlen n src m) (\<lambda>src_len. ebind (strlen n dst m) (\<lambda>dst_len.
     if sz > 0 \<and> dst_len < sz then
       let copy_cnt = sz - dst_len - 1;
           copy_cnt = (if src_len < copy_cnt then src_len else copy_cnt)
       in ebind (memcpy (dst + dst_len) src copy_cnt m) (\<lambda>(_, m).
          ebind (wr m (dst + dst_len + copy_cnt) 0) (\<lambda>m. Inr (src_len + dst_len, m)))
     else Inr (src_len + dst_len, m)))))"

section \<open>Blocks\<close>

definition block_at :: "mem \<Rightarrow> addr \<Rightarrow> u8 list \<Rightarrow> bool" where
  "block_at m p bs \<longleftrightarrow> (\<forall>i<length bs. m (p + i) = Some (bs ! i))"

definition mapped :: "mem \<Rightarrow> addr \<Rightarrow> nat \<Rightarrow> bool" where
  "mapped m p n \<longleftrightarrow> {p..<p + n} \<subseteq> dom m"

text \<open>\<open>put m p bs\<close>: the memory with \<open>bs\<close> stored at \<open>p\<close>.\<close>

definition put :: "mem \<Rightarrow> addr \<Rightarrow> u8 list \<Rightarrow> mem" where
  "put m p bs = (\<lambda>a. if p \<le> a \<and> a < p + length bs then Some (bs ! (a - p)) else m a)"

lemma block_at_Nil [simp]: "block_at m p []"
  by (simp add: block_at_def)

lemma block_at_Cons [simp]: "block_at m p (b # bs) \<longleftrightarrow> m p = Some b \<and> block_at m (p + 1) bs"
  by (auto simp: block_at_def nth_Cons split: nat.splits)

lemma block_at_append [simp]:
  "block_at m p (as @ bs) \<longleftrightarrow> block_at m p as \<and> block_at m (p + length as) bs"
  by (induction as arbitrary: p) auto

lemma rd_Some [simp]: "m p = Some v \<Longrightarrow> rd m p = Inr v"
  by (simp add: rd_def)

lemma wr_mapped: "p \<in> dom m \<Longrightarrow> wr m p v = Inr (m(p \<mapsto> v))"
  by (auto simp: wr_def)

lemma put_Nil [simp]: "put m p [] = m"
  by (auto simp: put_def fun_eq_iff)

lemma put_Cons: "put m p (b # bs) = put (m(p \<mapsto> b)) (p + 1) bs"
  by (auto simp: put_def fun_eq_iff nth_Cons' Suc_le_eq)

lemma put_snoc: "put m p (bs @ [b]) = put (m(p + length bs \<mapsto> b)) p bs"
  by (auto simp: put_def fun_eq_iff nth_append)

lemma block_at_put [simp]: "block_at (put m p bs) p bs"
  by (simp add: block_at_def put_def)

lemma dom_put: "mapped m p (length bs) \<Longrightarrow> dom (put m p bs) = dom m"
  by (auto simp: put_def mapped_def split: if_splits)

lemma mapped_Suc: "mapped m p (Suc n) \<longleftrightarrow> p \<in> dom m \<and> mapped m (p + 1) n"
proof -
  have "{p..<p + Suc n} = insert p {p + 1..<p + 1 + n}" by auto
  then show ?thesis by (simp add: mapped_def)
qed

lemma mapped_upd: "p \<in> dom m \<Longrightarrow> mapped (m(p \<mapsto> v)) q n = mapped m q n"
  by (metis dom_fun_upd insert_absorb mapped_def option.distinct(1))

lemma block_at_upd:
  assumes "p \<notin> {q..<q + length bs}"
  shows "block_at (m(p \<mapsto> v)) q bs = block_at m q bs"
proof -
  have "q + i \<noteq> p" if "i < length bs" for i using assms that by auto
  then show ?thesis by (simp add: block_at_def)
qed

lemma copy_up_ok:
  "block_at m src bs \<Longrightarrow> mapped m dst (length bs) \<Longrightarrow> dst \<le> src \<or> src + length bs \<le> dst \<Longrightarrow>
   copy_up dst src (length bs) m = Inr (dst + length bs, put m dst bs)"
proof (induction bs arbitrary: dst src m)
  case (Cons b bs)
  have d: "dst \<in> dom m" "mapped m (dst + 1) (length bs)" using Cons.prems(2) by (simp_all add: mapped_Suc)
  have "block_at (m(dst \<mapsto> b)) (src + 1) bs"
    using Cons.prems(1,3) by (subst block_at_upd) auto
  moreover have "mapped (m(dst \<mapsto> b)) (dst + 1) (length bs)" using d by (simp add: mapped_upd)
  moreover have "dst + 1 \<le> src + 1 \<or> src + 1 + length bs \<le> dst + 1" using Cons.prems(3) by auto
  ultimately have "copy_up (dst + 1) (src + 1) (length bs) (m(dst \<mapsto> b))
      = Inr (dst + 1 + length bs, put (m(dst \<mapsto> b)) (dst + 1) bs)"
    by (rule Cons.IH)
  then show ?case using Cons.prems(1) d(1) by (simp add: wr_mapped put_Cons)
qed simp

lemma copy_down_ok:
  "block_at m src bs \<Longrightarrow> mapped m dst (length bs) \<Longrightarrow> src \<le> dst \<Longrightarrow>
   copy_down (dst + length bs) (src + length bs) (length bs) m = Inr (dst, put m dst bs)"
proof (induction bs arbitrary: m rule: rev_induct)
  case (snoc b bs)
  let ?d = "dst + length bs" and ?s = "src + length bs"
  have d: "?d \<in> dom m" using snoc.prems(2) unfolding mapped_def by (rule subsetD) simp
  have "block_at (m(?d \<mapsto> b)) src bs" using snoc.prems(1,3) by (subst block_at_upd) auto
  moreover have "mapped m dst (length bs)"
    using snoc.prems(2) unfolding mapped_def by (rule subset_trans[rotated]) auto
  then have "mapped (m(?d \<mapsto> b)) dst (length bs)" using d by (simp add: mapped_upd)
  ultimately have "copy_down ?d ?s (length bs) (m(?d \<mapsto> b)) = Inr (dst, put (m(?d \<mapsto> b)) dst bs)"
    using snoc.prems(3) by (rule snoc.IH)
  then show ?case using snoc.prems(1) d by (simp add: wr_mapped put_snoc)
qed simp

lemma memcpy_ok:
  assumes "block_at m src bs" "mapped m dst (length bs)" "dst \<le> src \<or> src + length bs \<le> dst"
    and "bs \<noteq> [] \<longrightarrow> dst \<noteq> 0 \<and> src \<noteq> 0"
  shows "memcpy dst src (length bs) m = Inr (dst, put m dst bs)"
  using copy_up_ok[OF assms(1-3)] assms(4) by (cases "bs = []") (simp_all add: memcpy_def)

lemma memmove_ok:
  assumes "block_at m src bs" "mapped m dst (length bs)" "bs \<noteq> [] \<longrightarrow> dst \<noteq> 0 \<and> src \<noteq> 0"
  shows "memmove dst src (length bs) m
     = Inr (if dst < src then dst + length bs else dst, put m dst bs)"
  using copy_up_ok[OF assms(1,2)] copy_down_ok[OF assms(1,2)] assms(3)
  by (cases "bs = []") (simp_all add: memmove_def)

lemma memset_ok:
  assumes "mapped m dst n" "n > 0 \<longrightarrow> dst \<noteq> 0"
  shows "memset dst v n m = Inr (dst, put m dst (replicate n v))"
proof -
  have "mapped m dst n \<Longrightarrow> set_up dst v n m = Inr (put m dst (replicate n v))" for m dst
    by (induction n arbitrary: dst m) (auto simp: mapped_Suc wr_mapped mapped_upd put_Cons)
  then show ?thesis using assms by (cases n) (simp_all add: memset_def)
qed

text \<open>The sign of the first difference of two blocks.\<close>

fun diff_sign :: "u8 list \<Rightarrow> u8 list \<Rightarrow> int" where
  "diff_sign (a # as) (b # bs) = (if a \<noteq> b then if a > b then 1 else -1 else diff_sign as bs)"
| "diff_sign [] [] = 0"
| "diff_sign [] (b # bs) = -1"
| "diff_sign (a # as) [] = 1"

lemma diff_sign_0: "diff_sign as bs = 0 \<longleftrightarrow> as = bs"
  by (induction as bs rule: diff_sign.induct) auto

lemma diff_sign_anti: "diff_sign as bs = - diff_sign bs as"
  by (induction as bs rule: diff_sign.induct) auto

lemma memcmp_ok:
  assumes "block_at m a as" "block_at m b bs" "length as = length bs" "as \<noteq> [] \<longrightarrow> a \<noteq> 0 \<and> b \<noteq> 0"
  shows "memcmp a b (length as) m = Inr (diff_sign as bs)"
proof -
  have "memcmp_loop a b (length as) m = Inr (diff_sign as bs)"
    using assms(3,1,2) by (induction as bs arbitrary: a b rule: list_induct2) auto
  then show ?thesis using assms(4) by (cases "as = []") (simp_all add: memcmp_def)
qed

lemma memchr_ok:
  assumes "block_at m p bs" "bs \<noteq> [] \<longrightarrow> p \<noteq> 0"
  shows "memchr p c (length bs) m
     = Inr (if c \<in> set bs then p + length (takeWhile (\<lambda>x. x \<noteq> c) bs) else 0)"
proof -
  have "block_at m p bs \<Longrightarrow> memchr_loop p c (length bs) m
      = Inr (if c \<in> set bs then p + length (takeWhile (\<lambda>x. x \<noteq> c) bs) else 0)" for p
    by (induction bs arbitrary: p) auto
  then show ?thesis using assms by (cases "bs = []") (simp_all add: memchr_def)
qed

section \<open>Strings\<close>

definition str_at :: "mem \<Rightarrow> addr \<Rightarrow> u8 list \<Rightarrow> bool" where
  "str_at m p s \<longleftrightarrow> p \<noteq> 0 \<and> 0 \<notin> set s \<and> block_at m p (s @ [0])"

lemma str_at_Cons: "str_at m p (c # s) \<longleftrightarrow> p \<noteq> 0 \<and> c \<noteq> 0 \<and> m p = Some c \<and> str_at m (p + 1) s"
  by (auto simp: str_at_def)

lemma str_at_Nil: "str_at m p [] \<longleftrightarrow> p \<noteq> 0 \<and> m p = Some 0"
  by (auto simp: str_at_def)

lemmas str_at_simps = str_at_Cons str_at_Nil

lemma strlen_ok: "str_at m p s \<Longrightarrow> length s < n \<Longrightarrow> strlen n p m = Inr (length s)"
proof -
  assume s: "str_at m p s" "length s < n"
  have "str_at m p s \<Longrightarrow> length s < n \<Longrightarrow> strlen_loop n p m = Inr (p + length s)" for p n
  proof (induction s arbitrary: p n)
    case Nil
    then show ?case by (cases n) (simp_all add: str_at_simps)
  next
    case (Cons c s)
    then show ?case by (cases n) (simp_all add: str_at_simps)
  qed
  then show ?thesis using s by (simp add: strlen_def str_at_def)
qed

text \<open>\<open>strchr\<close> finds the first occurrence; the terminator itself can be searched for.\<close>

lemma strchr_ok:
  assumes "str_at m p s" "length s < n"
  shows "strchr n p c m
     = Inr (if c \<in> set (s @ [0]) then p + length (takeWhile (\<lambda>x. x \<noteq> c) s) else 0)"
proof -
  have "str_at m p s \<Longrightarrow> length s < n \<Longrightarrow> strchr_loop n p c m
      = Inr (if c \<in> set (s @ [0]) then p + length (takeWhile (\<lambda>x. x \<noteq> c) s) else 0)" for p n
  proof (induction s arbitrary: p n)
    case Nil
    then show ?case by (cases n) (auto simp: str_at_simps)
  next
    case (Cons x s)
    then show ?case by (cases n) (auto simp: str_at_simps)
  qed
  then show ?thesis using assms by (simp add: strchr_def str_at_def)
qed

lemma strchr_nonnull:
  assumes "str_at m p s" "length s < n"
  shows "\<exists>r. strchr n p c m = Inr r \<and> (r \<noteq> 0 \<longleftrightarrow> c = 0 \<or> c \<in> set s)"
  using strchr_ok[OF assms, of c] assms(1) by (auto simp: str_at_def)

lemma strcmp_ok:
  assumes "str_at m a s" "str_at m b t" "length s < n"
  shows "strcmp n a b m = Inr (diff_sign s t)"
proof -
  have pos: "(0 :: u8) < x \<longleftrightarrow> x \<noteq> 0" for x by (simp add: word_neq_0_conv)
  have "str_at m a s \<Longrightarrow> str_at m b t \<Longrightarrow> length s < n \<Longrightarrow> strcmp_loop n a b m = Inr (diff_sign s t)" for a b n
  proof (induction s t arbitrary: a b n rule: diff_sign.induct)
    case (1 x s y t)
    then show ?case by (cases n) (auto simp: str_at_simps)
  next
    case 2
    then show ?case by (cases n) (auto simp: str_at_simps)
  next
    case (3 y t)
    then show ?case by (cases n) (auto simp: str_at_simps pos)
  next
    case (4 x s)
    then show ?case by (cases n) (auto simp: str_at_simps pos)
  qed
  then show ?thesis using assms by (simp add: strcmp_def str_at_def)
qed

lemma str_at_drop: "str_at m p (s @ t) \<Longrightarrow> str_at m (p + length s) t"
  by (auto simp: str_at_def add.assoc)

lemma str_at_char: "str_at m p (s @ c # t) \<Longrightarrow> m (p + length s) = Some c \<and> c \<noteq> 0"
  by (auto simp: str_at_def)

lemma str_at_end: "str_at m p s \<Longrightarrow> m (p + length s) = Some 0"
  by (auto simp: str_at_def)

lemma strcspn_ok:
  assumes st: "str_at m stop d" "length d < k" and s: "str_at m p s" "length s < n"
  shows "strcspn n k p stop m = Inr (length (takeWhile (\<lambda>x. x \<notin> set d) s))"
proof -
  have "str_at m p (u @ v) \<Longrightarrow> length v < n \<Longrightarrow>
      strcspn_loop n k p stop (length u) m = Inr (length u + length (takeWhile (\<lambda>x. x \<notin> set d) v))" for u v n
  proof (induction v arbitrary: u n)
    case Nil
    then show ?case using str_at_end[of m p u] by (cases n) auto
  next
    case (Cons c v)
    obtain n' where n: "n = Suc n'" "length v < n'" using Cons.prems(2) by (cases n) auto
    obtain r where r: "strchr k stop c m = Inr r" "r \<noteq> 0 \<longleftrightarrow> c = 0 \<or> c \<in> set d"
      using strchr_nonnull[OF st] by blast
    show ?case
      using Cons.IH[of "u @ [c]" n'] Cons.prems(1) n r str_at_char[OF Cons.prems(1)] by auto
  qed
  from this[of "[]" s n] show ?thesis using s by (simp add: strcspn_def)
qed

lemma strspn_ok:
  assumes st: "str_at m skip d" "length d < k" and s: "str_at m p s" "length s < n"
  shows "strspn n k p skip m = Inr (length (takeWhile (\<lambda>x. x \<in> set d) s))"
proof -
  have "str_at m p (u @ v) \<Longrightarrow> length v < n \<Longrightarrow>
      strspn_loop n k p skip (length u) m = Inr (length u + length (takeWhile (\<lambda>x. x \<in> set d) v))" for u v n
  proof (induction v arbitrary: u n)
    case Nil
    then show ?case using str_at_end[of m p u] by (cases n) auto
  next
    case (Cons c v)
    obtain n' where n: "n = Suc n'" "length v < n'" using Cons.prems(2) by (cases n) auto
    obtain r where r: "strchr k skip c m = Inr r" "r \<noteq> 0 \<longleftrightarrow> c = 0 \<or> c \<in> set d"
      using strchr_nonnull[OF st] by blast
    show ?case
      using Cons.IH[of "u @ [c]" n'] Cons.prems(1) n r str_at_char[OF Cons.prems(1)] by auto
  qed
  from this[of "[]" s n] show ?thesis using s by (simp add: strspn_def)
qed

lemma strpbrk_ok:
  assumes st: "str_at m stop d" "length d < k"
  shows "str_at m p s \<Longrightarrow> length s < n \<Longrightarrow> strpbrk n k p stop m
     = Inr (if set s \<inter> set d = {} then 0 else p + length (takeWhile (\<lambda>x. x \<notin> set d) s))"
proof (induction s arbitrary: p n)
  case Nil
  then show ?case by (cases n) (auto simp: str_at_simps)
next
  case (Cons c s)
  obtain n' where n: "n = Suc n'" "length s < n'" using Cons.prems(2) by (cases n) auto
  obtain r where r: "strchr k stop c m = Inr r" "r \<noteq> 0 \<longleftrightarrow> c = 0 \<or> c \<in> set d"
    using strchr_nonnull[OF st] by blast
  show ?case using Cons.IH[of "p + 1" n'] Cons.prems(1) n r by (auto simp: str_at_simps)
qed

text \<open>\<open>strrchr\<close>: the last occurrence of a character other than the terminator.\<close>

lemma strrchr_loop_ok:
  "str_at m p s \<Longrightarrow> length s < n \<Longrightarrow> strrchr_loop n p c q m
     = Inr (if c \<in> set s then p + length s - 1 - length (takeWhile (\<lambda>x. x \<noteq> c) (rev s)) else q)"
proof (induction s arbitrary: p n q)
  case Nil
  then show ?case by (cases n) (auto simp: str_at_simps)
next
  case (Cons x s)
  obtain n' where n: "n = Suc n'" "length s < n'" using Cons.prems(2) by (cases n) auto
  have "takeWhile (\<lambda>y. y \<noteq> c) (rev s @ [x]) =
      (if c \<in> set s then takeWhile (\<lambda>y. y \<noteq> c) (rev s) else rev s @ (if x = c then [] else [x]))"
    by (auto simp: takeWhile_append)
  then show ?case using Cons.IH[of "p + 1" n'] Cons.prems(1) n by (auto simp: str_at_simps)
qed

lemma strnlen_ok:
  assumes "str_at m p s" "length s < n"
  shows "strnlen n p mx m = Inr (min (length s) mx)"
proof -
  have "str_at m p (u @ v) \<Longrightarrow> length v < n \<Longrightarrow> length u \<le> mx \<Longrightarrow>
      strnlen_loop n p mx (length u) m = Inr (min (length (u @ v)) mx)" for u v n
  proof (induction v arbitrary: u n)
    case Nil
    then show ?case using str_at_end[of m p u] by (cases n) auto
  next
    case (Cons c v)
    obtain n' where n: "n = Suc n'" "length v < n'" using Cons.prems(2) by (cases n) auto
    show ?case
      using Cons.IH[of "u @ [c]" n'] Cons.prems n str_at_char[OF Cons.prems(1)] by (auto simp: min_def)
  qed
  from this[of "[]" s n] show ?thesis using assms by (simp add: strnlen_def)
qed

lemma strrchr_ok:
  assumes "str_at m p s" "length s < n"
  shows "strrchr n p c m
     = Inr (if c \<in> set s then p + length s - 1 - length (takeWhile (\<lambda>x. x \<noteq> c) (rev s)) else 0)"
  using strrchr_loop_ok[OF assms] by (simp add: strrchr_def)

section \<open>Copying strings\<close>

lemma block_at_take: "block_at m p bs \<Longrightarrow> block_at m p (take n bs)"
  by (simp add: block_at_def)

lemma str_at_put:
  assumes "0 \<notin> set s" "p \<noteq> 0"
  shows "str_at ((put m p s)(p + length s \<mapsto> 0)) p s"
proof -
  have "block_at ((put m p s)(p + length s \<mapsto> 0)) p s" by (subst block_at_upd) auto
  then show ?thesis using assms by (simp add: str_at_def)
qed

lemma put_terminator: "(put m p s)(p + length s \<mapsto> 0) = put m p (s @ [0])"
  by (auto simp: put_def fun_eq_iff nth_append)

lemma mapped_mono: "mapped m p n \<Longrightarrow> k \<le> n \<Longrightarrow> mapped m p k"
  unfolding mapped_def by (erule subset_trans[rotated]) auto

lemma mapped_at: "mapped m p n \<Longrightarrow> k < n \<Longrightarrow> p + k \<in> dom m"
  unfolding mapped_def by (erule subsetD) auto

text \<open>The copy that ends \<open>strlcpy\<close> and \<open>strlcat\<close>: a block and then a terminator.\<close>

lemma copy_terminated:
  assumes "block_at m src t" "src \<noteq> 0" "dst \<noteq> 0" "mapped m dst (length t + 1)"
    and "dst \<le> src \<or> src + length t \<le> dst"
  shows "ebind (memcpy dst src (length t) m) (\<lambda>(_, m).
           ebind (wr m (dst + length t) 0) (\<lambda>m. Inr (r, m))) = Inr (r, put m dst (t @ [0]))"
proof -
  have "mapped m dst (length t)" "dst + length t \<in> dom m"
    by (rule mapped_mono[OF assms(4)], simp, rule mapped_at[OF assms(4)], simp)
  moreover from this have "dst + length t \<in> dom (put m dst t)" by (simp only: dom_put)
  ultimately show ?thesis
    using assms by (simp add: memcpy_ok wr_mapped put_terminator)
qed

lemma strlcpy_ok:
  assumes s: "str_at m src s" "length s < n" and d: "dst \<noteq> 0" "mapped m dst sz" "sz > 0"
    and apart: "src + length s < dst \<or> dst + sz \<le> src"
  shows "strlcpy n dst src sz m = Inr (length s, put m dst (take (sz - 1) s @ [0]))"
proof -
  have src: "src \<noteq> 0" "block_at m src (take (sz - 1) s)"
    using s(1) by (auto simp: str_at_def intro: block_at_take)
  have "mapped m dst (length (take (sz - 1) s) + 1)"
    by (rule mapped_mono[OF d(2)]) (use d(3) in auto)
  moreover have "dst \<le> src \<or> src + length (take (sz - 1) s) \<le> dst" using apart by auto
  ultimately show ?thesis
    using s d src copy_terminated[OF src(2,1) d(1), of "length s"]
    by (cases "length s < sz - 1")
      (simp_all add: strlcpy_def strlen_ok Let_def cong del: ebind_weak_cong)
qed

lemma strlcat_ok:
  assumes s: "str_at m src s" "length s < n" and d: "str_at m dst d" "length d < n"
    and map: "mapped m dst sz"
    and apart: "src + length s < dst + length d \<or> dst + sz \<le> src"
  shows "strlcat n dst src sz m = Inr (length s + length d,
           if length d < sz then put m (dst + length d) (take (sz - length d - 1) s @ [0]) else m)"
proof (cases "length d < sz")
  case True
  let ?t = "take (sz - length d - 1) s" and ?e = "dst + length d"
  have src: "src \<noteq> 0" "block_at m src ?t" and dst: "dst \<noteq> 0" "?e \<noteq> 0"
    using s(1) d(1) by (auto simp: str_at_def intro: block_at_take)
  have "mapped m ?e (length ?t + 1)"
    using map True unfolding mapped_def by (elim subset_trans[rotated]) auto
  moreover have "?e \<le> src \<or> src + length ?t \<le> ?e" using apart True by auto
  ultimately show ?thesis
    using s d src dst(1) True copy_terminated[OF src(2,1) dst(2), of "length s + length d"]
    by (cases "length s < sz - length d - 1")
      (simp_all add: strlcat_def strlen_ok Let_def cong del: ebind_weak_cong)
next
  case False
  moreover have "src \<noteq> 0" "dst \<noteq> 0" using s(1) d(1) by (simp_all add: str_at_def)
  ultimately show ?thesis using s d by (simp add: strlcat_def strlen_ok)
qed

section \<open>Searching and splitting strings\<close>

lemma block_at_sub:
  assumes "block_at m p bs" "i + k \<le> length bs"
  shows "block_at m (p + i) (take k (drop i bs))"
  using assms by (auto simp: block_at_def add.assoc)

lemma memcmp_eq0:
  assumes "block_at m a xs" "block_at m b ys" "length xs = length ys" "a \<noteq> 0" "b \<noteq> 0"
  shows "\<exists>c. memcmp a b (length xs) m = Inr c \<and> (c = 0 \<longleftrightarrow> xs = ys)"
proof -
  have "\<exists>c. memcmp_loop a b (length xs) m = Inr c \<and> (c = 0 \<longleftrightarrow> xs = ys)"
    using assms(3,1,2) by (induction xs ys arbitrary: a b rule: list_induct2) auto
  then show ?thesis using assms(4,5) by (simp add: memcmp_def)
qed

lemma find_append: "find P (xs @ ys) = (case find P xs of None \<Rightarrow> find P ys | Some x \<Rightarrow> Some x)"
  by (induction xs) auto

text \<open>\<open>occurs t s i\<close>: the string \<open>t\<close> occurs in \<open>s\<close> at offset \<open>i\<close>.\<close>

definition occurs :: "u8 list \<Rightarrow> u8 list \<Rightarrow> nat \<Rightarrow> bool" where
  "occurs t s i \<longleftrightarrow> i + length t \<le> length s \<and> take (length t) (drop i s) = t"

lemma strstr_loop_ok:
  assumes "block_at m hp s" "block_at m np t" "hp \<noteq> 0" "np \<noteq> 0"
  shows "i + n + length t = length s + 1 \<Longrightarrow> strstr_loop n hp np (length t) i m
     = Inr (case find (occurs t s) [i..<i + n] of None \<Rightarrow> 0 | Some j \<Rightarrow> hp + j)"
proof (induction n arbitrary: i)
  case (Suc n)
  let ?w = "take (length t) (drop i s)"
  have le: "i + length t \<le> length s" using Suc.prems by simp
  then have len: "length ?w = length t" by simp
  obtain c where c: "memcmp (hp + i) np (length t) m = Inr c" "c = 0 \<longleftrightarrow> ?w = t"
    using memcmp_eq0[OF block_at_sub[OF assms(1) le] assms(2) len] assms(3,4) len by auto
  have "[i..<i + Suc n] = i # [Suc i..<Suc i + n]" by (simp add: upt_rec)
  then show ?case using c Suc.IH[of "Suc i"] Suc.prems le by (simp add: occurs_def del: upt_Suc)
qed simp

lemma strstr_ok:
  assumes "str_at m hp s" "length s < n" "str_at m np t" "length t < n"
  shows "strstr n hp np m
     = Inr (case find (occurs t s) [0..<length s + 1] of None \<Rightarrow> 0 | Some j \<Rightarrow> hp + j)"
proof -
  have b: "block_at m hp s" "block_at m np t" "hp \<noteq> 0" "np \<noteq> 0"
    using assms(1,3) by (simp_all add: str_at_def)
  have none: "find (occurs t s) [k..<length s + 1] = None" if "length s < k + length t" for k
    using that by (auto simp: find_None_iff occurs_def)
  show ?thesis
  proof (cases "length t \<le> length s")
    case True
    let ?k = "length s - length t + 1"
    have "[0..<length s + 1] = [0..<?k] @ [?k..<length s + 1]"
      using True upt_add_eq_append[of 0 ?k "length t"] by simp
    then have "find (occurs t s) [0..<length s + 1] = find (occurs t s) [0..<?k]"
      using none[of ?k] True by (simp add: find_append del: upt_Suc split: option.splits)
    then show ?thesis
      using strstr_loop_ok[OF b, of 0 ?k] True assms
      by (simp add: strstr_def strlen_ok del: upt_Suc strstr_loop.simps)
  next
    case False
    then show ?thesis using none[of 0] assms by (simp add: strstr_def strlen_ok del: upt_Suc)
  qed
qed

lemma skip_delims_ok:
  assumes d: "str_at m dp d" "length d < k"
  shows "str_at m p s \<Longrightarrow> length s < n \<Longrightarrow> skip_delims n k p dp m
     = Inr (set s \<subseteq> set d, p + length (takeWhile (\<lambda>x. x \<in> set d) s))"
proof (induction s arbitrary: p n)
  case Nil
  then obtain n' where n: "n = Suc n'" by (cases n) auto
  obtain r where "strchr k dp 0 m = Inr r" "r \<noteq> 0" using strchr_nonnull[OF d] by blast
  then show ?case using Nil n by (simp add: str_at_simps)
next
  case (Cons x s)
  then obtain n' where n: "n = Suc n'" by (cases n) auto
  have x: "x \<noteq> 0" "m p = Some x" "str_at m (p + 1) s" using Cons.prems by (simp_all add: str_at_simps)
  obtain r where "strchr k dp x m = Inr r" "r \<noteq> 0 \<longleftrightarrow> x \<in> set d"
    using strchr_nonnull[OF d, of x] x(1) by auto
  then show ?case using Cons.IH[OF x(3), of n'] Cons.prems x n by (cases "x \<in> set d") simp_all
qed

lemma skip_token_ok:
  assumes d: "str_at m dp d" "length d < k"
  shows "str_at m p s \<Longrightarrow> length s < n \<Longrightarrow> skip_token n k p dp m
     = Inr (p + length (takeWhile (\<lambda>x. x \<notin> set d) s))"
proof (induction s arbitrary: p n)
  case Nil
  then obtain n' where n: "n = Suc n'" by (cases n) auto
  obtain r where "strchr k dp 0 m = Inr r" "r \<noteq> 0" using strchr_nonnull[OF d] by blast
  then show ?case using Nil n by (simp add: str_at_simps)
next
  case (Cons x s)
  then obtain n' where n: "n = Suc n'" by (cases n) auto
  have x: "x \<noteq> 0" "m p = Some x" "str_at m (p + 1) s" using Cons.prems by (simp_all add: str_at_simps)
  obtain r where "strchr k dp x m = Inr r" "r \<noteq> 0 \<longleftrightarrow> x \<in> set d"
    using strchr_nonnull[OF d, of x] x(1) by auto
  then show ?case using Cons.IH[OF x(3), of n'] Cons.prems x n by (cases "x \<in> set d") simp_all
qed

text \<open>A call on a string \<open>u @ t @ v\<close> with leading delimiters \<open>u\<close>, a token \<open>t\<close> and the rest \<open>v\<close>.\<close>

lemma strtok_r_token:
  assumes d: "str_at m dp d" "length d < k"
    and s: "str_at m p (u @ t @ v)" "length (u @ t @ v) < n"
    and u: "set u \<subseteq> set d" and t: "set t \<inter> set d = {}" "t \<noteq> []"
    and v: "v = [] \<or> hd v \<in> set d"
    and q: "q = p \<or> (q = 0 \<and> sv = p)"
  shows "strtok_r n k q dp sv m = Inr (p + length u,
           if v = [] then (p + length (u @ t), m)
           else (p + length (u @ t) + 1, m(p + length (u @ t) \<mapsto> 0)))"
proof -
  have nz: "dp \<noteq> 0" "p \<noteq> 0" using d s by (simp_all add: str_at_def)
  have tw: "takeWhile (\<lambda>x. x \<in> set d) (u @ t @ v) = u"
    using u t by (cases t) (auto simp: takeWhile_append)
  have tv: "takeWhile (\<lambda>x. x \<notin> set d) (t @ v) = t"
    using t v by (cases v) (auto simp: takeWhile_append disjoint_iff)
  have "\<not> set (u @ t @ v) \<subseteq> set d" using t by (cases t) auto
  then have "skip_delims n k p dp m = Inr (False, p + length u)"
    using skip_delims_ok[OF d s] by (simp only: tw)
  moreover have st: "str_at m (p + length u) (t @ v)" using s(1) by (rule str_at_drop)
  moreover have "skip_token n k (p + length u) dp m = Inr (p + length (u @ t))"
    using skip_token_ok[OF d st, of n] s(2) by (simp only: tv) simp
  moreover have "m (p + length (u @ t)) = Some (hd (v @ [0]))" "v \<noteq> [] \<longrightarrow> hd v \<noteq> 0"
    using str_at_drop[of m p "u @ t" v] s(1) by (cases v; simp add: str_at_simps)+
  ultimately show ?thesis using nz q by (auto simp: strtok_r_def Let_def wr_def)
qed

lemma strtok_r_end:
  assumes d: "str_at m dp d" "length d < k" and s: "str_at m p s" "length s < n"
    and u: "set s \<subseteq> set d" and q: "q = p \<or> (q = 0 \<and> sv = p)"
  shows "strtok_r n k q dp sv m = Inr (0, p + length s, m)"
proof -
  have "takeWhile (\<lambda>x. x \<in> set d) s = s" using u by (auto simp: takeWhile_eq_all_conv)
  then have "skip_delims n k p dp m = Inr (True, p + length s)"
    using skip_delims_ok[OF d s] u by (simp only:)
  moreover have "dp \<noteq> 0" "p \<noteq> 0" using d s by (simp_all add: str_at_def)
  ultimately show ?thesis using q by (auto simp: strtok_r_def Let_def)
qed

text \<open>The loop that the comment of \<open>strtok_r\<close> gives for its use: tokens until the null pointer.\<close>

fun strtok_all :: "nat \<Rightarrow> nat \<Rightarrow> nat \<Rightarrow> addr \<Rightarrow> addr \<Rightarrow> addr \<Rightarrow> mem \<Rightarrow> (addr list \<times> mem) res" where
  "strtok_all 0 n k s dp sv m = Inl Out_of_fuel"
| "strtok_all (Suc f) n k s dp sv m =
     ebind (strtok_r n k s dp sv m) (\<lambda>(tok, sv, m).
     if tok = 0 then Inr ([], m)
     else ebind (strtok_all f n k 0 dp sv m) (\<lambda>(ts, m). Inr (tok # ts, m)))"

text \<open>The reference: the maximal runs of characters that are not delimiters.\<close>

function tokens :: "u8 list \<Rightarrow> u8 list \<Rightarrow> u8 list list" where
  "tokens d [] = []"
| "tokens d (x # xs) =
     (if x \<in> set d then tokens d xs
      else (x # takeWhile (\<lambda>y. y \<notin> set d) xs) # tokens d (dropWhile (\<lambda>y. y \<notin> set d) xs))"
  by pat_completeness auto

termination
  by (relation "measure (\<lambda>(d, s). length s)") (auto simp: le_imp_less_Suc length_dropWhile_le)

lemma tokens_delims: "set u \<subseteq> set d \<Longrightarrow> tokens d (u @ s) = tokens d s"
  by (induction u) auto

lemma tokens_split:
  assumes "set u \<subseteq> set d" "t \<noteq> []" "set t \<inter> set d = {}" "v = [] \<or> hd v \<in> set d"
  shows "tokens d (u @ t @ v) = t # tokens d (tl v)"
proof -
  obtain x xs where t: "t = x # xs" using assms(2) by (cases t) auto
  have "\<forall>y\<in>set xs. y \<notin> set d" using assms(3) t by auto
  then have "takeWhile (\<lambda>y. y \<notin> set d) (xs @ v) = xs" "dropWhile (\<lambda>y. y \<notin> set d) (xs @ v) = v"
    using assms(4) by (cases v; simp add: takeWhile_append dropWhile_append)+
  moreover have "tokens d v = tokens d (tl v)" using assms(4) by (cases v) auto
  ultimately show ?thesis using assms(1,3) t by (simp add: tokens_delims)
qed

lemma token_cases:
  obtains (none) "set s \<subseteq> set d"
  | (token) u t v where "s = u @ t @ v" "set u \<subseteq> set d" "t \<noteq> []" "set t \<inter> set d = {}"
      "v = [] \<or> hd v \<in> set d"
proof (cases "set s \<subseteq> set d")
  case True
  then show ?thesis by (rule none)
next
  case False
  let ?r = "dropWhile (\<lambda>x. x \<in> set d) s"
  have r: "?r \<noteq> []" using False by (auto simp: dropWhile_eq_Nil_conv)
  show ?thesis
  proof (rule token[of "takeWhile (\<lambda>x. x \<in> set d) s" "takeWhile (\<lambda>x. x \<notin> set d) ?r"
        "dropWhile (\<lambda>x. x \<notin> set d) ?r"])
    show "takeWhile (\<lambda>x. x \<notin> set d) ?r \<noteq> []"
      using r hd_dropWhile[OF r] by (cases ?r) auto
    show "dropWhile (\<lambda>x. x \<notin> set d) ?r = [] \<or> hd (dropWhile (\<lambda>x. x \<notin> set d) ?r) \<in> set d"
      using hd_dropWhile by blast
  qed (auto dest: set_takeWhileD)
qed

lemma str_at_cong:
  assumes "str_at m p s" "\<And>a. p \<le> a \<Longrightarrow> a \<le> p + length s \<Longrightarrow> m' a = m a"
  shows "str_at m' p s"
  using assms by (auto simp: str_at_def block_at_def)

lemma strtok_all_ok:
  "str_at m dp d \<Longrightarrow> length d < k \<Longrightarrow> str_at m p s \<Longrightarrow> length s < n \<Longrightarrow> length s < f \<Longrightarrow>
   dp + length d < p \<or> p + length s < dp \<Longrightarrow> q = p \<or> (q = 0 \<and> sv = p) \<Longrightarrow>
   \<exists>ts m'. strtok_all f n k q dp sv m = Inr (ts, m') \<and> list_all2 (str_at m') ts (tokens d s) \<and>
     (\<forall>a. a \<notin> {p..<p + length s} \<longrightarrow> m' a = m a)"
proof (induction s arbitrary: m p q sv f rule: length_induct)
  case (1 s)
  note d = 1(2,3) and s = 1(4,5) and f = 1(6) and apart = 1(7) and q = 1(8)
  obtain f' where f': "f = Suc f'" using f by (cases f) auto
  show ?case
  proof (cases s d rule: token_cases)
    case none
    then have "tokens d s = []" using tokens_delims[of s d "[]"] by simp
    then show ?thesis using strtok_r_end[OF d s none q] f' by simp
  next
    case (token u t v)
    let ?e = "p + length (u @ t)"
    define p' m1 where "p' = (if v = [] then ?e else ?e + 1)"
      and "m1 = (if v = [] then m else m(?e \<mapsto> 0))"
    have call: "strtok_r n k q dp sv m = Inr (p + length u, p', m1)"
      using strtok_r_token[OF d, of p u t v n q sv] s q token by (auto simp: p'_def m1_def)
    have sv: "str_at m ?e v" using str_at_drop[of m p "u @ t" v] s(1) token(1) by simp
    have rest: "str_at m1 p' (tl v)"
      using sv by (cases v) (auto simp: p'_def m1_def str_at_simps intro: str_at_cong)
    have tok: "str_at m1 (p + length u) t"
      using s(1) token(1) block_at_upd[of ?e "p + length u" t m 0]
      by (cases v) (auto simp: m1_def str_at_def ac_simps)
    have dd: "str_at m1 dp d" using d(1) apart token(1) by (auto simp: m1_def elim!: str_at_cong)
    have "length (tl v) < length s" using token by (cases t) auto
    moreover have "length (tl v) < f'" using token f f' by (cases t) auto
    moreover have "dp + length d < p' \<or> p' + length (tl v) < dp"
      using apart token(1) by (cases v) (auto simp: p'_def)
    ultimately obtain ts m' where ih: "strtok_all f' n k 0 dp p' m1 = Inr (ts, m')"
      "list_all2 (str_at m') ts (tokens d (tl v))" "\<forall>a. a \<notin> {p'..<p' + length (tl v)} \<longrightarrow> m' a = m1 a"
      using 1(1)[rule_format, of "tl v" m1 p' f' 0 p'] dd d(2) rest s(2) by auto
    have "str_at m' (p + length u) t"
      using tok ih(3) by (elim str_at_cong) (auto simp: p'_def split: if_splits)
    moreover have "\<forall>a. a \<notin> {p..<p + length s} \<longrightarrow> m' a = m a"
      using ih(3) token(1) by (cases v) (auto simp: p'_def m1_def)
    moreover have "p \<noteq> 0" using s by (simp add: str_at_def)
    ultimately show ?thesis
      using call ih(1,2) f' token by (simp add: tokens_split)
  qed
qed

section \<open>Properties\<close>

lemma put_outside: "a \<notin> {p..<p + length bs} \<Longrightarrow> put m p bs a = m a"
  by (auto simp: put_def)

lemma str_at_put_term: "p \<noteq> 0 \<Longrightarrow> 0 \<notin> set s \<Longrightarrow> str_at (put m p (s @ [0])) p s"
  by (simp add: str_at_def block_at_put del: block_at_append)

text \<open>C28.  \<open>memmove\<close> copies a block onto any mapped destination, also when source and
  destination overlap: afterwards the destination holds the bytes that the source held before,
  and no other byte has changed.  The pointer it returns is the destination when it copied
  downwards and the end of the destination when it copied upwards.\<close>

theorem memmove_correct:
  assumes "block_at m src bs" "mapped m dst (length bs)" "bs \<noteq> [] \<longrightarrow> dst \<noteq> 0 \<and> src \<noteq> 0"
  shows "\<exists>m'. memmove dst src (length bs) m
           = Inr (if dst < src then dst + length bs else dst, m') \<and>
         block_at m' dst bs \<and> (\<forall>a. a \<notin> {dst..<dst + length bs} \<longrightarrow> m' a = m a)"
  using memmove_ok[OF assms] by (auto simp: put_outside)

theorem memmove_correct_witness:
  "\<exists>m'. memmove 4 3 3 (put Map.empty 3 [1, 2, 3, 4]) = Inr (4, m') \<and> block_at m' 4 [1, 2, 3]"
proof -
  let ?m = "put Map.empty 3 [1, 2, 3, 4]"
  have "block_at ?m 3 [1, 2, 3]" "mapped ?m 4 3"
    by (auto simp: block_at_def put_def mapped_def dom_def nth_Cons' less_Suc_eq numeral_eq_Suc)
  moreover have len: "length [1, 2, 3 :: u8] = 3" by simp
  ultimately show ?thesis using memmove_correct[of ?m 3 "[1, 2, 3]" 4, unfolded len] by auto
qed

text \<open>C29.  \<open>strlcpy\<close> returns the length of the source, and leaves at the destination the
  string of the first \<open>size - 1\<close> characters of the source, always terminated; it writes only
  inside the \<open>size\<close> bytes of the destination.\<close>

theorem strlcpy_correct:
  assumes "str_at m src s" "length s < n" "dst \<noteq> 0" "mapped m dst sz" "sz > 0"
    and "src + length s < dst \<or> dst + sz \<le> src"
  shows "\<exists>m'. strlcpy n dst src sz m = Inr (length s, m') \<and> str_at m' dst (take (sz - 1) s) \<and>
         (\<forall>a. a \<notin> {dst..<dst + sz} \<longrightarrow> m' a = m a)"
proof -
  have "0 \<notin> set (take (sz - 1) s)" using assms(1) by (auto simp: str_at_def dest: in_set_takeD)
  then show ?thesis
    using strlcpy_ok[OF assms] assms(3,5) by (auto simp: str_at_put_term intro!: put_outside)
qed

theorem strlcpy_correct_witness:
  "\<exists>m'. strlcpy 9 8 1 3 (put Map.empty 1 [65, 66, 67, 68, 0, 0, 0, 1, 1, 1]) = Inr (4, m') \<and>
     str_at m' 8 [65, 66]"
proof -
  let ?m = "put Map.empty 1 [65, 66, 67, 68, 0, 0, 0, 1, 1, 1]"
  have "str_at ?m 1 [65, 66, 67, 68]" "mapped ?m 8 3"
    by (simp add: str_at_def put_def) (auto simp: mapped_def put_def)
  moreover have len: "length [65, 66, 67, 68 :: u8] = 4" by simp
  ultimately show ?thesis using strlcpy_correct[of ?m 1 "[65, 66, 67, 68]" 9 8 3, unfolded len] by auto
qed

text \<open>C30.  Called until it returns the null pointer, \<open>strtok_r\<close> gives the tokens of the string:
  the maximal runs of characters that are not delimiters, each a terminated string in the final
  memory, in order.  It changes only bytes of the string.\<close>

theorem strtok_r_correct:
  assumes "str_at m dp d" "length d < k" "str_at m p s" "length s < n" "length s < f"
    and "dp + length d < p \<or> p + length s < dp"
  shows "\<exists>ts m'. strtok_all f n k p dp 0 m = Inr (ts, m') \<and> list_all2 (str_at m') ts (tokens d s) \<and>
           (\<forall>a. a \<notin> {p..<p + length s} \<longrightarrow> m' a = m a)"
  by (rule strtok_all_ok[OF assms]) simp

theorem strtok_r_correct_witness:
  "\<exists>ts m'. strtok_all 7 7 2 9 5 0 (put (put Map.empty 5 [32, 0]) 9 [32, 97, 98, 32, 32, 99, 0]) = Inr (ts, m') \<and>
     list_all2 (str_at m') ts [[97, 98], [99]]"
proof -
  let ?m = "put (put Map.empty 5 [32, 0]) 9 [32, 97, 98, 32, 32, 99, 0]"
  have "str_at ?m 5 [32]" "str_at ?m 9 [32, 97, 98, 32, 32, 99]"
    by (simp_all add: str_at_def put_def)
  then show ?thesis using strtok_r_correct[of ?m 5 "[32]" 2 9 "[32, 97, 98, 32, 32, 99]" 7 7] by auto
qed

end
