(* ===== verification/Hash.thy ===== *)
theory Hash
  imports Klist_Sort Cstring
begin

text \<open>
  Hash tables with chaining: \<open>src/lib/kernel/hash.c\<close>.

  An element is designated by the address of its \<open>struct hash_elem\<close>, a null pointer is 0.
  The array of buckets is a list of lists of elements (theories \<open>Klist_Rep\<close> and \<open>Klist_Sort\<close>
  relate the linked lists to HOL lists); \<open>list_remove\<close> unlinks an element from the bucket that
  holds it.  What \<open>malloc\<close> returned is an argument of the operations that allocate.

  \<open>hash_wf\<close> is the invariant of a table.  The locale \<open>hashing\<close> is what \<open>hash.h\<close> demands of the two
  functions of a table; inside it the operations are shown to implement a set of elements that are
  pairwise different for the comparison.
\<close>

unbundle bit_operations_syntax

type_synonym helem = nat

section \<open>The operations of hash.c\<close>

record hash =
  elem_cnt :: u32
  bucket_cnt :: u32
  buckets :: "helem list list"
  hash_fn :: "helem \<Rightarrow> u32"
  less_fn :: "helem \<Rightarrow> helem \<Rightarrow> bool"

definition bucket_at :: "hash \<Rightarrow> u32 \<Rightarrow> helem list res" where
  "bucket_at h i = (if unat i < length (buckets h) then Inr (buckets h ! unat i) else Inl Bad_access)"

definition find_bucket :: "hash \<Rightarrow> helem \<Rightarrow> u32" where
  "find_bucket h e = hash_fn h e AND (bucket_cnt h - 1)"

fun find_elem :: "hash \<Rightarrow> helem list \<Rightarrow> helem \<Rightarrow> helem" where
  "find_elem h [] e = 0"
| "find_elem h (hi # bucket) e =
     (if \<not> less_fn h hi e \<and> \<not> less_fn h e hi then hi else find_elem h bucket e)"

definition turn_off_least_1bit :: "u32 \<Rightarrow> u32" where
  "turn_off_least_1bit x = x AND (x - 1)"

definition is_power_of_2 :: "u32 \<Rightarrow> bool" where
  "is_power_of_2 x \<longleftrightarrow> x \<noteq> 0 \<and> turn_off_least_1bit x = 0"

abbreviation (input) BEST_ELEMS_PER_BUCKET :: u32 where "BEST_ELEMS_PER_BUCKET \<equiv> 2"

partial_function (option) to_power_of_2 :: "u32 \<Rightarrow> u32 option" where
  "to_power_of_2 n = (if is_power_of_2 n then Some n else to_power_of_2 (turn_off_least_1bit n))"

declare to_power_of_2.simps [code]

text \<open>\<open>list_push_front\<close> on a bucket.\<close>

definition push_bucket :: "u32 \<Rightarrow> helem \<Rightarrow> hash \<Rightarrow> hash res" where
  "push_bucket i e h = ebind (bucket_at h i) (\<lambda>b. Inr (h\<lparr>buckets := (buckets h)[unat i := e # b]\<rparr>))"

fun rehash_bucket :: "helem list \<Rightarrow> hash \<Rightarrow> hash res" where
  "rehash_bucket [] h = Inr h"
| "rehash_bucket (e # es) h = ebind (push_bucket (find_bucket h e) e h) (rehash_bucket es)"

fun rehash_buckets :: "helem list list \<Rightarrow> hash \<Rightarrow> hash res" where
  "rehash_buckets [] h = Inr h"
| "rehash_buckets (b # bs) h = ebind (rehash_bucket b h) (rehash_buckets bs)"

definition rehash :: "bool \<Rightarrow> hash \<Rightarrow> hash res" where
  "rehash malloc_ok h =
     (let new_bucket_cnt = elem_cnt h div BEST_ELEMS_PER_BUCKET;
          new_bucket_cnt = (if new_bucket_cnt < 4 then 4 else new_bucket_cnt)
      in case to_power_of_2 new_bucket_cnt of None \<Rightarrow> Inl Out_of_fuel
         | Some new_bucket_cnt \<Rightarrow>
             if new_bucket_cnt = bucket_cnt h then Inr h
             else if \<not> malloc_ok then Inr h
             else rehash_buckets (take (unat (bucket_cnt h)) (buckets h))
                    (h\<lparr>buckets := replicate (unat new_bucket_cnt) [], bucket_cnt := new_bucket_cnt\<rparr>))"

definition insert_elem :: "u32 \<Rightarrow> helem \<Rightarrow> hash \<Rightarrow> hash res" where
  "insert_elem bucket e h = push_bucket bucket e (h\<lparr>elem_cnt := elem_cnt h + 1\<rparr>)"

definition remove_elem :: "helem \<Rightarrow> hash \<Rightarrow> hash" where
  "remove_elem e h = h\<lparr>elem_cnt := elem_cnt h - 1, buckets := map (remove1 e) (buckets h)\<rparr>"

definition hash_find :: "helem \<Rightarrow> hash \<Rightarrow> helem res" where
  "hash_find e h = ebind (bucket_at h (find_bucket h e)) (\<lambda>b. Inr (find_elem h b e))"

definition hash_insert :: "bool \<Rightarrow> helem \<Rightarrow> hash \<Rightarrow> (helem \<times> hash) res" where
  "hash_insert malloc_ok new h =
     (let bucket = find_bucket h new
      in ebind (bucket_at h bucket) (\<lambda>b.
         let old = find_elem h b new
         in ebind (if old = 0 then insert_elem bucket new h else Inr h) (\<lambda>h.
            ebind (rehash malloc_ok h) (\<lambda>h. Inr (old, h)))))"

definition hash_replace :: "bool \<Rightarrow> helem \<Rightarrow> hash \<Rightarrow> (helem \<times> hash) res" where
  "hash_replace malloc_ok new h =
     (let bucket = find_bucket h new
      in ebind (bucket_at h bucket) (\<lambda>b.
         let old = find_elem h b new;
             h = (if old \<noteq> 0 then remove_elem old h else h)
         in ebind (insert_elem bucket new h) (\<lambda>h. ebind (rehash malloc_ok h) (\<lambda>h. Inr (old, h)))))"

definition hash_delete :: "bool \<Rightarrow> helem \<Rightarrow> hash \<Rightarrow> (helem \<times> hash) res" where
  "hash_delete malloc_ok e h =
     ebind (bucket_at h (find_bucket h e)) (\<lambda>b.
     let found = find_elem h b e
     in if found \<noteq> 0 then ebind (rehash malloc_ok (remove_elem found h)) (\<lambda>h. Inr (found, h))
        else Inr (found, h))"

text \<open>A destructor or an action changes a state of its own.\<close>

definition hash_clear :: "(helem \<Rightarrow> 's \<Rightarrow> 's) option \<Rightarrow> hash \<Rightarrow> 's \<Rightarrow> hash \<times> 's" where
  "hash_clear destructor h s =
     (h\<lparr>buckets := map (\<lambda>_. []) (buckets h), elem_cnt := 0\<rparr>,
      case destructor of None \<Rightarrow> s | Some d \<Rightarrow> fold (fold d) (buckets h) s)"

definition hash_destroy :: "(helem \<Rightarrow> 's \<Rightarrow> 's) option \<Rightarrow> hash \<Rightarrow> 's \<Rightarrow> hash \<times> 's" where
  "hash_destroy destructor h s =
     (let (h, s) = (if destructor \<noteq> None then hash_clear destructor h s else (h, s))
      in (h\<lparr>buckets := []\<rparr>, s))"

text \<open>\<open>hash_init\<close>; a block that \<open>malloc\<close> returns has some contents.\<close>

definition hash_init :: "helem list list option \<Rightarrow> (helem \<Rightarrow> u32) \<Rightarrow> (helem \<Rightarrow> helem \<Rightarrow> bool) \<Rightarrow> bool \<times> hash" where
  "hash_init block hsh lss =
     (case block of
        None \<Rightarrow> (False, \<lparr>elem_cnt = 0, bucket_cnt = 4, buckets = [], hash_fn = hsh, less_fn = lss\<rparr>)
      | Some g \<Rightarrow> (True, fst (hash_clear None
           \<lparr>elem_cnt = 0, bucket_cnt = 4, buckets = take 4 (g @ replicate 4 []), hash_fn = hsh, less_fn = lss\<rparr> ())))"

definition hash_apply :: "(helem \<Rightarrow> 's \<Rightarrow> 's) \<Rightarrow> hash \<Rightarrow> 's \<Rightarrow> 's" where
  "hash_apply action h s = fold (fold action) (buckets h) s"

definition hash_size :: "hash \<Rightarrow> u32" where
  "hash_size h = elem_cnt h"

definition hash_empty :: "hash \<Rightarrow> bool" where
  "hash_empty h \<longleftrightarrow> elem_cnt h = 0"

section \<open>Iterators\<close>

text \<open>The element of an iterator is the head of a bucket, an element or a null pointer.\<close>

datatype ipos = At_head | At helem | At_null

record hash_iterator =
  it_bucket :: nat
  it_elem :: ipos

definition hash_first :: "hash \<Rightarrow> hash_iterator" where
  "hash_first h = \<lparr>it_bucket = 0, it_elem = At_head\<rparr>"

text \<open>The elements that follow a position in a bucket; its first one is \<open>list_next\<close>.\<close>

fun following :: "ipos \<Rightarrow> helem list \<Rightarrow> helem list res" where
  "following At_head b = Inr b"
| "following (At e) b = (if e \<in> set b then Inr (tl (dropWhile (\<lambda>x. x \<noteq> e) b)) else Inl Bad_access)"
| "following At_null b = Inl Bad_access"

text \<open>The loop of \<open>hash_next\<close>, on the rest of the bucket \<open>i\<close> and the buckets behind it.\<close>

fun next_bucket :: "nat \<Rightarrow> helem list \<Rightarrow> helem list list \<Rightarrow> hash_iterator" where
  "next_bucket i (e # b) bs = \<lparr>it_bucket = i, it_elem = At e\<rparr>"
| "next_bucket i [] [] = \<lparr>it_bucket = i + 1, it_elem = At_null\<rparr>"
| "next_bucket i [] (b # bs) = next_bucket (i + 1) b bs"

definition hash_cur :: "hash_iterator \<Rightarrow> helem" where
  "hash_cur i = (case it_elem i of At e \<Rightarrow> e | _ \<Rightarrow> 0)"

definition hash_next :: "hash \<Rightarrow> hash_iterator \<Rightarrow> (helem \<times> hash_iterator) res" where
  "hash_next h i =
     ebind (bucket_at h (of_nat (it_bucket i))) (\<lambda>b. ebind (following (it_elem i) b) (\<lambda>r.
     let i = next_bucket (it_bucket i) r (drop (it_bucket i + 1) (buckets h)) in Inr (hash_cur i, i)))"

section \<open>Hash functions\<close>

definition FNV_32_PRIME :: u32 where "FNV_32_PRIME = 16777619"
definition FNV_32_BASIS :: u32 where "FNV_32_BASIS = 2166136261"

fun hash_bytes_loop :: "addr \<Rightarrow> nat \<Rightarrow> u32 \<Rightarrow> mem \<Rightarrow> u32 res" where
  "hash_bytes_loop buf 0 hsh m = Inr hsh"
| "hash_bytes_loop buf (Suc n) hsh m =
     ebind (rd m buf) (\<lambda>b. hash_bytes_loop (buf + 1) n ((hsh * FNV_32_PRIME) XOR ucast b) m)"

definition hash_bytes :: "addr \<Rightarrow> nat \<Rightarrow> mem \<Rightarrow> u32 res" where
  "hash_bytes buf sz m = ebind (kassert (buf \<noteq> 0)) (\<lambda>_. hash_bytes_loop buf sz FNV_32_BASIS m)"

fun hash_string_loop :: "nat \<Rightarrow> addr \<Rightarrow> u32 \<Rightarrow> mem \<Rightarrow> u32 res" where
  "hash_string_loop 0 s hsh m = Inl Out_of_fuel"
| "hash_string_loop (Suc n) s hsh m =
     ebind (rd m s) (\<lambda>b. if b = 0 then Inr hsh
       else hash_string_loop n (s + 1) ((hsh * FNV_32_PRIME) XOR ucast b) m)"

definition hash_string :: "nat \<Rightarrow> addr \<Rightarrow> mem \<Rightarrow> u32 res" where
  "hash_string n s m = ebind (kassert (s \<noteq> 0)) (\<lambda>_. hash_string_loop n s FNV_32_BASIS m)"

text \<open>\<open>hash_int\<close> hashes the four bytes of its argument, which is stored at \<open>p\<close>.\<close>

definition hash_int :: "addr \<Rightarrow> u32 \<Rightarrow> u32 res" where
  "hash_int p i = hash_bytes p 4 (\<lambda>a. if p \<le> a \<and> a < p + 4 then Some (le32 i ! (a - p)) else None)"

text \<open>The hash of a sequence of bytes.\<close>

definition fnv :: "u8 list \<Rightarrow> u32" where
  "fnv bs = fold (\<lambda>b hsh. (hsh * FNV_32_PRIME) XOR ucast b) bs FNV_32_BASIS"

lemma hash_bytes_ok: "block_at m p bs \<Longrightarrow> p \<noteq> 0 \<Longrightarrow> hash_bytes p (length bs) m = Inr (fnv bs)"
proof -
  have "block_at m p bs \<Longrightarrow> hash_bytes_loop p (length bs) x m = Inr (fold (\<lambda>b hsh. (hsh * FNV_32_PRIME) XOR ucast b) bs x)" for x
    by (induction bs arbitrary: p x) (simp_all add: block_at_Cons)
  then show "block_at m p bs \<Longrightarrow> p \<noteq> 0 \<Longrightarrow> ?thesis" by (simp add: hash_bytes_def fnv_def)
qed

lemma hash_string_ok: "str_at m p s \<Longrightarrow> length s < n \<Longrightarrow> hash_string n p m = Inr (fnv s)"
proof -
  have "str_at m p s \<Longrightarrow> length s < n \<Longrightarrow>
      hash_string_loop n p x m = Inr (fold (\<lambda>b hsh. (hsh * FNV_32_PRIME) XOR ucast b) s x)" for p n x
  proof (induction s arbitrary: p n x)
    case Nil
    then show ?case by (cases n) (auto simp: str_at_Nil)
  next
    case (Cons c s)
    then show ?case by (cases n) (auto simp: str_at_Cons)
  qed
  moreover assume "str_at m p s" "length s < n"
  moreover then have "p \<noteq> 0" by (simp add: str_at_def)
  ultimately show ?thesis by (simp add: hash_string_def fnv_def)
qed

lemma hash_int_ok: "p \<noteq> 0 \<Longrightarrow> hash_int p i = Inr (fnv (le32 i))"
  unfolding hash_int_def
  using hash_bytes_ok[of "\<lambda>a. if p \<le> a \<and> a < p + 4 then Some (le32 i ! (a - p)) else None" p "le32 i"]
  by (simp add: block_at_def)

section \<open>Powers of two\<close>

lemma bit_top: "2 ^ j \<le> n \<Longrightarrow> n < 2 ^ Suc j \<Longrightarrow> bit n j" for n :: nat
proof -
  assume "2 ^ j \<le> n" "n < 2 ^ Suc j"
  then have "n div 2 ^ j = 1" by (simp add: div_nat_eqI)
  then show ?thesis by (simp add: bit_iff_odd)
qed

lemma bit_le: "bit n j \<Longrightarrow> 2 ^ j \<le> n" for n :: nat
  by (rule ccontr) (simp add: bit_iff_odd)

lemma unat_exp: "j < 32 \<Longrightarrow> unat (2 ^ j :: u32) = 2 ^ j"
proof -
  assume "j < 32"
  then have "(2 :: nat) ^ j < 2 ^ 32" by (intro power_strict_increasing) simp_all
  moreover have "unat (of_nat (2 ^ j) :: u32) = 2 ^ j mod 2 ^ 32" by (simp only: unat_of_nat len_of_numeral_defs) simp
  ultimately show ?thesis by simp
qed

lemma is_power_of_2_exp: "j < 32 \<Longrightarrow> is_power_of_2 (2 ^ j)"
proof -
  assume j: "j < 32"
  have "(2 ^ j :: u32) AND (2 ^ j - 1) = 0"
    by (rule bit_word_eqI) (simp add: bit_simps flip: mask_eq_exp_minus_1)
  then show ?thesis using j by (simp add: is_power_of_2_def turn_off_least_1bit_def)
qed

lemma turn_off_log:
  assumes "2 ^ j \<le> unat x" "unat x < 2 ^ Suc j" "x \<noteq> 2 ^ j" "j < 32"
  shows "2 ^ j \<le> unat (turn_off_least_1bit x)" "unat (turn_off_least_1bit x) < unat x"
proof -
  have "unat x \<noteq> 2 ^ j" using assms(3) unat_exp[OF assms(4)] by (metis word_unat_eq_iff)
  then have g: "2 ^ j < unat x" using assms(1) by simp
  then have "x \<noteq> 0" by auto
  then have m: "unat (x - 1) = unat x - 1" by (simp add: unat_minus_one)
  have "bit (unat x) j" "bit (unat (x - 1)) j" using assms(1,2) g m by (auto intro!: bit_top)
  then have "bit (x AND (x - 1)) j" by (simp add: bit_and_iff bit_unsigned_iff)
  then have "2 ^ j \<le> unat (x AND (x - 1))"
    by (intro bit_le) (simp add: bit_unsigned_iff)
  then show "2 ^ j \<le> unat (turn_off_least_1bit x)" by (simp add: turn_off_least_1bit_def)
  have "x AND (x - 1) \<le> x - 1" by (rule word_and_le1)
  then have "unat (x AND (x - 1)) \<le> unat x - 1" unfolding word_le_nat_alt m .
  then show "unat (turn_off_least_1bit x) < unat x" using g by (simp add: turn_off_least_1bit_def)
qed


text \<open>The loop ends for every number but 0, with the greatest power of two that is not above it.\<close>

lemma to_power_of_2_ok:
  "2 ^ j \<le> unat n \<Longrightarrow> unat n < 2 ^ Suc j \<Longrightarrow> j < 32 \<Longrightarrow> to_power_of_2 n = Some (2 ^ j)"
proof (induction "unat n" arbitrary: n rule: less_induct)
  case less
  show ?case
  proof (cases "n = 2 ^ j")
    case True
    then show ?thesis using is_power_of_2_exp[OF less.prems(3)] by (simp add: to_power_of_2.simps)
  next
    case False
    note o = turn_off_log[OF less.prems(1,2) False less.prems(3)]
    have "\<not> is_power_of_2 n" using o(1) by (auto simp: is_power_of_2_def)
    then have "to_power_of_2 n = to_power_of_2 (turn_off_least_1bit n)" by (simp add: to_power_of_2.simps)
    then show ?thesis using less.hyps[OF o(2,1)] o(2) less.prems by simp
  qed
qed

lemma log_exists: "0 < n \<Longrightarrow> n < 2 ^ 32 \<Longrightarrow> \<exists>j<32. 2 ^ j \<le> n \<and> n < 2 ^ Suc j" for n :: nat
proof -
  assume n: "0 < n" "n < 2 ^ 32"
  obtain j where j: "2 ^ j \<le> n" "n < 2 ^ (j + 1)" using ex_power_ivl1[of 2 n] n(1) by auto
  have "(2 :: nat) ^ j < 2 ^ 32" using j(1) n(2) by linarith
  then have "j < 32" by (rule power_less_imp_less_exp[rotated]) simp
  then show ?thesis using j by auto
qed

section \<open>Buckets\<close>

definition elems :: "hash \<Rightarrow> helem set" where
  "elems h = set (concat (buckets h))"

text \<open>The array has as many buckets as it should, and every element is in the bucket of its hash.\<close>

definition placed :: "hash \<Rightarrow> bool" where
  "placed h \<longleftrightarrow> bucket_cnt h \<noteq> 0 \<and> length (buckets h) = unat (bucket_cnt h) \<and>
     (\<forall>i<length (buckets h). \<forall>e\<in>set (buckets h ! i). unat (find_bucket h e) = i)"

definition eqv :: "hash \<Rightarrow> helem \<Rightarrow> helem \<Rightarrow> bool" where
  "eqv h a b \<longleftrightarrow> \<not> less_fn h a b \<and> \<not> less_fn h b a"

definition hash_wf :: "hash \<Rightarrow> bool" where
  "hash_wf h \<longleftrightarrow> placed h \<and> is_power_of_2 (bucket_cnt h) \<and> distinct (concat (buckets h)) \<and> 0 \<notin> elems h \<and>
     elem_cnt h = of_nat (length (concat (buckets h))) \<and> length (concat (buckets h)) < 2 ^ 32 \<and>
     (\<forall>a\<in>elems h. \<forall>b\<in>elems h. eqv h a b \<longrightarrow> a = b)"

lemma find_bucket_less: "placed h \<Longrightarrow> unat (find_bucket h e) < length (buckets h)"
proof -
  assume p: "placed h"
  have "find_bucket h e \<le> bucket_cnt h - 1" unfolding find_bucket_def by (rule word_and_le1)
  moreover have "unat (bucket_cnt h - 1) < unat (bucket_cnt h)"
    using p by (simp add: placed_def unat_minus_one unat_gt_0)
  ultimately show ?thesis using p by (simp add: placed_def word_le_nat_alt)
qed

lemma bucket_at_ok: "placed h \<Longrightarrow> bucket_at h (find_bucket h e) = Inr (buckets h ! unat (find_bucket h e))"
  by (simp add: bucket_at_def find_bucket_less)

lemma mset_concat_push: "i < length bs \<Longrightarrow> mset (concat (bs[i := e # bs ! i])) = add_mset e (mset (concat bs))"
  by (induction bs arbitrary: i) (auto split: nat.split)

lemma mset_concat_remove: "distinct (concat bs) \<Longrightarrow> mset (concat (map (remove1 e) bs)) = mset (concat bs) - {#e#}"
proof (induction bs)
  case (Cons b bs)
  show ?case
  proof (cases "e \<in> set b")
    case True
    then have "map (remove1 e) bs = bs" using Cons.prems by (intro map_idI remove1_idem) auto
    then show ?thesis using True by simp
  next
    case False
    then show ?thesis
      using Cons by (cases "e \<in> set (concat bs)") (auto simp: remove1_idem diff_single_trivial)
  qed
qed simp

text \<open>What changes when an element is pushed on its bucket.\<close>

definition added :: "helem multiset \<Rightarrow> hash \<Rightarrow> hash \<Rightarrow> bool" where
  "added M h h' \<longleftrightarrow> placed h' \<and> mset (concat (buckets h')) = mset (concat (buckets h)) + M \<and>
     bucket_cnt h' = bucket_cnt h \<and> elem_cnt h' = elem_cnt h \<and> hash_fn h' = hash_fn h \<and> less_fn h' = less_fn h"

lemma push_bucket_ok:
  assumes "placed h"
  shows "\<exists>h'. push_bucket (find_bucket h e) e h = Inr h' \<and> added {#e#} h h'"
proof -
  let ?i = "unat (find_bucket h e)"
  let ?h = "h\<lparr>buckets := (buckets h)[?i := e # buckets h ! ?i]\<rparr>"
  have i: "?i < length (buckets h)" using assms by (rule find_bucket_less)
  have "find_bucket ?h = find_bucket h" by (simp add: find_bucket_def fun_eq_iff)
  then have "placed ?h" using assms i by (auto simp: placed_def nth_list_update split: if_splits)
  then have "added {#e#} h ?h" using mset_concat_push[OF i, of e] by (simp add: added_def)
  then show ?thesis using bucket_at_ok[OF assms] by (simp add: push_bucket_def)
qed

lemma added_trans: "added M h h1 \<Longrightarrow> added N h1 h2 \<Longrightarrow> added (M + N) h h2"
  by (simp add: added_def)

lemma find_bucket_added: "added M h h' \<Longrightarrow> find_bucket h' = find_bucket h"
  by (simp add: added_def find_bucket_def fun_eq_iff)

lemma rehash_bucket_ok: "placed h \<Longrightarrow> \<exists>h'. rehash_bucket es h = Inr h' \<and> added (mset es) h h'"
proof (induction es arbitrary: h)
  case (Cons e es)
  obtain h1 where h1: "push_bucket (find_bucket h e) e h = Inr h1" "added {#e#} h h1" using push_bucket_ok[OF Cons.prems] by blast
  then obtain h2 where "rehash_bucket es h1 = Inr h2" "added (mset es) h1 h2" using Cons.IH[of h1] by (auto simp: added_def)
  then show ?case using h1 added_trans[of "{#e#}" h h1 "mset es" h2] by simp
qed (simp add: added_def)

lemma rehash_buckets_ok: "placed h \<Longrightarrow> \<exists>h'. rehash_buckets bs h = Inr h' \<and> added (mset (concat bs)) h h'"
proof (induction bs arbitrary: h)
  case (Cons b bs)
  obtain h1 where h1: "rehash_bucket b h = Inr h1" "added (mset b) h h1" using rehash_bucket_ok[OF Cons.prems] by blast
  then obtain h2 where "rehash_buckets bs h1 = Inr h2" "added (mset (concat bs)) h1 h2" using Cons.IH[of h1] by (auto simp: added_def)
  then show ?case using h1 added_trans[of "mset b" h h1 "mset (concat bs)" h2] by simp
qed (simp add: added_def)

lemma hash_wf_mset:
  assumes "hash_wf h" "placed h'" "is_power_of_2 (bucket_cnt h')" "mset (concat (buckets h')) = mset (concat (buckets h))"
    "elem_cnt h' = elem_cnt h" "less_fn h' = less_fn h"
  shows "hash_wf h'" "elems h' = elems h"
proof -
  show e: "elems h' = elems h" using assms(4) unfolding elems_def by (metis set_mset_mset)
  have "length (concat (buckets h')) = length (concat (buckets h))" using assms(4) by (metis size_mset)
  moreover have "distinct (concat (buckets h'))" using assms(1,4) mset_eq_imp_distinct_iff unfolding hash_wf_def by blast
  ultimately show "hash_wf h'" using assms e by (simp add: hash_wf_def eqv_def)
qed

text \<open>The number of buckets that \<open>rehash\<close> aims at.\<close>

definition ideal_cnt :: "nat \<Rightarrow> nat \<Rightarrow> bool" where
  "ideal_cnt n c \<longleftrightarrow> (\<exists>j. c = 2 ^ j \<and> c \<le> max 4 (n div 2) \<and> max 4 (n div 2) < 2 * c)"

lemma rehash_ok:
  assumes "hash_wf h"
  shows "\<exists>h'. rehash ok h = Inr h' \<and> hash_wf h' \<and> elems h' = elems h \<and> hash_fn h' = hash_fn h \<and> less_fn h' = less_fn h \<and>
     (ok \<longrightarrow> ideal_cnt (unat (elem_cnt h)) (unat (bucket_cnt h')))"
proof -
  let ?n = "if elem_cnt h div 2 < 4 then 4 else elem_cnt h div 2"
  have un: "unat ?n = max 4 (unat (elem_cnt h) div 2)"
    by (auto simp: word_less_nat_alt unat_div_distrib)
  have "0 < unat ?n" unfolding un by linarith
  moreover have "unat ?n < 2 ^ 32" using unat_lt_size[of ?n] by (simp only: len_of_numeral_defs) simp
  ultimately obtain j where j: "j < 32" "2 ^ j \<le> unat ?n" "unat ?n < 2 ^ Suc j"
    using log_exists by blast
  have tp: "to_power_of_2 ?n = Some (2 ^ j)" using to_power_of_2_ok[OF j(2,3,1)] .
  have ideal: "ideal_cnt (unat (elem_cnt h)) (unat (2 ^ j :: u32))"
    using j un by (auto simp: ideal_cnt_def unat_exp)
  have pl: "placed h" and pw: "is_power_of_2 (2 ^ j)" using assms is_power_of_2_exp[OF j(1)] by (simp_all add: hash_wf_def)
  show ?thesis
  proof (cases "2 ^ j = bucket_cnt h \<or> \<not> ok")
    case True
    then have "rehash ok h = Inr h" using tp by (auto simp: rehash_def Let_def)
    then show ?thesis using assms True ideal by auto
  next
    case False
    let ?h = "h\<lparr>buckets := replicate (unat (2 ^ j :: u32)) [], bucket_cnt := 2 ^ j\<rparr>"
    have "unat (2 ^ j :: u32) \<noteq> 0" using j(1) by (simp add: unat_exp)
    then have "placed ?h" using j(1) by (auto simp: placed_def)
    then obtain h' where h': "rehash_buckets (buckets h) ?h = Inr h'" "added (mset (concat (buckets h))) ?h h'"
      using rehash_buckets_ok by blast
    have "take (unat (bucket_cnt h)) (buckets h) = buckets h" using pl by (simp add: placed_def)
    then have "rehash ok h = Inr h'" using tp False h'(1) by (auto simp: rehash_def Let_def)
    moreover have "hash_wf h'" "elems h' = elems h"
      using hash_wf_mset[OF assms, of h'] h'(2) pw by (simp_all add: added_def)
    ultimately show ?thesis using h'(2) ideal by (simp add: added_def)
  qed
qed

section \<open>A table as a set\<close>

lemma hash_wfD:
  assumes "hash_wf h"
  shows "placed h" "is_power_of_2 (bucket_cnt h)" "distinct (concat (buckets h))" "0 \<notin> elems h"
    "elem_cnt h = of_nat (length (concat (buckets h)))" "length (concat (buckets h)) < 2 ^ 32"
    "a \<in> elems h \<Longrightarrow> b \<in> elems h \<Longrightarrow> eqv h a b \<Longrightarrow> a = b"
  using assms unfolding hash_wf_def by blast+

lemma card_elems: "hash_wf h \<Longrightarrow> card (elems h) = length (concat (buckets h))"
  unfolding elems_def by (rule distinct_card) (rule hash_wfD(3))

lemma elems_bucket: "placed h \<Longrightarrow> e \<in> elems h \<longleftrightarrow> e \<in> set (buckets h ! unat (find_bucket h e))"
proof -
  assume p: "placed h"
  have "e \<in> set (buckets h ! unat (find_bucket h e))" if "e \<in> elems h"
  proof -
    obtain b where "b \<in> set (buckets h)" "e \<in> set b" using \<open>e \<in> elems h\<close> by (auto simp: elems_def)
    then obtain i where "i < length (buckets h)" "e \<in> set (buckets h ! i)" by (metis in_set_conv_nth)
    then show ?thesis using p unfolding placed_def by metis
  qed
  then show ?thesis using find_bucket_less[OF p, of e] by (auto simp: elems_def)
qed

lemma insert_elem_ok:
  assumes wf: "hash_wf h" and e: "e \<noteq> 0" "card (elems h) + 1 < 2 ^ 32" and new: "\<forall>x\<in>elems h. \<not> eqv h x e \<and> \<not> eqv h e x" "e \<notin> elems h"
  shows "\<exists>h'. insert_elem (find_bucket h e) e h = Inr h' \<and> hash_wf h' \<and> elems h' = insert e (elems h) \<and>
     hash_fn h' = hash_fn h \<and> less_fn h' = less_fn h"
proof -
  note d = hash_wfD[OF wf]
  let ?h = "h\<lparr>elem_cnt := elem_cnt h + 1\<rparr>"
  have "placed ?h" using d(1) by (simp add: placed_def find_bucket_def)
  moreover have fb: "find_bucket ?h e = find_bucket h e" by (simp add: find_bucket_def)
  ultimately obtain h' where h': "push_bucket (find_bucket h e) e ?h = Inr h'" "added {#e#} ?h h'"
    using push_bucket_ok[of ?h e] by auto
  have m: "mset (concat (buckets h')) = add_mset e (mset (concat (buckets h)))" using h'(2) by (simp add: added_def)
  have es: "elems h' = insert e (elems h)"
    using arg_cong[OF m, of set_mset] by (simp add: elems_def)
  have len: "length (concat (buckets h')) = length (concat (buckets h)) + 1"
    using arg_cong[OF m, of size] by simp
  have "mset (concat (buckets h')) = mset (e # concat (buckets h))" using m by simp
  then have dist: "distinct (concat (buckets h'))"
    using mset_eq_imp_distinct_iff d(3) new(2) unfolding elems_def by (metis distinct.simps(2))
  have ev: "eqv h' = eqv h" using h'(2) by (simp add: added_def eqv_def fun_eq_iff)
  have "hash_wf h'"
    unfolding hash_wf_def es ev
    using h'(2) d dist len e new card_elems[OF wf] by (auto simp: added_def)
  then show ?thesis using h' es by (auto simp: insert_elem_def added_def)
qed

lemma remove_elem_ok:
  assumes wf: "hash_wf h" and e: "e \<in> elems h"
  shows "hash_wf (remove_elem e h)" "elems (remove_elem e h) = elems h - {e}"
    "hash_fn (remove_elem e h) = hash_fn h" "less_fn (remove_elem e h) = less_fn h"
    "find_bucket (remove_elem e h) = find_bucket h"
proof -
  note d = hash_wfD[OF wf]
  let ?h = "remove_elem e h"
  have m: "mset (concat (buckets ?h)) = mset (concat (buckets h)) - {#e#}"
    using mset_concat_remove[OF d(3)] by (simp add: remove_elem_def)
  have "mset (concat (buckets ?h)) = mset (remove1 e (concat (buckets h)))" using m by simp
  then have dist: "distinct (concat (buckets ?h))" and es: "elems ?h = elems h - {e}"
    and len: "length (concat (buckets ?h)) = length (concat (buckets h)) - 1"
    using mset_eq_imp_distinct_iff[of "concat (buckets ?h)" "remove1 e (concat (buckets h))"] d(3) e
      mset_eq_setD[of "concat (buckets ?h)" "remove1 e (concat (buckets h))"]
      mset_eq_length[of "concat (buckets ?h)" "remove1 e (concat (buckets h))"]
    by (simp_all add: elems_def length_remove1 distinct_remove1 set_remove1_eq)
  show fb: "find_bucket ?h = find_bucket h" by (simp add: remove_elem_def find_bucket_def fun_eq_iff)
  have "placed ?h"
    using d(1) set_remove1_subset unfolding placed_def fb by (fastforce simp: remove_elem_def)
  moreover have "0 < length (concat (buckets h))" using e unfolding elems_def by (metis length_pos_if_in_set)
  then have "elem_cnt ?h = of_nat (length (concat (buckets ?h)))"
  proof -
    obtain n where "length (concat (buckets h)) = Suc n" using \<open>0 < length (concat (buckets h))\<close> gr0_implies_Suc by blast
    then show ?thesis unfolding len using d(5) by (simp add: remove_elem_def)
  qed
  moreover have "bucket_cnt ?h = bucket_cnt h" by (simp add: remove_elem_def)
  moreover have "eqv ?h = eqv h" by (simp add: remove_elem_def eqv_def fun_eq_iff)
  ultimately show "hash_wf ?h"
    unfolding hash_wf_def es using d dist len by auto
  show "elems ?h = elems h - {e}" by (rule es)
  show "hash_fn ?h = hash_fn h" "less_fn ?h = less_fn h" by (simp_all add: remove_elem_def)
qed

text \<open>What \<open>hash.h\<close> asks of the functions of a table: the comparison is a strict weak order, and elements
  that it does not tell apart have the same hash.\<close>

locale hashing = strict_weak_order lt for lt :: "helem \<Rightarrow> helem \<Rightarrow> bool" +
  fixes hsh :: "helem \<Rightarrow> u32"
  assumes hash_eqv: "\<not> lt a b \<Longrightarrow> \<not> lt b a \<Longrightarrow> hsh a = hsh b"

interpretation int_keys: hashing "\<lambda>a b. key a < key b" "\<lambda>e. fnv (le32 (key e))" for key :: "helem \<Rightarrow> u32"
  by unfold_locales (auto dest: antisym_conv3)

text \<open>The result of a search: an equal element, or a null pointer if there is none.\<close>

definition is_match :: "hash \<Rightarrow> helem \<Rightarrow> helem \<Rightarrow> bool" where
  "is_match h e r \<longleftrightarrow> (if r = 0 then \<forall>x\<in>elems h. \<not> eqv h x e else r \<in> elems h \<and> eqv h r e)"

lemma find_elem_cases: "0 \<notin> set b \<Longrightarrow>
  (if find_elem h b e = 0 then \<forall>x\<in>set b. \<not> eqv h x e else find_elem h b e \<in> set b \<and> eqv h (find_elem h b e) e)"
  by (induction b) (auto simp: eqv_def)

lemma hash_find_ok:
  assumes "hashing (less_fn h) (hash_fn h)" and wf: "hash_wf h"
  shows "is_match h e (find_elem h (buckets h ! unat (find_bucket h e)) e)"
proof -
  let ?b = "buckets h ! unat (find_bucket h e)"
  note d = hash_wfD[OF wf]
  have sub: "set ?b \<subseteq> elems h" using nth_mem[OF find_bucket_less[OF d(1), of e]] by (auto simp: elems_def)
  have same: "x \<in> set ?b" if "x \<in> elems h" "eqv h x e" for x
  proof -
    have "hash_fn h x = hash_fn h e" using hashing.hash_eqv[OF assms(1), of x e] that(2) by (simp add: eqv_def)
    then show ?thesis using elems_bucket[OF d(1), of x] that(1) by (simp add: find_bucket_def)
  qed
  have "0 \<notin> set ?b" using sub d(4) by blast
  note c = find_elem_cases[OF this, of h e]
  show ?thesis
  proof (cases "find_elem h ?b e = 0")
    case True
    then have "\<forall>x\<in>set ?b. \<not> eqv h x e" using c by (simp only: if_True refl)
    then show ?thesis using True same unfolding is_match_def by auto
  next
    case False
    then show ?thesis using c sub unfolding is_match_def by (simp only: if_False) blast
  qed
qed

section \<open>Iteration\<close>

text \<open>The elements that an iteration from a position still has to visit.\<close>

definition remaining :: "hash \<Rightarrow> hash_iterator \<Rightarrow> helem list" where
  "remaining h i = (case it_elem i of At_null \<Rightarrow> []
     | At_head \<Rightarrow> concat (drop (it_bucket i) (buckets h))
     | At e \<Rightarrow> tl (dropWhile (\<lambda>x. x \<noteq> e) (buckets h ! it_bucket i)) @ concat (drop (it_bucket i + 1) (buckets h)))"

definition iter_ok :: "hash \<Rightarrow> hash_iterator \<Rightarrow> bool" where
  "iter_ok h i \<longleftrightarrow> it_bucket i < length (buckets h) \<and>
     (case it_elem i of At_head \<Rightarrow> True | At e \<Rightarrow> e \<in> set (buckets h ! it_bucket i) | At_null \<Rightarrow> False)"

lemma dropWhile_unique: "distinct (xs @ e # ys) \<Longrightarrow> dropWhile (\<lambda>x. x \<noteq> e) (xs @ e # ys) = e # ys"
  by (induction xs) auto

lemma next_bucket_ok:
  assumes "distinct (concat (buckets h))" "i < length (buckets h)" "buckets h ! i = pre @ r"
  shows "case r @ concat (drop (Suc i) (buckets h)) of
      [] \<Rightarrow> it_elem (next_bucket i r (drop (Suc i) (buckets h))) = At_null
    | e # es \<Rightarrow> iter_ok h (next_bucket i r (drop (Suc i) (buckets h))) \<and>
        it_elem (next_bucket i r (drop (Suc i) (buckets h))) = At e \<and>
        remaining h (next_bucket i r (drop (Suc i) (buckets h))) = es"
  using assms(2,3)
proof (induction "length (buckets h) - i" arbitrary: i pre r)
  case (Suc n)
  show ?case
  proof (cases r)
    case (Cons e b)
    have "distinct (buckets h ! i)" using assms(1) Suc.prems(1) by (auto simp: distinct_concat_iff)
    then show ?thesis using Cons Suc.prems dropWhile_unique[of pre e b] by (simp add: iter_ok_def remaining_def)
  next
    case Nil
    show ?thesis
    proof (cases "Suc i < length (buckets h)")
      case True
      then have "drop (Suc i) (buckets h) = buckets h ! Suc i # drop (Suc (Suc i)) (buckets h)" by (simp add: Cons_nth_drop_Suc)
      then have "r @ concat (drop (Suc i) (buckets h)) = buckets h ! Suc i @ concat (drop (Suc (Suc i)) (buckets h))"
          "next_bucket i r (drop (Suc i) (buckets h)) = next_bucket (Suc i) (buckets h ! Suc i) (drop (Suc (Suc i)) (buckets h))"
        using Nil by simp_all
      moreover have "n = length (buckets h) - Suc i" using Suc.hyps(2) by simp
      ultimately show ?thesis using Suc.hyps(1)[of "Suc i" "[]" "buckets h ! Suc i"] True by (simp only: append_Nil)
    next
      case False
      then show ?thesis using Nil by simp
    qed
  qed
qed simp

lemma hash_next_ok:
  assumes wf: "hash_wf h" and i: "iter_ok h i"
  shows "\<exists>i'. hash_next h i = Inr (hash_cur i', i') \<and>
    (case remaining h i of [] \<Rightarrow> it_elem i' = At_null
     | e # es \<Rightarrow> iter_ok h i' \<and> it_elem i' = At e \<and> remaining h i' = es)"
proof -
  let ?j = "it_bucket i"
  have j: "?j < length (buckets h)" using i by (simp add: iter_ok_def)
  have "length (buckets h) < 2 ^ 32" using hash_wfD(1)[OF wf] unat_lt_size[of "bucket_cnt h"] by (simp add: placed_def)
  then have at: "bucket_at h (of_nat ?j) = Inr (buckets h ! ?j)"
    using j by (simp add: bucket_at_def unat_of_nat)
  obtain pre r where r: "following (it_elem i) (buckets h ! ?j) = Inr r" "buckets h ! ?j = pre @ r"
      "remaining h i = r @ concat (drop (Suc ?j) (buckets h))"
  proof (cases "it_elem i")
    case At_head
    then show ?thesis
      using that[of "buckets h ! ?j" "[]"] j Cons_nth_drop_Suc[OF j, symmetric] by (simp add: remaining_def)
  next
    case (At e)
    then have e: "e \<in> set (buckets h ! ?j)" using i by (simp add: iter_ok_def)
    then obtain xs ys where s: "buckets h ! ?j = xs @ e # ys" by (auto simp: in_set_conv_decomp)
    have "distinct (buckets h ! ?j)" using hash_wfD(3)[OF wf] j by (auto simp: distinct_concat_iff)
    then have "dropWhile (\<lambda>x. x \<noteq> e) (buckets h ! ?j) = e # ys" using dropWhile_unique[of xs e ys] s by simp
    then show ?thesis using that[of ys "xs @ [e]"] At e s by (simp add: remaining_def)
  next
    case At_null
    then show ?thesis using i by (simp add: iter_ok_def)
  qed
  show ?thesis
    using next_bucket_ok[OF hash_wfD(3)[OF wf] j r(2)] at r(1,3) by (simp add: hash_next_def Let_def)
qed

text \<open>The idiom of \<open>hash_first\<close>: the elements that \<open>hash_next\<close> returns until it returns a null pointer.\<close>

fun iterate :: "nat \<Rightarrow> hash \<Rightarrow> hash_iterator \<Rightarrow> helem list res" where
  "iterate 0 h i = Inl Out_of_fuel"
| "iterate (Suc n) h i = ebind (hash_next h i) (\<lambda>(e, i).
     if e = 0 then Inr [] else ebind (iterate n h i) (\<lambda>es. Inr (e # es)))"

lemma iterate_ok:
  assumes wf: "hash_wf h"
  shows "iter_ok h i \<Longrightarrow> set (remaining h i) \<subseteq> elems h \<Longrightarrow> length (remaining h i) < n \<Longrightarrow>
    iterate n h i = Inr (remaining h i)"
proof (induction n arbitrary: i)
  case (Suc n)
  obtain i' where i': "hash_next h i = Inr (hash_cur i', i')"
      "case remaining h i of [] \<Rightarrow> it_elem i' = At_null | e # es \<Rightarrow> iter_ok h i' \<and> it_elem i' = At e \<and> remaining h i' = es"
    using hash_next_ok[OF wf Suc.prems(1)] by blast
  show ?case
  proof (cases "remaining h i")
    case Nil
    then show ?thesis using i' by (simp add: hash_cur_def)
  next
    case (Cons e es)
    then have "e \<in> elems h" using Suc.prems(2) by simp
    then have "e \<noteq> 0" using hash_wfD(4)[OF wf] by metis
    then show ?thesis using i' Cons Suc.IH[of i'] Suc.prems by (simp add: hash_cur_def)
  qed
qed simp

section \<open>Properties\<close>

text \<open>C3.  A hash table is a set.  With a comparison function that is a strict weak order and a hash function that
  agrees on equal elements, on a well-formed table \<open>hash_find\<close> returns the element equal to \<open>e\<close>, or a null
  pointer if there is none; \<open>hash_insert\<close>, \<open>hash_replace\<close> and \<open>hash_delete\<close> return the same and
  insert, replace and delete, whatever \<open>malloc\<close> does in \<open>rehash\<close>; the table stays well-formed, so that
  the bucket of every element is in range and the count is exact.\<close>

theorem hash_table_is_set:
  assumes "hashing (less_fn h) (hash_fn h)" "hash_wf h" "e \<noteq> 0" "card (elems h) + 1 < 2 ^ 32"
  shows "\<exists>r. hash_find e h = Inr r \<and> is_match h e r \<and>
    (\<exists>h'. hash_insert ok e h = Inr (r, h') \<and> hash_wf h' \<and> elems h' = (if r = 0 then insert e (elems h) else elems h)) \<and>
    (\<exists>h'. hash_replace ok e h = Inr (r, h') \<and> hash_wf h' \<and> elems h' = insert e (elems h - {r})) \<and>
    (\<exists>h'. hash_delete ok e h = Inr (r, h') \<and> hash_wf h' \<and> elems h' = elems h - {r})"
proof -
  let ?r = "find_elem h (buckets h ! unat (find_bucket h e)) e"
  note d = hash_wfD[OF assms(2)] and at = bucket_at_ok[OF hash_wfD(1)[OF assms(2)]]
  have m: "is_match h e ?r" using hash_find_ok[OF assms(1,2)] .
  have ins: "\<exists>h'. insert_elem (find_bucket g e) e g = Inr h' \<and> hash_wf h' \<and> elems h' = insert e (elems g)"
    if g: "hash_wf g" "less_fn g = less_fn h" "elems g \<subseteq> elems h" "\<forall>x\<in>elems g. \<not> eqv h x e" for g
  proof -
    have "e \<notin> elems g" using g(4) strict_weak_order.asym[OF hashing.axioms(1)[OF assms(1)], of e e] by (auto simp: eqv_def)
    moreover have "card (elems g) + 1 < 2 ^ 32" using card_mono[OF _ g(3)] assms(4) by (simp add: elems_def)
    moreover have "eqv g = eqv h" using g(2) by (simp add: eqv_def fun_eq_iff)
    ultimately show ?thesis using insert_elem_ok[OF g(1) assms(3)] g(4) by (auto simp: eqv_def)
  qed
  have "\<exists>h'. hash_insert ok e h = Inr (?r, h') \<and> hash_wf h' \<and> elems h' = (if ?r = 0 then insert e (elems h) else elems h)"
  proof (cases "?r = 0")
    case True
    then obtain h1 where "insert_elem (find_bucket h e) e h = Inr h1" "hash_wf h1" "elems h1 = insert e (elems h)"
      using ins[OF assms(2) refl] m by (auto simp: is_match_def)
    then show ?thesis using True at rehash_ok[of h1 ok] by (auto simp: hash_insert_def Let_def)
  next
    case False
    then show ?thesis using at rehash_ok[OF assms(2), of ok] by (auto simp: hash_insert_def Let_def)
  qed
  moreover have "\<exists>h'. hash_replace ok e h = Inr (?r, h') \<and> hash_wf h' \<and> elems h' = insert e (elems h - {?r})"
  proof -
    let ?g = "if ?r \<noteq> 0 then remove_elem ?r h else h"
    have g: "hash_wf ?g" "less_fn ?g = less_fn h" "elems ?g = elems h - {?r}" "find_bucket ?g = find_bucket h"
      using assms(2) m remove_elem_ok[of h ?r] d(4) by (auto simp: is_match_def)
    have "\<forall>x\<in>elems ?g. \<not> eqv h x e"
    proof
      fix x assume x: "x \<in> elems ?g"
      show "\<not> eqv h x e"
      proof
        assume xe: "eqv h x e"
        then have "?r \<noteq> 0" "eqv h ?r e" "?r \<in> elems h" using m x g(3) by (auto simp: is_match_def split: if_splits)
        then have "eqv h x ?r"
          using xe strict_weak_order.cotrans[OF hashing.axioms(1)[OF assms(1)]] unfolding eqv_def by blast
        then show False using d(7)[of x ?r] x g(3) \<open>?r \<in> elems h\<close> by auto
      qed
    qed
    then obtain h1 where "insert_elem (find_bucket h e) e ?g = Inr h1" "hash_wf h1" "elems h1 = insert e (elems h - {?r})"
      using ins[OF g(1,2)] g(3,4) by auto
    then show ?thesis using at rehash_ok[of h1 ok] by (auto simp: hash_replace_def Let_def)
  qed
  moreover have "\<exists>h'. hash_delete ok e h = Inr (?r, h') \<and> hash_wf h' \<and> elems h' = elems h - {?r}"
  proof (cases "?r = 0")
    case False
    then have "?r \<in> elems h" using m by (simp add: is_match_def)
    then show ?thesis
      using at remove_elem_ok[OF assms(2), of ?r] rehash_ok[of "remove_elem ?r h" ok] False
      by (auto simp: hash_delete_def Let_def)
  qed (use at assms(2) d(4) in \<open>auto simp: hash_delete_def\<close>)
  ultimately show ?thesis using m at by (auto simp: hash_find_def)
qed

definition wtable :: hash where
  "wtable = \<lparr>elem_cnt = 1, bucket_cnt = 4, buckets = [[], [5], [], []], hash_fn = of_nat, less_fn = (<)\<rparr>"

lemma wtable_wf: "hash_wf wtable" "hashing (less_fn wtable) (hash_fn wtable)" "elems wtable = {5}"
proof -
  have fb: "unat (find_bucket wtable 5) = 1" and p2: "is_power_of_2 4" by code_simp+
  have "unat (find_bucket wtable e) = i" if i: "i < 4" "e \<in> set (buckets wtable ! i)" for i e
  proof -
    have "i = 0 \<or> i = 1 \<or> i = 2 \<or> i = 3" using i(1) by linarith
    then show ?thesis using i(2) fb by (auto simp: wtable_def)
  qed
  then have "placed wtable" by (simp add: placed_def) (simp add: wtable_def)
  then show "hash_wf wtable" using p2 unfolding hash_wf_def by (simp add: elems_def wtable_def)
  show "hashing (less_fn wtable) (hash_fn wtable)" by unfold_locales (auto simp: wtable_def)
  show "elems wtable = {5}" by (simp add: elems_def wtable_def)
qed

theorem hash_table_is_set_witness:
  "\<exists>h'. hash_insert True 9 wtable = Inr (0, h') \<and> hash_wf h' \<and> elems h' = {5, 9}"
proof -
  obtain r where r: "is_match wtable 9 r" "\<exists>h'. hash_insert True 9 wtable = Inr (r, h') \<and> hash_wf h' \<and>
      elems h' = (if r = 0 then insert 9 (elems wtable) else elems wtable)"
    using hash_table_is_set[OF wtable_wf(2,1), of 9 True] wtable_wf(3) by auto
  have "r = 0" using r(1) unfolding is_match_def wtable_wf(3) by (auto simp: eqv_def wtable_def split: if_splits)
  then show ?thesis using r(2) wtable_wf(3) by (auto simp: insert_commute)
qed

text \<open>C35.  \<open>rehash\<close> returns: its search for a power of two ends.  It keeps the elements and the invariant, and
  when \<open>malloc\<close> succeeds the number of buckets is the greatest power of two that is at most half the number of
  elements and at least 4.  \<open>hash_init\<close> makes an empty well-formed table, or reports that it could not.\<close>

theorem rehash_correct:
  assumes "hash_wf h"
  shows "(\<exists>h'. rehash ok h = Inr h' \<and> hash_wf h' \<and> elems h' = elems h \<and>
      (ok \<longrightarrow> (\<exists>j. unat (bucket_cnt h') = 2 ^ j \<and> 2 ^ j \<le> max 4 (card (elems h) div 2) \<and>
         max 4 (card (elems h) div 2) < 2 ^ Suc j))) \<and>
    (case hash_init block hsh lss of (success, h0) \<Rightarrow>
       success = (block \<noteq> None) \<and> (success \<longrightarrow> hash_wf h0 \<and> elems h0 = {}))"
proof -
  have "unat (elem_cnt h) = card (elems h)"
    using hash_wfD(5,6)[OF assms] card_elems[OF assms] by (simp add: unat_of_nat)
  then have "\<exists>h'. rehash ok h = Inr h' \<and> hash_wf h' \<and> elems h' = elems h \<and>
      (ok \<longrightarrow> (\<exists>j. unat (bucket_cnt h') = 2 ^ j \<and> 2 ^ j \<le> max 4 (card (elems h) div 2) \<and>
         max 4 (card (elems h) div 2) < 2 ^ Suc j))"
    using rehash_ok[OF assms, of ok] by (auto simp: ideal_cnt_def)
  moreover have "case hash_init block hsh lss of (success, h0) \<Rightarrow>
       success = (block \<noteq> None) \<and> (success \<longrightarrow> hash_wf h0 \<and> elems h0 = {})"
  proof (cases block)
    case (Some g)
    have "length (take 4 (g @ replicate 4 [])) = 4" by simp
    then have "map (\<lambda>_. []) (take 4 (g @ replicate 4 [])) = replicate 4 ([] :: helem list)"
      by (simp only: map_replicate_const)
    then have "hash_init block hsh lss =
        (True, \<lparr>elem_cnt = 0, bucket_cnt = 4, buckets = replicate 4 [], hash_fn = hsh, less_fn = lss\<rparr>)"
      using Some by (simp add: hash_init_def hash_clear_def del: map_append take_append)
    moreover have "is_power_of_2 4" using is_power_of_2_exp[of 2] by simp
    ultimately show ?thesis using Some by (simp add: hash_wf_def placed_def elems_def)
  qed (simp add: hash_init_def)
  ultimately show ?thesis by blast
qed

theorem rehash_correct_witness: "\<exists>h'. rehash True wtable = Inr h' \<and> hash_wf h' \<and> elems h' = {5}"
  using rehash_correct[OF wtable_wf(1), of True None "\<lambda>_. 0" "\<lambda>_ _. False"] wtable_wf(3) by auto

text \<open>C36.  The iteration idiom, \<open>hash_first\<close> followed by \<open>hash_next\<close> until it returns a null pointer, ends and
  visits every element exactly once, in the order in which \<open>hash_apply\<close> applies its action.\<close>

theorem hash_iteration_correct:
  assumes "hash_wf h"
  shows "\<exists>es. iterate (card (elems h) + 1) h (hash_first h) = Inr es \<and> distinct es \<and> set es = elems h \<and>
    (\<forall>action (s :: 's). hash_apply action h s = fold action es s)"
proof (intro exI[of _ "concat (buckets h)"] conjI allI)
  note d = hash_wfD[OF assms]
  have "buckets h \<noteq> []" using d(1) by (auto simp: placed_def unat_eq_0)
  then have "iter_ok h (hash_first h)" "remaining h (hash_first h) = concat (buckets h)"
    by (simp_all add: iter_ok_def hash_first_def remaining_def)
  then show "iterate (card (elems h) + 1) h (hash_first h) = Inr (concat (buckets h))"
    using iterate_ok[OF assms, of "hash_first h" "card (elems h) + 1"] card_elems[OF assms]
    by (simp add: elems_def del: iterate.simps)
  show "distinct (concat (buckets h))" by (rule d(3))
  show "set (concat (buckets h)) = elems h" by (simp add: elems_def)
  show "hash_apply action h s = fold action (concat (buckets h)) s" for action and s :: 's
  proof -
    have "fold (fold action) bs s = fold action (concat bs) s" for bs and s :: 's
      by (induction bs arbitrary: s) simp_all
    then show ?thesis by (simp add: hash_apply_def)
  qed
qed

theorem hash_iteration_correct_witness: "\<exists>es. iterate (Suc (Suc 0)) wtable (hash_first wtable) = Inr es \<and> set es = {5}"
  using hash_iteration_correct[OF wtable_wf(1), where 's = unit] wtable_wf(3) by (auto simp del: iterate.simps)

end
