(* ===== verification/Pagedir.thy ===== *)
theory Pagedir
  imports Palloc
begin

text \<open>
  Page directories: \<open>src/userprog/pagedir.c\<close>.

  The state is the page allocator with the words of memory, the initial page directory, the number of
  pages of RAM, the register CR3, and the number of times CR3 was loaded, each of which empties the
  translation lookaside buffer.  A page directory and a page table are arrays of 1024 words in a page.

  \<open>pd_wf\<close> is the invariant of a page directory: every entry for user addresses is zero or points to a page
  table of its own.  \<open>mapping\<close> is the page table entry that translates an address.  The lemmas show what
  each operation does to the mapping of every address: a page table that is written shares no word with the
  directory or another table.
\<close>

unbundle bit_operations_syntax

record paging =
  pmem :: palloc
  init_pd :: u32
  init_ram_pages :: u32
  cr3 :: u32
  cr3_loads :: nat

definition get_word :: "u32 \<Rightarrow> paging \<Rightarrow> u32" where
  "get_word a s = ram (pmem s) a"

definition set_word :: "u32 \<Rightarrow> u32 \<Rightarrow> paging \<Rightarrow> paging" where
  "set_word a v s = s\<lparr>pmem := (pmem s)\<lparr>ram := (ram (pmem s))(a := v)\<rparr>\<rparr>"

section \<open>The operations of pagedir.c\<close>

definition pagedir_create :: "paging \<Rightarrow> (u32 \<times> paging) res" where
  "pagedir_create s =
     ebind (palloc_get_page 0 (pmem s)) (\<lambda>(pd, p).
     let s = s\<lparr>pmem := p\<rparr>
     in Inr (pd, if pd \<noteq> 0
                 then s\<lparr>pmem := p\<lparr>ram := (\<lambda>a. if a - pd < PGSIZE then ram p (init_pd s + (a - pd)) else ram p a)\<rparr>\<rparr>
                 else s))"

text \<open>The loops of \<open>pagedir_destroy\<close>, over the entries of a table and over those of the directory.\<close>

fun destroy_ptes :: "u32 list \<Rightarrow> paging \<Rightarrow> paging res" where
  "destroy_ptes [] s = Inr s"
| "destroy_ptes (pte # ptes) s =
     ebind (if get_word pte s AND PTE_P \<noteq> 0
            then ebind (pte_get_page (get_word pte s)) (\<lambda>page.
                 ebind (palloc_free_page page (pmem s)) (\<lambda>p. Inr (s\<lparr>pmem := p\<rparr>)))
            else Inr s) (destroy_ptes ptes)"

fun destroy_pdes :: "u32 list \<Rightarrow> paging \<Rightarrow> paging res" where
  "destroy_pdes [] s = Inr s"
| "destroy_pdes (pde # pdes) s =
     ebind (if get_word pde s AND PTE_P \<noteq> 0
            then ebind (pde_get_pt (get_word pde s)) (\<lambda>pt.
                 ebind (destroy_ptes (map (\<lambda>i. pt + 4 * of_nat i) [0..<1024]) s) (\<lambda>s.
                 ebind (palloc_free_page pt (pmem s)) (\<lambda>p. Inr (s\<lparr>pmem := p\<rparr>))))
            else Inr s) (destroy_pdes pdes)"

definition pagedir_destroy :: "u32 \<Rightarrow> paging \<Rightarrow> paging res" where
  "pagedir_destroy pd s =
     (if pd = 0 then Inr s
      else ebind (kassert (pd \<noteq> init_pd s)) (\<lambda>_.
           ebind (destroy_pdes (map (\<lambda>i. pd + 4 * of_nat i) [0..<unat (pd_no PHYS_BASE)]) s) (\<lambda>s.
           ebind (palloc_free_page pd (pmem s)) (\<lambda>p. Inr (s\<lparr>pmem := p\<rparr>)))))"

definition lookup_page :: "u32 \<Rightarrow> u32 \<Rightarrow> bool \<Rightarrow> paging \<Rightarrow> (u32 \<times> paging) res" where
  "lookup_page pd vaddr create s =
     ebind (kassert (pd \<noteq> 0)) (\<lambda>_. ebind (kassert (\<not> create \<or> is_user_vaddr vaddr)) (\<lambda>_.
     let pde = pd + 4 * pd_no vaddr;
         entry = (\<lambda>s. ebind (pde_get_pt (get_word pde s)) (\<lambda>pt. Inr (pt + 4 * pt_no vaddr, s)))
     in if get_word pde s = 0 then
          if create then
            ebind (palloc_get_page PAL_ZERO (pmem s)) (\<lambda>(pt, p).
            let s = s\<lparr>pmem := p\<rparr>
            in if pt = 0 then Inr (0, s)
               else ebind (pde_create pt) (\<lambda>e. entry (set_word pde e s)))
          else Inr (0, s)
        else entry s))"

definition pagedir_set_page :: "u32 \<Rightarrow> u32 \<Rightarrow> u32 \<Rightarrow> bool \<Rightarrow> paging \<Rightarrow> (bool \<times> paging) res" where
  "pagedir_set_page pd upage kpage writable s =
     ebind (kassert (pg_ofs upage = 0)) (\<lambda>_. ebind (kassert (pg_ofs kpage = 0)) (\<lambda>_.
     ebind (kassert (is_user_vaddr upage)) (\<lambda>_.
     ebind (vtop kpage) (\<lambda>phys. ebind (kassert (drop_bit PTSHIFT phys < init_ram_pages s)) (\<lambda>_.
     ebind (kassert (pd \<noteq> init_pd s)) (\<lambda>_.
     ebind (lookup_page pd upage True s) (\<lambda>(pte, s).
     if pte \<noteq> 0
     then ebind (kassert (get_word pte s AND PTE_P = 0)) (\<lambda>_.
          ebind (pte_create_user kpage writable) (\<lambda>e. Inr (True, set_word pte e s)))
     else Inr (False, s))))))))"

definition pagedir_get_page :: "u32 \<Rightarrow> u32 \<Rightarrow> paging \<Rightarrow> u32 res" where
  "pagedir_get_page pd uaddr s =
     ebind (kassert (is_user_vaddr uaddr)) (\<lambda>_. ebind (lookup_page pd uaddr False s) (\<lambda>(pte, s).
     if pte \<noteq> 0 \<and> get_word pte s AND PTE_P \<noteq> 0
     then ebind (pte_get_page (get_word pte s)) (\<lambda>page. Inr (page + pg_ofs uaddr))
     else Inr 0))"

definition active_pagedir :: "paging \<Rightarrow> u32 res" where
  "active_pagedir s = ptov (cr3 s)"

definition pagedir_activate :: "u32 \<Rightarrow> paging \<Rightarrow> paging res" where
  "pagedir_activate pd s =
     (let pd = (if pd = 0 then init_pd s else pd)
      in ebind (vtop pd) (\<lambda>p. Inr (s\<lparr>cr3 := p, cr3_loads := cr3_loads s + 1\<rparr>)))"

definition invalidate_pagedir :: "u32 \<Rightarrow> paging \<Rightarrow> paging res" where
  "invalidate_pagedir pd s = ebind (active_pagedir s) (\<lambda>a. if a = pd then pagedir_activate pd s else Inr s)"

definition pagedir_clear_page :: "u32 \<Rightarrow> u32 \<Rightarrow> paging \<Rightarrow> paging res" where
  "pagedir_clear_page pd upage s =
     ebind (kassert (pg_ofs upage = 0)) (\<lambda>_. ebind (kassert (is_user_vaddr upage)) (\<lambda>_.
     ebind (lookup_page pd upage False s) (\<lambda>(pte, s).
     if pte \<noteq> 0 \<and> get_word pte s AND PTE_P \<noteq> 0
     then invalidate_pagedir pd (set_word pte (get_word pte s AND NOT PTE_P) s)
     else Inr s)))"

text \<open>The dirty and the accessed bit; \<open>flag\<close> is \<open>PTE_D\<close> or \<open>PTE_A\<close>.\<close>

definition pte_flag_test :: "u32 \<Rightarrow> u32 \<Rightarrow> u32 \<Rightarrow> paging \<Rightarrow> bool res" where
  "pte_flag_test flag pd vpage s =
     ebind (lookup_page pd vpage False s) (\<lambda>(pte, s). Inr (pte \<noteq> 0 \<and> get_word pte s AND flag \<noteq> 0))"

definition pte_flag_set :: "u32 \<Rightarrow> u32 \<Rightarrow> u32 \<Rightarrow> bool \<Rightarrow> paging \<Rightarrow> paging res" where
  "pte_flag_set flag pd vpage b s =
     ebind (lookup_page pd vpage False s) (\<lambda>(pte, s).
     if pte \<noteq> 0 then
       if b then Inr (set_word pte (get_word pte s OR flag) s)
       else invalidate_pagedir pd (set_word pte (get_word pte s AND NOT flag) s)
     else Inr s)"

definition pagedir_is_dirty :: "u32 \<Rightarrow> u32 \<Rightarrow> paging \<Rightarrow> bool res" where
  "pagedir_is_dirty pd vpage s = pte_flag_test PTE_D pd vpage s"

definition pagedir_set_dirty :: "u32 \<Rightarrow> u32 \<Rightarrow> bool \<Rightarrow> paging \<Rightarrow> paging res" where
  "pagedir_set_dirty pd vpage dirty s = pte_flag_set PTE_D pd vpage dirty s"

definition pagedir_is_accessed :: "u32 \<Rightarrow> u32 \<Rightarrow> paging \<Rightarrow> bool res" where
  "pagedir_is_accessed pd vpage s = pte_flag_test PTE_A pd vpage s"

definition pagedir_set_accessed :: "u32 \<Rightarrow> u32 \<Rightarrow> bool \<Rightarrow> paging \<Rightarrow> paging res" where
  "pagedir_set_accessed pd vpage accessed s = pte_flag_set PTE_A pd vpage accessed s"

section \<open>Words of pages\<close>

lemma round_down_add: "page_aligned p \<Longrightarrow> unat d < 4096 \<Longrightarrow> pg_round_down (p + d) = p"
proof -
  assume p: "page_aligned p" and d: "unat d < 4096"
  have m: "unat p mod 4096 = 0" using p by (simp add: page_aligned_def word_unat_eq_iff unat_pg_ofs)
  then obtain q where q: "unat p = 4096 * q" by (metis mod_0_imp_dvd dvdE)
  have "q < 1048576" using unat_lt_size[of p] q by simp
  then have "unat p + unat d < 2 ^ LENGTH(32)" using d q by simp
  then have "unat (p + d) = unat p + unat d" by (rule unat_add_le)
  then have "unat (pg_round_down (p + d)) = unat p" using q d by (simp add: unat_pg_round_down)
  then show ?thesis by (simp add: word_unat_eq_iff)
qed

lemma in_page: "page_aligned p \<Longrightarrow> a - p < PGSIZE \<longleftrightarrow> pg_round_down a = p"
proof
  assume p: "page_aligned p" and "a - p < PGSIZE"
  then have "pg_round_down (p + (a - p)) = p" by (intro round_down_add) (simp_all add: word_less_nat_alt PGSIZE_val)
  then show "pg_round_down a = p" by simp
next
  assume "pg_round_down a = p"
  then have "a - p = pg_ofs a" using pg_round_down_ofs[of a] by (metis add_diff_cancel_left')
  then show "a - p < PGSIZE" by (simp add: word_less_nat_alt PGSIZE_val unat_pg_ofs)
qed

text \<open>The address of entry \<open>i\<close> of the table in page \<open>p\<close>.\<close>

definition entry_at :: "u32 \<Rightarrow> u32 \<Rightarrow> u32" where
  "entry_at p i = p + 4 * i"

lemma unat_times4: "unat i < 1024 \<Longrightarrow> unat (4 * i :: u32) = 4 * unat i"
  using unat_mult_lem[of 4 i] by simp

lemma entry_at_page: "page_aligned p \<Longrightarrow> unat i < 1024 \<Longrightarrow> pg_round_down (entry_at p i) = p"
  unfolding entry_at_def by (rule round_down_add) (simp_all add: unat_times4)

lemma entry_at_eq:
  "page_aligned p \<Longrightarrow> page_aligned q \<Longrightarrow> unat i < 1024 \<Longrightarrow> unat j < 1024 \<Longrightarrow> entry_at p i = entry_at q j \<longleftrightarrow> p = q \<and> i = j"
proof
  assume a: "page_aligned p" "page_aligned q" "unat i < 1024" "unat j < 1024" and e: "entry_at p i = entry_at q j"
  have pq: "p = q" using entry_at_page[OF a(1,3)] entry_at_page[OF a(2,4)] e by simp
  then have "4 * i = 4 * j" using e by (simp add: entry_at_def)
  then have "unat i = unat j" using a(3,4) unat_times4 by (metis mult_left_cancel zero_neq_numeral)
  then show "p = q \<and> i = j" using pq by (simp add: word_unat_eq_iff)
qed simp

lemma entry_nonzero: "page_aligned p \<Longrightarrow> p \<noteq> 0 \<Longrightarrow> unat i < 1024 \<Longrightarrow> entry_at p i \<noteq> 0"
  using entry_at_page[of p i] by (auto simp: pg_round_down_def)

section \<open>The invariant of a page directory\<close>

definition pde_of :: "paging \<Rightarrow> u32 \<Rightarrow> u32 \<Rightarrow> u32" where
  "pde_of s pd v = get_word (entry_at pd (pd_no v)) s"

definition kernel_used :: "paging \<Rightarrow> u32 set" where
  "kernel_used s = used_pages (kernel_pool (pmem s))"

definition pt_ok :: "paging \<Rightarrow> u32 \<Rightarrow> u32 \<Rightarrow> u32 \<Rightarrow> bool" where
  "pt_ok s pd v pt \<longleftrightarrow> pde_get_pt (pde_of s pd v) = Inr pt \<and> page_aligned pt \<and> pt \<noteq> 0 \<and> pt \<noteq> pd \<and> pt \<in> kernel_used s"

definition pd_wf :: "paging \<Rightarrow> u32 \<Rightarrow> bool" where
  "pd_wf s pd \<longleftrightarrow> palloc_wf (pmem s) \<and> page_aligned pd \<and> pd \<noteq> 0 \<and> pd \<in> kernel_used s \<and>
     (\<forall>v. is_user_vaddr v \<longrightarrow> pde_of s pd v = 0 \<or> (\<exists>pt. pt_ok s pd v pt)) \<and>
     (\<forall>v w. is_user_vaddr v \<longrightarrow> is_user_vaddr w \<longrightarrow> pde_of s pd v \<noteq> 0 \<longrightarrow> pde_of s pd w \<noteq> 0 \<longrightarrow>
        pde_get_pt (pde_of s pd v) = pde_get_pt (pde_of s pd w) \<longrightarrow> pd_no v = pd_no w)"

text \<open>The entry that translates an address, if it is present.\<close>

definition mapping :: "paging \<Rightarrow> u32 \<Rightarrow> u32 \<Rightarrow> u32 option" where
  "mapping s pd v =
     (if pde_of s pd v = 0 then None
      else case pde_get_pt (pde_of s pd v) of Inl _ \<Rightarrow> None
           | Inr pt \<Rightarrow> let e = get_word (entry_at pt (pt_no v)) s in if e AND PTE_P \<noteq> 0 then Some e else None)"

lemma pd_wfD:
  assumes "pd_wf s pd"
  shows "palloc_wf (pmem s)" "page_aligned pd" "pd \<noteq> 0" "pd \<in> kernel_used s"
    "is_user_vaddr v \<Longrightarrow> pde_of s pd v \<noteq> 0 \<Longrightarrow> \<exists>pt. pt_ok s pd v pt"
    "is_user_vaddr v \<Longrightarrow> is_user_vaddr w \<Longrightarrow> pde_of s pd v \<noteq> 0 \<Longrightarrow> pde_of s pd w \<noteq> 0 \<Longrightarrow>
      pde_get_pt (pde_of s pd v) = pde_get_pt (pde_of s pd w) \<Longrightarrow> pd_no v = pd_no w"
  using assms unfolding pd_wf_def by blast+

lemma pde_get_pt_0: "pde_get_pt 0 = Inl Assert_failed"
  by (simp add: pde_get_pt_def)

lemma pt_ok_pde: "pt_ok s pd v pt \<Longrightarrow> pde_of s pd v \<noteq> 0"
  by (auto simp: pt_ok_def pde_get_pt_0)

lemma mapping_pt:
  "pt_ok s pd v pt \<Longrightarrow> mapping s pd v =
     (if get_word (entry_at pt (pt_no v)) s AND PTE_P \<noteq> 0 then Some (get_word (entry_at pt (pt_no v)) s) else None)"
  using pt_ok_pde[of s pd v pt] by (simp add: mapping_def pt_ok_def Let_def)

lemma get_set_word: "get_word a (set_word b v s) = (if a = b then v else get_word a s)"
  by (simp add: get_word_def set_word_def)

lemma set_word_simps [simp]:
  "kernel_used (set_word a v s) = kernel_used s" "palloc_wf (pmem (set_word a v s)) = palloc_wf (pmem s)"
  "init_pd (set_word a v s) = init_pd s" "cr3 (set_word a v s) = cr3 s" "cr3_loads (set_word a v s) = cr3_loads s"
  "init_ram_pages (set_word a v s) = init_ram_pages s"
  by (simp_all add: set_word_def kernel_used_def palloc_wf_def)

lemma pg_no_parts: "pg_no a = pg_no b \<Longrightarrow> pd_no a = pd_no b \<and> pt_no a = pt_no b"
proof -
  assume "pg_no a = pg_no b"
  then have "unat a div 4096 = unat b div 4096" by (metis unat_pg_no)
  moreover have "unat x div 4194304 = unat x div 4096 div 1024" for x :: u32 by (simp add: div_mult2_eq)
  ultimately show ?thesis by (simp add: word_unat_eq_iff unat_pd_no unat_pt_no)
qed

text \<open>Writing an entry of a page table changes the translation of the addresses of one page.\<close>

lemma write_pte:
  fixes e :: u32
  assumes wf: "pd_wf s pd" and v: "is_user_vaddr v" and pt: "pt_ok s pd v pt"
  defines "s' \<equiv> set_word (entry_at pt (pt_no v)) e s"
  shows "pd_wf s' pd"
    and "is_user_vaddr w \<Longrightarrow> mapping s' pd w =
      (if pg_no w = pg_no v then if e AND PTE_P \<noteq> 0 then Some e else None else mapping s pd w)"
proof -
  note d = pd_wfD[OF wf]
  have al: "page_aligned pt" "pt \<noteq> pd" using pt by (simp_all add: pt_ok_def)
  have pde: "pde_of s' pd x = pde_of s pd x" for x
    using entry_at_eq[OF d(2) al(1) pd_no_lt pt_no_lt, of x v] al(2) by (simp add: pde_of_def s'_def get_set_word)
  have ok: "pt_ok s' pd x q = pt_ok s pd x q" for x q by (simp add: pt_ok_def pde) (simp add: s'_def)
  have e: "kernel_used s' = kernel_used s" "palloc_wf (pmem s') = palloc_wf (pmem s)" by (simp_all add: s'_def)
  show "pd_wf s' pd" unfolding pd_wf_def pde ok e by (rule wf[unfolded pd_wf_def])
  assume w: "is_user_vaddr w"
  show "mapping s' pd w = (if pg_no w = pg_no v then if e AND PTE_P \<noteq> 0 then Some e else None else mapping s pd w)"
  proof (cases "pde_of s pd w = 0")
    case True
    then have "pd_no w \<noteq> pd_no v" using pt_ok_pde[OF pt] by (auto simp: pde_of_def)
    then have "pg_no w \<noteq> pg_no v" using pg_no_parts by blast
    then show ?thesis using True by (simp add: mapping_def pde)
  next
    case False
    then obtain q where q: "pt_ok s pd w q" using d(5)[OF w] by blast
    have qa: "page_aligned q" using q by (simp add: pt_ok_def)
    have eq: "entry_at q (pt_no w) = entry_at pt (pt_no v) \<longleftrightarrow> pg_no w = pg_no v"
    proof
      assume "entry_at q (pt_no w) = entry_at pt (pt_no v)"
      then have "q = pt" "pt_no w = pt_no v" using entry_at_eq[OF qa al(1) pt_no_lt pt_no_lt] by simp_all
      moreover from this have "pd_no w = pd_no v"
        using d(6)[OF w v False pt_ok_pde[OF pt]] q pt by (simp add: pt_ok_def)
      ultimately show "pg_no w = pg_no v" by (intro pd_pt_no_eq)
    next
      assume "pg_no w = pg_no v"
      then have "pd_no w = pd_no v" "pt_no w = pt_no v" using pg_no_parts by blast+
      then show "entry_at q (pt_no w) = entry_at pt (pt_no v)" using q pt by (simp add: pt_ok_def pde_of_def)
    qed
    have "mapping s' pd w = (if get_word (entry_at q (pt_no w)) s' AND PTE_P \<noteq> 0
        then Some (get_word (entry_at q (pt_no w)) s') else None)"
      using mapping_pt[of s' pd w q] q ok by simp
    then show ?thesis using eq mapping_pt[OF q] by (simp add: s'_def get_set_word)
  qed
qed

lemma lookup_present:
  assumes wf: "pd_wf s pd" and v: "is_user_vaddr v" and pt: "pt_ok s pd v pt"
  shows "lookup_page pd v create s = Inr (entry_at pt (pt_no v), s)" "entry_at pt (pt_no v) \<noteq> 0"
proof -
  show "entry_at pt (pt_no v) \<noteq> 0" using pt by (simp add: pt_ok_def entry_nonzero pt_no_lt)
  show "lookup_page pd v create s = Inr (entry_at pt (pt_no v), s)"
    using pt_ok_pde[OF pt] pt pd_wfD(3)[OF wf] v
    by (simp add: lookup_page_def pde_of_def pt_ok_def entry_at_def Let_def)
qed

lemma lookup_absent:
  "pd_wf s pd \<Longrightarrow> pde_of s pd v = 0 \<Longrightarrow> lookup_page pd v False s = Inr (0, s) \<and> mapping s pd v = None"
  using pd_wfD(3)[of s pd] by (simp add: lookup_page_def pde_of_def entry_at_def Let_def mapping_def)

text \<open>A new page table, zeroed, in the place of a missing one.\<close>

lemma new_page_table:
  assumes wf: "pd_wf s pd" and v: "is_user_vaddr v" "pde_of s pd v = 0"
    and p: "palloc_wf p" "used_pages (kernel_pool p) = insert pt (kernel_used s)" "pt \<notin> kernel_used s" "pt \<noteq> 0"
      "page_aligned pt" "is_kernel_vaddr pt" "ram p = fill_pages pt 1 0 (ram (pmem s))"
  defines "s' \<equiv> set_word (entry_at pd (pd_no v)) (pt - PHYS_BASE OR 7) (s\<lparr>pmem := p\<rparr>)"
  shows "pd_wf s' pd" "pt_ok s' pd v pt" "is_user_vaddr w \<Longrightarrow> mapping s' pd w = mapping s pd w"
proof -
  note d = pd_wfD[OF wf]
  have ku: "kernel_used s' = insert pt (kernel_used s)" using p(2) by (simp add: s'_def) (simp add: kernel_used_def)
  have word: "get_word (entry_at q i) s' = (if q = pd \<and> i = pd_no v then pt - PHYS_BASE OR 7
      else if q = pt then 0 else get_word (entry_at q i) s)" if q: "page_aligned q" "unat i < 1024" for q i
  proof -
    have "entry_at q i - pt < PGSIZE * 1 \<longleftrightarrow> q = pt" using in_page[OF p(5)] entry_at_page[OF q] by simp
    then have "get_word (entry_at q i) (s\<lparr>pmem := p\<rparr>) = (if q = pt then 0 else get_word (entry_at q i) s)"
    proof -
      assume e: "(entry_at q i - pt < PGSIZE * 1) = (q = pt)"
      have "get_word (entry_at q i) (s\<lparr>pmem := p\<rparr>) = fill_pages pt 1 0 (ram (pmem s)) (entry_at q i)"
        by (simp add: get_word_def p(7))
      then show ?thesis unfolding fill_pages_def e get_word_def .
    qed
    then show ?thesis
      using entry_at_eq[OF q(1) d(2) q(2) pd_no_lt, of v] unfolding s'_def get_set_word by (simp only:)
  qed
  have npd: "pd \<noteq> pt" using d(4) p(3) by auto
  have pde: "pde_of s' pd w = (if pd_no w = pd_no v then pt - PHYS_BASE OR 7 else pde_of s pd w)" for w
    unfolding pde_of_def using word[OF d(2) pd_no_lt, of w] npd by simp
  have get: "pde_get_pt (pt - PHYS_BASE OR 7) = Inr pt" by (rule pde_get_pt_create[OF p(5,6)])
  then have nz: "pt - PHYS_BASE OR 7 \<noteq> 0" by (auto simp: pde_get_pt_0)
  show ptv: "pt_ok s' pd v pt" using get p(4,5) npd ku by (simp add: pt_ok_def pde)
  have other: "pt_ok s' pd w q" if "pd_no w \<noteq> pd_no v" "pt_ok s pd w q" for w q
    using that ku by (simp add: pt_ok_def pde)
  have new: "pt_ok s' pd w pt" if "pd_no w = pd_no v" for w using ptv that by (simp add: pt_ok_def pde_of_def)
  have "pd_no w = pd_no x"
    if u: "is_user_vaddr w" "is_user_vaddr x" "pde_of s' pd w \<noteq> 0" "pde_of s' pd x \<noteq> 0"
      and e: "pde_get_pt (pde_of s' pd w) = pde_get_pt (pde_of s' pd x)" for w x
  proof -
    have old: "pde_get_pt (pde_of s pd y) \<noteq> Inr pt" if "is_user_vaddr y" "pde_of s pd y \<noteq> 0" for y
      using d(5)[OF that] p(3) by (auto simp: pt_ok_def)
    consider "pd_no w = pd_no v" "pd_no x = pd_no v" | "pd_no w = pd_no v" "pd_no x \<noteq> pd_no v"
      | "pd_no w \<noteq> pd_no v" "pd_no x = pd_no v" | "pd_no w \<noteq> pd_no v" "pd_no x \<noteq> pd_no v" by blast
    then show ?thesis
    proof cases
      case 2
      then show ?thesis using u e get old[OF u(2)] by (simp add: pde)
    next
      case 3
      then show ?thesis using u e get old[OF u(1)] by (simp add: pde)
    next
      case 4
      then show ?thesis using u e d(6)[OF u(1,2)] by (simp add: pde)
    qed simp
  qed
  moreover have "pde_of s' pd w = 0 \<or> (\<exists>q. pt_ok s' pd w q)" if "is_user_vaddr w" for w
  proof (cases "pd_no w = pd_no v")
    case True
    then show ?thesis using new by blast
  next
    case False
    then have "pde_of s' pd w = pde_of s pd w" by (simp add: pde)
    then show ?thesis using False other d(5)[OF that] by metis
  qed
  moreover have "palloc_wf (pmem s')" using p(1) by (simp add: s'_def)
  moreover have "pd \<in> kernel_used s'" using ku d(4) by simp
  ultimately show "pd_wf s' pd"
    unfolding pd_wf_def using d(2,3) by blast
  assume w: "is_user_vaddr w"
  show "mapping s' pd w = mapping s pd w"
  proof (cases "pd_no w = pd_no v")
    case True
    then have "mapping s pd w = None" using v(2) by (simp add: mapping_def pde_of_def)
    moreover have "get_word (entry_at pt (pt_no w)) s' = 0" using word[OF p(5) pt_no_lt, of w] npd by auto
    ultimately show ?thesis using mapping_pt[OF new[OF True]] by simp
  next
    case False
    show ?thesis
    proof (cases "pde_of s pd w = 0")
      case True
      then show ?thesis using False by (simp add: mapping_def pde)
    next
      case ne: False
      then obtain q where q: "pt_ok s pd w q" using d(5)[OF w] by blast
      then have "q \<noteq> pt" "q \<noteq> pd" "page_aligned q" using p(3) by (auto simp: pt_ok_def)
      then have "get_word (entry_at q (pt_no w)) s' = get_word (entry_at q (pt_no w)) s"
        using word[OF _ pt_no_lt] by auto
      then show ?thesis using mapping_pt[OF q] mapping_pt[OF other[OF False q]] by simp
    qed
  qed
qed

lemma lookup_create:
  assumes wf: "pd_wf s pd" and v: "is_user_vaddr v"
  obtains (none) "lookup_page pd v True s = Inr (0, s)" "mapping s pd v = None"
  | (pte) pt s' where "lookup_page pd v True s = Inr (entry_at pt (pt_no v), s')" "pd_wf s' pd" "pt_ok s' pd v pt"
      "\<And>w. is_user_vaddr w \<Longrightarrow> mapping s' pd w = mapping s pd w" "init_pd s' = init_pd s" "cr3 s' = cr3 s"
proof (cases "pde_of s pd v = 0")
  case False
  then obtain pt where "pt_ok s pd v pt" using pd_wfD(5)[OF wf v] by blast
  then show ?thesis using pte[of pt s] lookup_present[OF wf v] wf by simp
next
  case True
  note d = pd_wfD[OF wf]
  have u: "False = (PAL_ZERO AND PAL_USER \<noteq> 0)" "(PAL_ZERO AND PAL_ASSERT \<noteq> 0) = False" "PAL_ZERO AND PAL_ZERO \<noteq> 0"
    by (simp_all add: PAL_ZERO_def PAL_USER_def PAL_ASSERT_def)
  show ?thesis
  proof (rule palloc_get_page_cases[OF d(1) u(1)])
    fix pt p assume p: "palloc_get_page PAL_ZERO (pmem s) = Inr (pt, p)" "palloc_wf p" "pt \<noteq> 0" "pg_ofs pt = 0"
      "is_kernel_vaddr pt" "pt \<notin> used_pages (pool_of False (pmem s))"
      "used_pages (pool_of False p) = insert pt (used_pages (pool_of False (pmem s)))"
      "ram p = (if PAL_ZERO AND PAL_ZERO \<noteq> 0 then fill_pages pt 1 0 (ram (pmem s)) else ram (pmem s))"
    let ?s = "set_word (entry_at pd (pd_no v)) (pt - PHYS_BASE OR 7) (s\<lparr>pmem := p\<rparr>)"
    have pt: "page_aligned pt" using p(4) by (simp add: page_aligned_def)
    have p': "used_pages (kernel_pool p) = insert pt (kernel_used s)" "pt \<notin> kernel_used s"
        "ram p = fill_pages pt 1 0 (ram (pmem s))"
      using p(6,7,8) u(3) by (simp_all add: pool_of_def kernel_used_def)
    note n = new_page_table[OF wf v True p(2) p'(1,2) p(3) pt p(5) p'(3)]
    have "lookup_page pd v True s = Inr (entry_at pt (pt_no v), ?s)"
      using True p(1,3) d(3) v pde_create_ok[OF pt p(5)] pde_get_pt_create[OF pt p(5)]
      by (simp add: lookup_page_def pde_of_def entry_at_def Let_def get_set_word)
    then show ?thesis using pte[of pt ?s] n by simp
  next
    assume "palloc_get_page PAL_ZERO (pmem s) =
       (if PAL_ZERO AND PAL_ASSERT \<noteq> 0 then Inl (Panic ''palloc_get: out of pages'') else Inr (0, pmem s))"
    then have "lookup_page pd v True s = Inr (0, s)"
      using True d(3) v u(2) by (simp add: lookup_page_def pde_of_def entry_at_def Let_def)
    then show ?thesis using none True by (simp add: mapping_def)
  qed
qed

section \<open>Properties\<close>

lemma get_page_mapping:
  assumes wf: "pd_wf s pd" and v: "is_user_vaddr v"
  shows "pagedir_get_page pd v s =
    (case mapping s pd v of None \<Rightarrow> Inr 0 | Some e \<Rightarrow> ebind (pte_get_page e) (\<lambda>page. Inr (page + pg_ofs v)))"
proof (cases "pde_of s pd v = 0")
  case True
  then show ?thesis using lookup_absent[OF wf True] v by (simp add: pagedir_get_page_def)
next
  case False
  then obtain pt where pt: "pt_ok s pd v pt" using pd_wfD(5)[OF wf v] by blast
  then show ?thesis using lookup_present(1)[OF wf v pt, of False] lookup_present(2)[OF wf v pt] mapping_pt[OF pt] v by (simp add: pagedir_get_page_def)
qed

lemma set_page_cases:
  assumes wf: "pd_wf s pd" "pd \<noteq> init_pd s" and u: "page_aligned u" "is_user_vaddr u" "mapping s pd u = None"
    and k: "page_aligned kp" "is_kernel_vaddr kp" "drop_bit 12 (kp - PHYS_BASE) < init_ram_pages s"
  obtains "pagedir_set_page pd u kp w s = Inr (False, s)"
  | s' where "pagedir_set_page pd u kp w s = Inr (True, s')" "pd_wf s' pd"
      "\<And>v. is_user_vaddr v \<Longrightarrow> mapping s' pd v =
        (if pg_no v = pg_no u then Some (kp - PHYS_BASE OR pte_flags w) else mapping s pd v)"
proof -
  have asserts: "pagedir_set_page pd u kp w s = ebind (lookup_page pd u True s) (\<lambda>(pte, s).
     if pte \<noteq> 0
     then ebind (kassert (get_word pte s AND PTE_P = 0)) (\<lambda>_.
          ebind (pte_create_user kp w) (\<lambda>e. Inr (True, set_word pte e s)))
     else Inr (False, s))"
    using wf(2) u k by (simp add: pagedir_set_page_def page_aligned_def vtop_ok)
  show ?thesis
  proof (rule lookup_create[OF wf(1) u(2)])
    assume "lookup_page pd u True s = Inr (0, s)"
    then show ?thesis using that(1) asserts by simp
  next
    fix pt s1 assume l: "lookup_page pd u True s = Inr (entry_at pt (pt_no u), s1)" "pd_wf s1 pd" "pt_ok s1 pd u pt"
      "\<And>x. is_user_vaddr x \<Longrightarrow> mapping s1 pd x = mapping s pd x"
    let ?e = "kp - PHYS_BASE OR pte_flags w"
    have "get_word (entry_at pt (pt_no u)) s1 AND PTE_P = 0"
      using mapping_pt[OF l(3)] l(4)[OF u(2)] u(3) by (auto split: if_splits)
    then have "pagedir_set_page pd u kp w s = Inr (True, set_word (entry_at pt (pt_no u)) ?e s1)"
      using asserts l(1) lookup_present(2)[OF l(2) u(2) l(3)] pte_create_user_ok[OF k(1,2)] by simp
    moreover have "?e AND PTE_P = pte_flags w AND PTE_P"
      by (rule page_aligned_and) (simp_all add: page_aligned_vtop k(1) pte_flags_def PTE_P_def take_bit_eq_mod)
    then have "?e AND PTE_P \<noteq> 0" by (simp add: pte_flags_def PTE_P_def)
    ultimately show ?thesis
      using that(2) write_pte(1)[OF l(2) u(2) l(3)] write_pte(2)[OF l(2) u(2) l(3), of _ ?e] l(4) by simp
  qed
qed

text \<open>C5.  On a well-formed page directory other than the initial one, \<open>pagedir_set_page\<close> for an unmapped user page
  either returns false and changes nothing, or returns true; then \<open>pagedir_get_page\<close> gives, for every address of that
  user page, the address with the same offset in the kernel page, and for every other user address what it gave
  before.  The directory stays well-formed.\<close>

theorem pagedir_set_get:
  assumes "pd_wf s pd" "pd \<noteq> init_pd s" "page_aligned u" "is_user_vaddr u" "mapping s pd u = None"
    and "page_aligned kp" "is_kernel_vaddr kp" "drop_bit 12 (kp - PHYS_BASE) < init_ram_pages s"
  shows "pagedir_set_page pd u kp w s = Inr (False, s) \<or>
    (\<exists>s'. pagedir_set_page pd u kp w s = Inr (True, s') \<and> pd_wf s' pd \<and>
       (\<forall>v. is_user_vaddr v \<longrightarrow> pagedir_get_page pd v s' =
          (if pg_no v = pg_no u then Inr (kp + pg_ofs v) else pagedir_get_page pd v s)))"
proof (rule set_page_cases[OF assms, of w])
  fix s' assume s': "pagedir_set_page pd u kp w s = Inr (True, s')" "pd_wf s' pd"
    "\<And>v. is_user_vaddr v \<Longrightarrow> mapping s' pd v =
       (if pg_no v = pg_no u then Some (kp - PHYS_BASE OR pte_flags w) else mapping s pd v)"
  have "pte_get_page (kp - PHYS_BASE OR pte_flags w) = Inr kp"
    unfolding pte_get_page_def using assms(6,7) by (intro entry_page) (simp_all add: pte_flags_def)
  then have "pagedir_get_page pd v s' = (if pg_no v = pg_no u then Inr (kp + pg_ofs v) else pagedir_get_page pd v s)"
    if "is_user_vaddr v" for v
    using get_page_mapping[OF s'(2) that] get_page_mapping[OF assms(1) that] s'(3)[OF that] by simp
  then show ?thesis using s'(1,2) by blast
qed blast

definition wpaging :: paging where
  "wpaging = \<lparr>pmem = wpalloc\<lparr>ram := (\<lambda>_. 0)\<rparr>, init_pd = 0xc0100000, init_ram_pages = 1024, cr3 = 0x00101000, cr3_loads = 0\<rparr>"

lemma wpaging_wf: "pd_wf wpaging 0xc0101000" "mapping wpaging 0xc0101000 v = None"
proof -
  have "used_bits \<lparr>bit_cnt = 2, bits = [1]\<rparr> = {0}"
  proof -
    have "abits \<lparr>bit_cnt = 2, bits = [1]\<rparr> = [True, False]" by code_simp
    moreover have "i < 2 \<Longrightarrow> i = 0 \<or> i = 1" for i :: nat by linarith
    ultimately show ?thesis by (fastforce simp: used_bits_def)
  qed
  then have "kernel_used wpaging = {0xc0101000}"
    by (simp add: kernel_used_def wpaging_def wpalloc_def used_pages_def pool_page_def)
  moreover have "palloc_wf (pmem wpaging)" using wpalloc_wf by (simp add: wpaging_def palloc_wf_def)
  moreover have z: "pde_of wpaging 0xc0101000 x = 0" for x by (simp add: pde_of_def get_word_def wpaging_def)
  ultimately show "pd_wf wpaging 0xc0101000"
    by (simp add: pd_wf_def page_aligned_def word_unat_eq_iff unat_pg_ofs)
  show "mapping wpaging 0xc0101000 v = None" by (simp add: mapping_def z)
qed

theorem pagedir_set_get_witness:
  "pagedir_set_page 0xc0101000 0x08048000 0xc0103000 True wpaging = Inr (False, wpaging) \<or>
   (\<exists>s'. pagedir_set_page 0xc0101000 0x08048000 0xc0103000 True wpaging = Inr (True, s') \<and>
      pagedir_get_page 0xc0101000 0x08048123 s' = Inr 0xc0103123)"
proof -
  have al: "page_aligned 0x08048000" "page_aligned 0xc0103000" "is_user_vaddr 0x08048000" "is_user_vaddr 0x08048123"
    "is_kernel_vaddr 0xc0103000" "pg_no 0x08048123 = pg_no 0x08048000" "pg_ofs 0x08048123 = 0x123"
    by (simp_all add: page_aligned_def word_unat_eq_iff unat_pg_ofs unat_pg_no is_user_vaddr_def is_kernel_vaddr_def PHYS_BASE_def)
  have "drop_bit 12 (0xc0103000 - PHYS_BASE) < init_ram_pages wpaging" "0xc0101000 \<noteq> init_pd wpaging"
    by (simp_all add: wpaging_def PHYS_BASE_def drop_bit_eq_div)
  then show ?thesis
    using pagedir_set_get[OF wpaging_wf(1) _ al(1,3) wpaging_wf(2) al(2,5), of True] al by fastforce
qed

text \<open>C37.  \<open>pagedir_clear_page\<close> unmaps the page and no other: afterwards \<open>pagedir_get_page\<close> gives a null pointer for
  its addresses and what it gave before for the others.  If the page was mapped and the directory is the active one,
  CR3 is loaded again, so that no stale translation survives.\<close>

theorem pagedir_clear_correct:
  assumes "pd_wf s pd" "page_aligned u" "is_user_vaddr u" "is_kernel_vaddr pd" "cr3 s < PHYS_BASE"
  shows "\<exists>s'. pagedir_clear_page pd u s = Inr s' \<and> pd_wf s' pd \<and> cr3 s' = cr3 s \<and>
    cr3_loads s' = cr3_loads s + (if mapping s pd u \<noteq> None \<and> cr3 s = pd - PHYS_BASE then 1 else 0) \<and>
    (\<forall>v. is_user_vaddr v \<longrightarrow> pagedir_get_page pd v s' = (if pg_no v = pg_no u then Inr 0 else pagedir_get_page pd v s))"
proof (cases "mapping s pd u")
  case None
  have same: "pagedir_get_page pd v s = Inr 0" if "is_user_vaddr v" "pg_no v = pg_no u" for v
  proof -
    have "mapping s pd v = mapping s pd u" using pg_no_parts[OF that(2)] by (simp only: mapping_def pde_of_def)
    then show ?thesis using get_page_mapping[OF assms(1) that(1)] None by simp
  qed
  have "pagedir_clear_page pd u s = Inr s"
  proof (cases "pde_of s pd u = 0")
    case True
    then show ?thesis using lookup_absent[OF assms(1) True] assms(2,3) by (simp add: pagedir_clear_page_def page_aligned_def)
  next
    case False
    then obtain pt where pt: "pt_ok s pd u pt" using pd_wfD(5)[OF assms(1,3)] by blast
    then have "get_word (entry_at pt (pt_no u)) s AND PTE_P = 0" using mapping_pt[OF pt] None by (auto split: if_splits)
    then show ?thesis
      using lookup_present(1)[OF assms(1,3) pt, of False] assms(2,3) by (simp add: pagedir_clear_page_def page_aligned_def)
  qed
  then show ?thesis using None assms(1) same by auto
next
  case (Some e)
  then have "pde_of s pd u \<noteq> 0" by (auto simp: mapping_def)
  then obtain pt where pt: "pt_ok s pd u pt" using pd_wfD(5)[OF assms(1,3)] by blast
  let ?e = "get_word (entry_at pt (pt_no u)) s AND NOT PTE_P"
  let ?s = "set_word (entry_at pt (pt_no u)) ?e s"
  have z: "?e AND PTE_P = 0" by (simp add: and.assoc)
  have w: "pd_wf ?s pd" "is_user_vaddr v \<Longrightarrow> mapping ?s pd v = (if pg_no v = pg_no u then None else mapping s pd v)" for v
    using write_pte(1)[OF assms(1,3) pt, of ?e] write_pte(2)[OF assms(1,3) pt, of v ?e] z by simp_all
  have inv: "invalidate_pagedir pd ?s = Inr (if cr3 s = pd - PHYS_BASE then ?s\<lparr>cr3_loads := cr3_loads s + 1\<rparr> else ?s)"
  proof -
    have "cr3 s + PHYS_BASE = pd \<longleftrightarrow> cr3 s = pd - PHYS_BASE" by (auto simp: algebra_simps)
    moreover have "pd \<noteq> 0" using pd_wfD(3)[OF assms(1)] .
    ultimately show ?thesis
      using assms(4,5) by (auto simp: invalidate_pagedir_def active_pagedir_def ptov_def pagedir_activate_def vtop_ok set_word_def)
  qed
  have clear: "pagedir_clear_page pd u s = invalidate_pagedir pd ?s"
    using lookup_present(1)[OF assms(1,3) pt, of False] lookup_present(2)[OF assms(1,3) pt] mapping_pt[OF pt] Some assms(2,3)
    by (auto simp: pagedir_clear_page_def page_aligned_def split: if_splits)
  have loads: "pd_wf (?s\<lparr>cr3_loads := n\<rparr>) pd = pd_wf ?s pd" "mapping (?s\<lparr>cr3_loads := n\<rparr>) pd v = mapping ?s pd v" for n v
  proof -
    have g: "get_word a (?s\<lparr>cr3_loads := n\<rparr>) = get_word a ?s" "kernel_used (?s\<lparr>cr3_loads := n\<rparr>) = kernel_used ?s"
      "pmem (?s\<lparr>cr3_loads := n\<rparr>) = pmem ?s" for a by (simp_all add: get_word_def kernel_used_def)
    show "pd_wf (?s\<lparr>cr3_loads := n\<rparr>) pd = pd_wf ?s pd" "mapping (?s\<lparr>cr3_loads := n\<rparr>) pd v = mapping ?s pd v"
      by (simp_all only: pd_wf_def pt_ok_def mapping_def pde_of_def g)
  qed
  have get: "pagedir_get_page pd v x = (if pg_no v = pg_no u then Inr 0 else pagedir_get_page pd v s)"
    if "is_user_vaddr v" "pd_wf x pd" "mapping x pd v = mapping ?s pd v" for v x
    using get_page_mapping[OF that(2,1)] get_page_mapping[OF assms(1) that(1)] w(2)[OF that(1)] z that(3) by simp
  let ?r = "if cr3 s = pd - PHYS_BASE then ?s\<lparr>cr3_loads := cr3_loads s + 1\<rparr> else ?s"
  have "pd_wf ?r pd" "mapping ?r pd v = mapping ?s pd v" for v using w(1) loads by simp_all
  then show ?thesis using clear inv Some get[of _ ?r] by (auto simp del: One_nat_def)
qed

theorem pagedir_clear_correct_witness:
  "\<exists>s'. pagedir_clear_page 0xc0101000 0x08048000 wpaging = Inr s' \<and> pd_wf s' 0xc0101000"
proof -
  have "page_aligned 0x08048000" "is_user_vaddr 0x08048000" "is_kernel_vaddr 0xc0101000" "cr3 wpaging < PHYS_BASE"
    by (simp_all add: page_aligned_def word_unat_eq_iff unat_pg_ofs is_user_vaddr_def is_kernel_vaddr_def PHYS_BASE_def wpaging_def)
  then show ?thesis using pagedir_clear_correct[OF wpaging_wf(1)] by blast
qed

end
