(* ===== verification/Stdlib.thy ===== *)
theory Stdlib
  imports Cstring
begin

text \<open>
  Character classes, number parsing, sorting and searching: \<open>src/lib/ctype.h\<close> and
  \<open>src/lib/stdlib.c\<close>.

  Characters are bytes read from the memory of theory \<open>Cstring\<close>.  An \<open>int\<close> of \<open>atoi\<close> is a
  32-bit word read as a signed number.  \<open>sort\<close> works on a list of elements, each a block of \<open>size\<close>
  bytes: indexes are those of the source, from 1, and an index outside the array is
  \<open>Bad_access\<close>.  \<open>binary_search\<close> works on addresses; \<open>obj\<close> gives the element stored at an address.

  The locale \<open>comparator\<close> is what both rely on of the function \<open>COMPARE\<close>: a \<open>strcmp\<close>-type
  result.  It is interpreted on the results of \<open>strcmp\<close>.
\<close>

section \<open>Character classes\<close>

definition islower :: "int \<Rightarrow> bool" where "islower c \<longleftrightarrow> c \<ge> 97 \<and> c \<le> 122"
definition isupper :: "int \<Rightarrow> bool" where "isupper c \<longleftrightarrow> c \<ge> 65 \<and> c \<le> 90"
definition isalpha :: "int \<Rightarrow> bool" where "isalpha c \<longleftrightarrow> islower c \<or> isupper c"
definition isdigit :: "int \<Rightarrow> bool" where "isdigit c \<longleftrightarrow> c \<ge> 48 \<and> c \<le> 57"
definition isalnum :: "int \<Rightarrow> bool" where "isalnum c \<longleftrightarrow> isalpha c \<or> isdigit c"
definition isxdigit :: "int \<Rightarrow> bool" where
  "isxdigit c \<longleftrightarrow> isdigit c \<or> (c \<ge> 97 \<and> c \<le> 102) \<or> (c \<ge> 65 \<and> c \<le> 70)"
definition isspace :: "int \<Rightarrow> bool" where
  "isspace c \<longleftrightarrow> c = 32 \<or> c = 12 \<or> c = 10 \<or> c = 13 \<or> c = 9 \<or> c = 11"
definition isblank :: "int \<Rightarrow> bool" where "isblank c \<longleftrightarrow> c = 32 \<or> c = 9"
definition isgraph :: "int \<Rightarrow> bool" where "isgraph c \<longleftrightarrow> c > 32 \<and> c < 127"
definition isprint :: "int \<Rightarrow> bool" where "isprint c \<longleftrightarrow> c \<ge> 32 \<and> c < 127"
definition iscntrl :: "int \<Rightarrow> bool" where "iscntrl c \<longleftrightarrow> (c \<ge> 0 \<and> c < 32) \<or> c = 127"
definition isascii :: "int \<Rightarrow> bool" where "isascii c \<longleftrightarrow> c \<ge> 0 \<and> c < 128"
definition ispunct :: "int \<Rightarrow> bool" where "ispunct c \<longleftrightarrow> isprint c \<and> \<not> isalnum c \<and> \<not> isspace c"
definition tolower :: "int \<Rightarrow> int" where "tolower c = (if isupper c then c - 65 + 97 else c)"
definition toupper :: "int \<Rightarrow> int" where "toupper c = (if islower c then c - 97 + 65 else c)"

section \<open>Parsing numbers\<close>

text \<open>The three loops and the sign of \<open>atoi\<close>.  A plain \<open>char\<close> is signed.\<close>

fun skip_space :: "nat \<Rightarrow> addr \<Rightarrow> mem \<Rightarrow> addr res" where
  "skip_space 0 s m = Inl Out_of_fuel"
| "skip_space (Suc n) s m =
     ebind (rd m s) (\<lambda>x. if isspace (uint x) then skip_space n (s + 1) m else Inr s)"

fun parse_digits :: "nat \<Rightarrow> addr \<Rightarrow> u32 \<Rightarrow> mem \<Rightarrow> u32 res" where
  "parse_digits 0 s value m = Inl Out_of_fuel"
| "parse_digits (Suc n) s value m =
     ebind (rd m s) (\<lambda>x.
     if isdigit (sint x) then parse_digits n (s + 1) (value * 10 - word_of_int (sint x - 48)) m
     else Inr value)"

definition atoi :: "nat \<Rightarrow> addr \<Rightarrow> mem \<Rightarrow> int res" where
  "atoi n s m =
     ebind (kassert (s \<noteq> 0)) (\<lambda>_.
     ebind (skip_space n s m) (\<lambda>s.
     ebind (rd m s) (\<lambda>x.
     let (negative, s) = (if x = 43 then (False, s + 1) else if x = 45 then (True, s + 1) else (False, s))
     in ebind (parse_digits n s 0 m) (\<lambda>value.
        Inr (sint (if \<not> negative then - value else value))))))"

section \<open>Heap sort\<close>

type_synonym elem = "u8 list"

definition elem_at :: "elem list \<Rightarrow> nat \<Rightarrow> elem res" where
  "elem_at array i = (if 1 \<le> i \<and> i \<le> length array then Inr (array ! (i - 1)) else Inl Bad_access)"

text \<open>The byte loop of \<open>do_swap\<close>, on the elements at positions \<open>a\<close> and \<open>b\<close>.\<close>

fun do_swap_loop :: "elem list \<Rightarrow> nat \<Rightarrow> nat \<Rightarrow> nat \<Rightarrow> nat \<Rightarrow> elem list" where
  "do_swap_loop array a b i 0 = array"
| "do_swap_loop array a b i (Suc n) =
     (let t = array ! a ! i;
          array = array[a := (array ! a)[i := array ! b ! i]];
          array = array[b := (array ! b)[i := t]]
      in do_swap_loop array a b (i + 1) n)"

definition do_swap :: "elem list \<Rightarrow> nat \<Rightarrow> nat \<Rightarrow> nat \<Rightarrow> elem list res" where
  "do_swap array a_idx b_idx sz =
     ebind (elem_at array a_idx) (\<lambda>_. ebind (elem_at array b_idx) (\<lambda>_.
     Inr (do_swap_loop array (a_idx - 1) (b_idx - 1) 0 sz)))"

definition do_compare :: "elem list \<Rightarrow> nat \<Rightarrow> nat \<Rightarrow> (elem \<Rightarrow> elem \<Rightarrow> int) \<Rightarrow> int res" where
  "do_compare array a_idx b_idx compare =
     ebind (elem_at array a_idx) (\<lambda>a. ebind (elem_at array b_idx) (\<lambda>b. Inr (compare a b)))"

text \<open>The part of an iteration of \<open>heapify\<close> that sets \<open>max\<close>.\<close>

definition heapify_max :: "elem list \<Rightarrow> nat \<Rightarrow> nat \<Rightarrow> (elem \<Rightarrow> elem \<Rightarrow> int) \<Rightarrow> nat res" where
  "heapify_max array i cnt compare =
     (let left = 2 * i; right = 2 * i + 1
      in ebind (if left \<le> cnt then ebind (do_compare array left i compare)
                  (\<lambda>c. Inr (if c > 0 then left else i)) else Inr i) (\<lambda>mx.
         if right \<le> cnt then ebind (do_compare array right mx compare)
           (\<lambda>c. Inr (if c > 0 then right else mx)) else Inr mx))"

lemma elem_at_Inr: "elem_at array i = Inr x \<longleftrightarrow> 1 \<le> i \<and> i \<le> length array \<and> x = array ! (i - 1)"
  by (auto simp: elem_at_def)

lemma heapify_max_gt:
  "heapify_max array i cnt compare = Inr mx \<Longrightarrow> mx \<noteq> i \<Longrightarrow> i < mx \<and> mx \<le> cnt"
  by (auto simp: heapify_max_def do_compare_def elem_at_Inr ebind_eq_Inr Let_def split: if_splits)

function heapify :: "elem list \<Rightarrow> nat \<Rightarrow> nat \<Rightarrow> nat \<Rightarrow> (elem \<Rightarrow> elem \<Rightarrow> int) \<Rightarrow> elem list res" where
  "heapify array i cnt sz compare =
     ebind (heapify_max array i cnt compare) (\<lambda>mx.
     if mx = i then Inr array
     else ebind (do_swap array i mx sz) (\<lambda>array. heapify array mx cnt sz compare))"
  by auto

termination
  by (relation "measure (\<lambda>(array, i, cnt, sz, compare). cnt - i)") (auto dest: heapify_max_gt)

declare heapify.simps [simp del]

fun sort_build :: "elem list \<Rightarrow> nat \<Rightarrow> nat \<Rightarrow> nat \<Rightarrow> (elem \<Rightarrow> elem \<Rightarrow> int) \<Rightarrow> elem list res" where
  "sort_build array 0 cnt sz compare = Inr array"
| "sort_build array (Suc i) cnt sz compare =
     ebind (heapify array (Suc i) cnt sz compare) (\<lambda>array. sort_build array i cnt sz compare)"

function sort_extract :: "elem list \<Rightarrow> nat \<Rightarrow> nat \<Rightarrow> (elem \<Rightarrow> elem \<Rightarrow> int) \<Rightarrow> elem list res" where
  "sort_extract array i sz compare =
     (if i > 1 then
        ebind (do_swap array 1 i sz) (\<lambda>array.
        ebind (heapify array 1 (i - 1) sz compare) (\<lambda>array. sort_extract array (i - 1) sz compare))
      else Inr array)"
  by auto

termination by (relation "measure (\<lambda>(array, i, sz, compare). i)") auto

declare sort_extract.simps [simp del]

definition sort :: "elem list \<Rightarrow> nat \<Rightarrow> (elem \<Rightarrow> elem \<Rightarrow> int) \<Rightarrow> elem list res" where
  "sort array sz compare =
     (let cnt = length array
      in ebind (kassert (sz > 0)) (\<lambda>_.
         ebind (sort_build array (cnt div 2) cnt sz compare) (\<lambda>array.
         sort_extract array cnt sz compare)))"

definition qsort :: "elem list \<Rightarrow> nat \<Rightarrow> (elem \<Rightarrow> elem \<Rightarrow> int) \<Rightarrow> elem list res" where
  "qsort array sz compare = sort array sz compare"

section \<open>Binary search\<close>

lemma middle_lt: "first < l \<Longrightarrow> sz > 0 \<Longrightarrow> first + ((l - first) div sz div 2) * sz < (l :: nat)"
proof -
  assume "first < l" "sz > 0"
  have "(l - first) div sz div 2 * sz \<le> (l - first) div 2 div sz * sz"
    by (simp add: div_mult2_eq[symmetric] mult.commute)
  also have "\<dots> \<le> (l - first) div 2" by simp
  also have "\<dots> < l - first" using \<open>first < l\<close> by simp
  finally show ?thesis using \<open>first < l\<close> by simp
qed

function binary_search_loop ::
  "'k \<Rightarrow> addr \<Rightarrow> addr \<Rightarrow> nat \<Rightarrow> ('k \<Rightarrow> 'e \<Rightarrow> int) \<Rightarrow> (addr \<Rightarrow> 'e) \<Rightarrow> addr res" where
  "binary_search_loop key first last' sz compare obj =
     (if first < last' then
        if sz = 0 then Inl Divide_error
        else let range = (last' - first) div sz;
                 middle = first + (range div 2) * sz;
                 cmp = compare key (obj middle)
             in if cmp < 0 then binary_search_loop key first middle sz compare obj
                else if cmp > 0 then binary_search_loop key (middle + sz) last' sz compare obj
                else Inr middle
      else Inr 0)"
  by auto

termination
proof (relation "measure (\<lambda>(key, first, l, sz, compare, obj). l - first)", goal_cases)
  case (2 key first l sz compare obj range middle cmp)
  then show ?case using middle_lt[of first l sz] by (simp add: less_diff_conv add.commute)
next
  case (3 key first l sz compare obj range middle cmp)
  then show ?case by (auto intro!: diff_less_mono2)
qed simp

declare binary_search_loop.simps [simp del]

definition binary_search :: "'k \<Rightarrow> addr \<Rightarrow> nat \<Rightarrow> nat \<Rightarrow> ('k \<Rightarrow> 'e \<Rightarrow> int) \<Rightarrow> (addr \<Rightarrow> 'e) \<Rightarrow> addr res" where
  "binary_search key array cnt sz compare obj =
     binary_search_loop key array (array + sz * cnt) sz compare obj"

definition bsearch :: "'k \<Rightarrow> addr \<Rightarrow> nat \<Rightarrow> nat \<Rightarrow> ('k \<Rightarrow> 'e \<Rightarrow> int) \<Rightarrow> (addr \<Rightarrow> 'e) \<Rightarrow> addr res" where
  "bsearch key array cnt sz compare obj = binary_search key array cnt sz compare obj"

section \<open>Comparison functions\<close>

locale comparator =
  fixes compare :: "elem \<Rightarrow> elem \<Rightarrow> int"
  assumes compare_anti: "compare a b > 0 \<longleftrightarrow> compare b a < 0"
    and compare_trans: "compare a b \<le> 0 \<Longrightarrow> compare b c \<le> 0 \<Longrightarrow> compare a c \<le> 0"
begin

lemma compare_refl [simp]: "compare a a \<le> 0"
  using compare_anti[of a a] by linarith

lemma compare_total: "\<not> compare a b \<le> 0 \<Longrightarrow> compare b a \<le> 0"
  using compare_anti[of a b] by linarith

end

lemma diff_sign_trans: "diff_sign a b \<le> 0 \<Longrightarrow> diff_sign b c \<le> 0 \<Longrightarrow> diff_sign a c \<le> 0"
proof (induction a b arbitrary: c rule: diff_sign.induct)
  case (1 x xs y ys)
  then show ?case by (cases c) (auto split: if_splits)
next
  case (3 y ys)
  then show ?case by (cases c) auto
qed (simp_all split: if_splits)

interpretation str: comparator diff_sign
proof
  show "diff_sign a b > 0 \<longleftrightarrow> diff_sign b a < 0" for a b using diff_sign_anti[of a b] by linarith
qed (rule diff_sign_trans)

section \<open>Heaps\<close>

lemma do_swap_loop_ok:
  assumes "a < length xs" "b < length xs" "length (xs ! a) = length (xs ! b)"
  shows "i + n = length (xs ! a) \<Longrightarrow> do_swap_loop xs a b i n
     = xs[a := take i (xs ! a) @ drop i (xs ! b), b := take i (xs ! b) @ drop i (xs ! a)]"
  using assms
proof (induction n arbitrary: xs i)
  case 0
  then show ?case by simp
next
  case (Suc n)
  define ys where "ys = xs[a := (xs ! a)[i := xs ! b ! i]]"
  define zs where "zs = ys[b := (ys ! b)[i := xs ! a ! i]]"
  have i: "i < length (xs ! a)" "i < length (xs ! b)" using Suc.prems by simp_all
  have zs: "length zs = length xs" "zs ! a = (xs ! a)[i := xs ! b ! i]" "zs ! b = (xs ! b)[i := xs ! a ! i]"
    using Suc.prems by (cases "a = b"; auto simp: zs_def ys_def)+
  have step: "do_swap_loop zs a b (i + 1) n
      = zs[a := take (i + 1) (zs ! a) @ drop (i + 1) (zs ! b), b := take (i + 1) (zs ! b) @ drop (i + 1) (zs ! a)]"
    using Suc.prems zs by (intro Suc.IH) auto
  have "take (i + 1) (zs ! a) @ drop (i + 1) (zs ! b) = take i (xs ! a) @ drop i (xs ! b)"
    "take (i + 1) (zs ! b) @ drop (i + 1) (zs ! a) = take i (xs ! b) @ drop i (xs ! a)"
    using i by (simp_all add: zs take_Suc_conv_app_nth Cons_nth_drop_Suc[symmetric])
  moreover have "do_swap_loop xs a b i (Suc n) = do_swap_loop zs a b (i + 1) n"
    by (simp add: zs_def ys_def Let_def)
  moreover have "zs[a := u, b := v] = xs[a := u, b := v]" for u v
    using Suc.prems(2,3) by (intro nth_equalityI) (auto simp: zs_def ys_def nth_list_update)
  ultimately show ?case using step by simp
qed

definition swapped :: "'a list \<Rightarrow> nat \<Rightarrow> nat \<Rightarrow> 'a list" where
  "swapped xs i j = xs[i - 1 := xs ! (j - 1), j - 1 := xs ! (i - 1)]"

lemma do_swap_ok:
  assumes "1 \<le> i" "i \<le> length xs" "1 \<le> j" "j \<le> length xs" "\<forall>x\<in>set xs. length x = sz"
  shows "do_swap xs i j sz = Inr (swapped xs i j)"
proof -
  have "i - 1 < length xs" "j - 1 < length xs" using assms by auto
  then show ?thesis
    using assms do_swap_loop_ok[of "i - 1" xs "j - 1" 0 sz]
    by (simp add: do_swap_def elem_at_def swapped_def)
qed

text \<open>The value at a 1-based position, and the elements that a swap leaves.\<close>

definition val :: "'a list \<Rightarrow> nat \<Rightarrow> 'a" where
  "val xs k = xs ! (k - 1)"

lemma length_swapped [simp]: "length (swapped xs i j) = length xs"
  by (simp add: swapped_def)

lemma val_swapped:
  assumes "1 \<le> i" "i \<le> length xs" "1 \<le> j" "j \<le> length xs" "1 \<le> k"
  shows "val (swapped xs i j) k = (if k = i then val xs j else if k = j then val xs i else val xs k)"
  using assms by (auto simp: val_def swapped_def nth_list_update)

lemma swapped_tail:
  assumes "1 \<le> i" "i \<le> c" "1 \<le> j" "j \<le> c" "c \<le> length xs"
  shows "drop c (swapped xs i j) = drop c xs" "mset (take c (swapped xs i j)) = mset (take c xs)"
proof -
  show "drop c (swapped xs i j) = drop c xs" using assms by (simp add: swapped_def)
  have "take c (swapped xs i j) = swapped (take c xs) i j"
    using assms by (simp add: swapped_def take_update_swap)
  also have "mset (swapped (take c xs) i j) = mset (take c xs)"
    using assms unfolding swapped_def by (intro mset_swap) auto
  finally show "mset (take c (swapped xs i j)) = mset (take c xs)" .
qed

text \<open>Two arrays with the same elements up to position \<open>c\<close>, in any order, and equal after it.\<close>

definition perm_upto :: "nat \<Rightarrow> 'a list \<Rightarrow> 'a list \<Rightarrow> bool" where
  "perm_upto c xs ys \<longleftrightarrow> length xs = length ys \<and> mset (take c xs) = mset (take c ys) \<and> drop c xs = drop c ys"

lemma perm_upto_refl [simp]: "perm_upto c xs xs"
  by (simp add: perm_upto_def)

lemma perm_upto_trans: "perm_upto c xs ys \<Longrightarrow> perm_upto c ys zs \<Longrightarrow> perm_upto c xs zs"
  by (simp add: perm_upto_def)

lemma perm_upto_mset: "perm_upto c xs ys \<Longrightarrow> mset xs = mset ys"
  by (metis append_take_drop_id mset_append perm_upto_def)

lemma perm_upto_set: "perm_upto c xs ys \<Longrightarrow> set xs = set ys"
  by (metis perm_upto_mset mset_eq_setD)

lemma perm_upto_swapped:
  assumes "1 \<le> i" "i \<le> c" "1 \<le> j" "j \<le> c" "c \<le> length xs"
  shows "perm_upto c xs (swapped xs i j)"
  using swapped_tail[OF assms] by (simp add: perm_upto_def)

lemma perm_upto_val: "perm_upto c xs ys \<Longrightarrow> c < k \<Longrightarrow> k \<le> length xs \<Longrightarrow> val xs k = val ys k"
proof -
  assume p: "perm_upto c xs ys" "c < k" "k \<le> length xs"
  then have "drop c xs ! (k - 1 - c) = drop c ys ! (k - 1 - c)" by (simp add: perm_upto_def)
  then show ?thesis using p by (simp add: val_def perm_upto_def)
qed

lemma perm_upto_ex:
  assumes "perm_upto c xs ys" "1 \<le> k" "k \<le> c" "c \<le> length xs"
  shows "\<exists>l. 1 \<le> l \<and> l \<le> c \<and> val ys k = val xs l"
proof -
  have "val ys k \<in> set (take c ys)"
    using assms by (auto simp: val_def perm_upto_def in_set_conv_nth intro!: exI[of _ "k - 1"])
  then have "val ys k \<in> set (take c xs)" using assms(1) by (metis mset_eq_setD perm_upto_def)
  then obtain l where "l < c" "val ys k = xs ! l" using assms(4) by (auto simp: in_set_conv_nth)
  then show ?thesis by (intro exI[of _ "Suc l"]) (simp add: val_def)
qed

text \<open>\<open>heap_from\<close>: every element whose parent is at \<open>lo\<close> or later is at most its parent;
  \<open>heap_except\<close>: that is so except for the children of \<open>i\<close>, which are at most the parent of \<open>i\<close>.\<close>

definition heap_from :: "(elem \<Rightarrow> elem \<Rightarrow> int) \<Rightarrow> nat \<Rightarrow> nat \<Rightarrow> elem list \<Rightarrow> bool" where
  "heap_from compare lo c xs \<longleftrightarrow>
     (\<forall>j\<le>c. lo \<le> j div 2 \<longrightarrow> compare (val xs j) (val xs (j div 2)) \<le> 0)"

definition heap_except :: "(elem \<Rightarrow> elem \<Rightarrow> int) \<Rightarrow> nat \<Rightarrow> nat \<Rightarrow> nat \<Rightarrow> elem list \<Rightarrow> bool" where
  "heap_except compare lo c i xs \<longleftrightarrow>
     (\<forall>j\<le>c. lo \<le> j div 2 \<longrightarrow> j div 2 \<noteq> i \<longrightarrow> compare (val xs j) (val xs (j div 2)) \<le> 0) \<and>
     (\<forall>j\<le>c. j div 2 = i \<longrightarrow> lo \<le> i div 2 \<longrightarrow> compare (val xs j) (val xs (i div 2)) \<le> 0)"

lemma div2_children: "j div 2 = (i :: nat) \<longleftrightarrow> j = 2 * i \<or> j = 2 * i + 1"
  by auto

text \<open>What a search for \<open>key\<close> in \<open>xs\<close>, stored at \<open>array\<close>, must return.\<close>

definition found :: "(elem \<Rightarrow> elem \<Rightarrow> int) \<Rightarrow> elem \<Rightarrow> elem list \<Rightarrow> addr \<Rightarrow> nat \<Rightarrow> addr \<Rightarrow> bool" where
  "found compare key xs array sz p \<longleftrightarrow>
     (if \<exists>x\<in>set xs. compare key x = 0
      then \<exists>k<length xs. p = array + k * sz \<and> compare key (xs ! k) = 0 else p = 0)"

context comparator
begin

lemma heapify_max_ok:
  assumes "1 \<le> i" "i \<le> c" "c \<le> length xs"
  obtains mx where "heapify_max xs i c compare = Inr mx" "mx = i \<or> mx div 2 = i" "mx \<le> c"
    "\<forall>j\<le>c. j div 2 = i \<longrightarrow> compare (val xs j) (val xs mx) \<le> 0" "compare (val xs i) (val xs mx) \<le> 0"
proof -
  have at: "elem_at xs k = Inr (val xs k)" if "1 \<le> k" "k \<le> c" for k
    using that assms by (simp add: elem_at_def val_def)
  define m1 where "m1 = (if 2 * i \<le> c \<and> compare (val xs (2 * i)) (val xs i) > 0 then 2 * i else i)"
  define m2 where "m2 = (if 2 * i + 1 \<le> c \<and> compare (val xs (2 * i + 1)) (val xs m1) > 0 then 2 * i + 1 else m1)"
  have m1: "1 \<le> m1" "m1 \<le> c" using assms by (auto simp: m1_def)
  have "(if 2 * i \<le> c then ebind (do_compare xs (2 * i) i compare)
          (\<lambda>c. Inr (if c > 0 then 2 * i else i)) else Inr i) = Inr m1"
    using assms(1,2) by (simp add: do_compare_def at m1_def)
  then have "heapify_max xs i c compare = Inr m2"
    unfolding heapify_max_def Let_def using assms(1) m1 by (simp add: do_compare_def at m2_def)
  moreover have le1: "compare (val xs i) (val xs m1) \<le> 0" "2 * i \<le> c \<Longrightarrow> compare (val xs (2 * i)) (val xs m1) \<le> 0"
    using compare_total by (auto simp: m1_def)
  have m12: "compare (val xs m1) (val xs m2) \<le> 0" "2 * i + 1 \<le> c \<Longrightarrow> compare (val xs (2 * i + 1)) (val xs m2) \<le> 0"
    using compare_total by (auto simp: m2_def)
  have "compare (val xs i) (val xs m2) \<le> 0" using le1(1) m12(1) by (rule compare_trans)
  moreover have "\<forall>j\<le>c. j div 2 = i \<longrightarrow> compare (val xs j) (val xs m2) \<le> 0"
    using le1(2) m12 compare_trans by (auto simp: div2_children)
  moreover have "m2 = i \<or> m2 div 2 = i" "m2 \<le> c" using assms by (auto simp: m1_def m2_def)
  ultimately show ?thesis by (intro that)
qed

lemma heapify_step:
  assumes h: "heap_except compare lo c i xs" and i: "1 \<le> i" "i \<le> c" "c \<le> length xs" "1 \<le> lo"
    and mx: "mx div 2 = i" "mx \<le> c" "\<forall>j\<le>c. j div 2 = i \<longrightarrow> compare (val xs j) (val xs mx) \<le> 0"
      "compare (val xs i) (val xs mx) \<le> 0"
  shows "heap_except compare lo c mx (swapped xs i mx)"
proof -
  have v: "val (swapped xs i mx) k = (if k = i then val xs mx else if k = mx then val xs i else val xs k)"
    if "1 \<le> k" for k using val_swapped[of i xs mx k] i mx that by auto
  have h1: "compare (val xs j) (val xs (j div 2)) \<le> 0" if "j \<le> c" "lo \<le> j div 2" "j div 2 \<noteq> i" for j
    using h that by (simp add: heap_except_def)
  have h2: "compare (val xs j) (val xs (i div 2)) \<le> 0" if "j \<le> c" "j div 2 = i" "lo \<le> i div 2" for j
    using h that by (simp add: heap_except_def)
  show ?thesis unfolding heap_except_def
  proof (intro conjI allI impI)
    fix j assume j: "j \<le> c" "lo \<le> j div 2" "j div 2 \<noteq> mx"
    then have "1 \<le> j div 2" "1 \<le> j" using i(4) by linarith+
    then show "compare (val (swapped xs i mx) j) (val (swapped xs i mx) (j div 2)) \<le> 0"
      using j mx h1[of j] h2[of mx] by (auto simp: v)
  next
    fix j assume j: "j \<le> c" "j div 2 = mx" "lo \<le> mx div 2"
    then have "1 \<le> j" "j \<noteq> i" "j \<noteq> mx" "mx \<noteq> i" using mx i by auto
    then show "compare (val (swapped xs i mx) j) (val (swapped xs i mx) (mx div 2)) \<le> 0"
      using j mx i h1[of j] by (auto simp: v)
  qed
qed

lemma heapify_ok:
  "heap_except compare lo c i xs \<Longrightarrow> 1 \<le> i \<Longrightarrow> i \<le> c \<Longrightarrow> c \<le> length xs \<Longrightarrow> 1 \<le> lo \<Longrightarrow>
   \<forall>x\<in>set xs. length x = sz \<Longrightarrow>
   \<exists>ys. heapify xs i c sz compare = Inr ys \<and> perm_upto c xs ys \<and> heap_from compare lo c ys"
proof (induction "c - i" arbitrary: xs i rule: less_induct)
  case less
  obtain mx where mx: "heapify_max xs i c compare = Inr mx" "mx = i \<or> mx div 2 = i" "mx \<le> c"
    "\<forall>j\<le>c. j div 2 = i \<longrightarrow> compare (val xs j) (val xs mx) \<le> 0" "compare (val xs i) (val xs mx) \<le> 0"
    using heapify_max_ok[OF less.prems(2-4)] by blast
  show ?case
  proof (cases "mx = i")
    case True
    then have "heap_from compare lo c xs"
      using less.prems(1) mx(4) by (auto simp: heap_from_def heap_except_def)
    then show ?thesis using True mx(1) by (simp add: heapify.simps[of xs i])
  next
    case False
    let ?ys = "swapped xs i mx"
    have mi: "mx div 2 = i" "i < mx" using False mx(2) less.prems(2) by auto
    have swap: "do_swap xs i mx sz = Inr ?ys"
      using less.prems mx(3) mi by (intro do_swap_ok) auto
    have perm: "perm_upto c xs ?ys"
      using less.prems mx(3) mi by (intro perm_upto_swapped) auto
    have "heap_except compare lo c mx ?ys"
      using less.prems(1-5) mi(1) mx(3-5) by (rule heapify_step)
    moreover have "\<forall>x\<in>set ?ys. length x = sz" using less.prems(6) perm_upto_set[OF perm] by simp
    moreover have "c - mx < c - i" "1 \<le> mx" "c \<le> length ?ys" using mi(2) mx(3) less.prems by auto
    ultimately obtain zs where "heapify ?ys mx c sz compare = Inr zs" "perm_upto c ?ys zs" "heap_from compare lo c zs"
      using less.hyps[of mx ?ys] mx(3) less.prems(5) by blast
    then show ?thesis
      using mx(1) False swap perm_upto_trans[OF perm] by (simp add: heapify.simps[of xs i])
  qed
qed

lemma sort_build_ok:
  "heap_from compare (Suc i) c xs \<Longrightarrow> 2 * i \<le> c \<Longrightarrow> c \<le> length xs \<Longrightarrow> \<forall>x\<in>set xs. length x = sz \<Longrightarrow>
   \<exists>ys. sort_build xs i c sz compare = Inr ys \<and> perm_upto c xs ys \<and> heap_from compare 1 c ys"
proof (induction i arbitrary: xs)
  case (Suc i)
  have "heap_except compare (Suc i) c (Suc i) xs"
    using Suc.prems(1) by (auto simp: heap_from_def heap_except_def)
  then obtain ys where ys: "heapify xs (Suc i) c sz compare = Inr ys" "perm_upto c xs ys"
      "heap_from compare (Suc i) c ys"
    using heapify_ok[of "Suc i" c "Suc i" xs sz] Suc.prems by auto
  then have "\<forall>x\<in>set ys. length x = sz" "c \<le> length ys"
    using Suc.prems(3,4) perm_upto_set[OF ys(2)] by (auto simp: perm_upto_def)
  then obtain zs where "sort_build ys i c sz compare = Inr zs" "perm_upto c ys zs" "heap_from compare 1 c zs"
    using Suc.IH[OF ys(3)] Suc.prems(2) by auto
  then show ?case using ys perm_upto_trans by (auto intro: perm_upto_trans)
qed auto

lemma heap_root_max:
  assumes "heap_from compare 1 c xs"
  shows "1 \<le> k \<Longrightarrow> k \<le> c \<Longrightarrow> compare (val xs k) (val xs 1) \<le> 0"
proof (induction k rule: less_induct)
  case (less k)
  show ?case
  proof (cases "k = 1")
    case False
    then have k: "k div 2 < k" "1 \<le> k div 2" "k div 2 \<le> c" using less.prems by auto
    then have "compare (val xs k) (val xs (k div 2)) \<le> 0" using assms less.prems by (simp add: heap_from_def)
    then show ?thesis using less.IH[OF k] by (rule compare_trans)
  qed simp
qed

text \<open>The invariant of the second loop: a heap, then the sorted rest, which is at least the heap.\<close>

definition heap_sorted :: "nat \<Rightarrow> elem list \<Rightarrow> bool" where
  "heap_sorted i xs \<longleftrightarrow> heap_from compare 1 i xs \<and>
     (\<forall>j k. 1 \<le> j \<and> j < k \<and> i < k \<and> k \<le> length xs \<longrightarrow> compare (val xs j) (val xs k) \<le> 0)"

lemma extract_step:
  assumes h: "heap_sorted i xs" and i: "1 < i" "i \<le> length xs" and sz: "\<forall>x\<in>set xs. length x = sz"
  shows "\<exists>ys. heapify (swapped xs 1 i) 1 (i - 1) sz compare = Inr ys \<and> heap_sorted (i - 1) ys \<and>
           mset ys = mset xs \<and> length ys = length xs"
proof -
  let ?ys = "swapped xs 1 i"
  have v: "val ?ys k = (if k = 1 then val xs i else if k = i then val xs 1 else val xs k)" if "1 \<le> k" for k
    using val_swapped[of 1 xs i k] i that by auto
  have hf: "heap_from compare 1 i xs" using h by (simp add: heap_sorted_def)
  have hle: "compare (val xs j) (val xs (j div 2)) \<le> 0" if "j \<le> i - 1" "1 \<le> j div 2" for j
    using hf that by (auto simp: heap_from_def)
  have he: "heap_except compare 1 (i - 1) 1 ?ys" unfolding heap_except_def
  proof (intro conjI allI impI)
    fix j assume j: "j \<le> i - 1" "1 \<le> j div 2" "j div 2 \<noteq> 1"
    then have "j \<noteq> 1" "j \<noteq> i" "j div 2 \<noteq> i" "1 \<le> j" using i by auto
    then show "compare (val ?ys j) (val ?ys (j div 2)) \<le> 0" using j hle[OF j(1,2)] by (simp add: v del: One_nat_def)
  qed simp
  have perm: "perm_upto i xs ?ys" using i by (intro perm_upto_swapped) auto
  have ys: "\<forall>x\<in>set ?ys. length x = sz" "1 \<le> i - 1" "i - 1 \<le> length ?ys"
    using sz perm_upto_set[OF perm] i by auto
  then obtain zs where zs: "heapify ?ys 1 (i - 1) sz compare = Inr zs" "perm_upto (i - 1) ?ys zs"
      "heap_from compare 1 (i - 1) zs"
    using heapify_ok[OF he order_refl] by blast
  have len: "length zs = length xs" "mset zs = mset xs"
    using zs(2) perm_upto_mset[OF perm] perm_upto_mset[OF zs(2)] by (auto simp: perm_upto_def)
  have "compare (val zs j) (val zs k) \<le> 0" if jk: "1 \<le> j" "j < k" "i - 1 < k" "k \<le> length zs" for j k
  proof -
    have vk: "val zs k = (if k = i then val xs 1 else val xs k)"
      using perm_upto_val[OF zs(2) jk(3)] v[of k] jk i len(1) by auto
    have "\<exists>l\<ge>1. val zs j = val xs l \<and> (l \<le> i \<or> l = j)"
    proof (cases "j \<le> i - 1")
      case True
      obtain l where "1 \<le> l" "l \<le> i - 1" "val zs j = val ?ys l"
        using perm_upto_ex[OF zs(2) jk(1) True ys(3)] by blast
      then show ?thesis using v[of l] i by (intro exI[of _ "if l = 1 then i else l"]) auto
    next
      case False
      then show ?thesis
        using perm_upto_val[OF zs(2), of j] v[of j] jk i len(1) by (intro exI[of _ "if j = i then 1 else j"]) auto
    qed
    then obtain l where l: "1 \<le> l" "val zs j = val xs l" "l \<le> i \<or> l = j" by blast
    show ?thesis
    proof (cases "k = i")
      case True
      then have "l \<le> i" using l(3) jk by auto
      then show ?thesis using heap_root_max[OF hf l(1)] l(2) vk True by simp
    next
      case False
      then have "l < k" "i < k" using l(3) jk by auto
      then have "compare (val xs l) (val xs k) \<le> 0"
        using h l(1) jk(4) len(1) unfolding heap_sorted_def by auto
      then show ?thesis using l(2) vk False by simp
    qed
  qed
  then show ?thesis using zs len by (auto simp: heap_sorted_def)
qed

lemma sort_extract_ok:
  "heap_sorted i xs \<Longrightarrow> i \<le> length xs \<Longrightarrow> \<forall>x\<in>set xs. length x = sz \<Longrightarrow>
   \<exists>ys. sort_extract xs i sz compare = Inr ys \<and> mset ys = mset xs \<and>
     sorted_wrt (\<lambda>a b. compare a b \<le> 0) ys"
proof (induction i arbitrary: xs rule: less_induct)
  case (less i)
  show ?case
  proof (cases "i > 1")
    case True
    obtain ys where ys: "heapify (swapped xs 1 i) 1 (i - 1) sz compare = Inr ys" "heap_sorted (i - 1) ys"
        "mset ys = mset xs" "length ys = length xs"
      using extract_step[OF less.prems(1) True less.prems(2,3)] by blast
    have "\<forall>x\<in>set ys. length x = sz" "i - 1 \<le> length ys" "i - 1 < i"
      using mset_eq_setD[OF ys(3)] ys(4) less.prems True by auto
    then obtain zs where "sort_extract ys (i - 1) sz compare = Inr zs" "mset zs = mset ys"
        "sorted_wrt (\<lambda>a b. compare a b \<le> 0) zs"
      using less.IH[OF _ ys(2)] by blast
    moreover have "do_swap xs 1 i sz = Inr (swapped xs 1 i)"
      using True less.prems(2,3) by (intro do_swap_ok) auto
    ultimately show ?thesis using True ys by (simp add: sort_extract.simps[of xs i])
  next
    case False
    have "compare (xs ! j) (xs ! k) \<le> 0" if "j < k" "k < length xs" for j k
    proof -
      have "1 \<le> Suc j \<and> Suc j < Suc k \<and> i < Suc k \<and> Suc k \<le> length xs" using False that by auto
      then have "compare (val xs (Suc j)) (val xs (Suc k)) \<le> 0"
        using less.prems(1) unfolding heap_sorted_def by blast
      then show ?thesis by (simp add: val_def)
    qed
    then show ?thesis using False by (simp add: sort_extract.simps[of xs i] sorted_wrt_iff_nth_less)
  qed
qed

lemma sort_ok:
  assumes "\<forall>x\<in>set xs. length x = sz" "sz > 0"
  shows "\<exists>ys. sort xs sz compare = Inr ys \<and> mset ys = mset xs \<and> sorted_wrt (\<lambda>a b. compare a b \<le> 0) ys"
proof -
  let ?c = "length xs"
  have "heap_from compare (Suc (?c div 2)) ?c xs" by (auto simp: heap_from_def)
  then obtain ys where ys: "sort_build xs (?c div 2) ?c sz compare = Inr ys" "perm_upto ?c xs ys"
      "heap_from compare 1 ?c ys"
    using sort_build_ok[of "?c div 2" ?c xs sz] assms(1) by auto
  then have "heap_sorted ?c ys" "length ys = ?c" by (auto simp: heap_sorted_def perm_upto_def)
  then obtain zs where "sort_extract ys ?c sz compare = Inr zs" "mset zs = mset ys"
      "sorted_wrt (\<lambda>a b. compare a b \<le> 0) zs"
    using sort_extract_ok[of ?c ys sz] assms(1) perm_upto_set[OF ys(2)] by auto
  then show ?thesis using ys(1) perm_upto_mset[OF ys(2)] assms(2) by (simp add: sort_def)
qed

lemma compare_less_le: "compare a b < 0 \<Longrightarrow> compare b c \<le> 0 \<Longrightarrow> compare a c < 0"
  using compare_trans[of b c a] compare_anti[of b a] compare_anti[of c a] by linarith

lemma compare_greater_ge: "compare a b > 0 \<Longrightarrow> compare c b \<le> 0 \<Longrightarrow> compare a c > 0"
  using compare_less_le[of b a c] compare_trans[of a c b] compare_anti[of a b] by linarith

lemma binary_search_loop_ok:
  assumes obj: "\<forall>k<length xs. obj (array + k * sz) = xs ! k" and sz: "sz > 0"
    and sorted: "sorted_wrt (\<lambda>a b. compare a b \<le> 0) xs"
  shows "lo \<le> hi \<Longrightarrow> hi \<le> length xs \<Longrightarrow> \<forall>k<lo. compare key (xs ! k) > 0 \<Longrightarrow>
     \<forall>k<length xs. hi \<le> k \<longrightarrow> compare key (xs ! k) < 0 \<Longrightarrow>
     \<exists>p. binary_search_loop key (array + lo * sz) (array + hi * sz) sz compare obj = Inr p \<and>
       found compare key xs array sz p"
proof (induction "hi - lo" arbitrary: lo hi rule: less_induct)
  case less
  show ?case
  proof (cases "lo < hi")
    case False
    then have "compare key (xs ! k) \<noteq> 0" if "k < length xs" for k
      using less.prems that by (cases "k < lo") force+
    then have "found compare key xs array sz 0" by (auto simp: found_def in_set_conv_nth)
    moreover have "hi = lo" using False less.prems(1) by simp
    ultimately show ?thesis by (simp add: binary_search_loop.simps)
  next
    case True
    define mid where "mid = lo + (hi - lo) div 2"
    have mid: "lo \<le> mid" "mid < hi" using True by (auto simp: mid_def)
    have eq: "binary_search_loop key (array + lo * sz) (array + hi * sz) sz compare obj =
        (if compare key (xs ! mid) < 0 then binary_search_loop key (array + lo * sz) (array + mid * sz) sz compare obj
         else if compare key (xs ! mid) > 0
         then binary_search_loop key (array + Suc mid * sz) (array + hi * sz) sz compare obj
         else Inr (array + mid * sz))"
    proof -
      have "(array + hi * sz - (array + lo * sz)) div sz = hi - lo"
        using sz by (simp add: diff_mult_distrib[symmetric])
      moreover have "array + lo * sz + (hi - lo) div 2 * sz = array + mid * sz"
        by (simp add: mid_def distrib_right)
      moreover have "obj (array + mid * sz) = xs ! mid" using obj mid less.prems(2) by simp
      ultimately show ?thesis
        using True sz by (subst binary_search_loop.simps) (simp add: Let_def ac_simps)
    qed
    have ord: "compare (xs ! i) (xs ! j) \<le> 0" if "i \<le> j" "j < length xs" for i j
      using sorted that by (cases "i = j") (auto simp: sorted_wrt_iff_nth_less)
    consider "compare key (xs ! mid) < 0" | "compare key (xs ! mid) > 0" | "compare key (xs ! mid) = 0"
      by linarith
    then show ?thesis
    proof cases
      case 1
      then have "\<forall>k<length xs. mid \<le> k \<longrightarrow> compare key (xs ! k) < 0" using ord compare_less_le by blast
      then show ?thesis using 1 eq less.hyps[of mid lo] mid less.prems by auto
    next
      case 2
      then have "\<forall>k<Suc mid. compare key (xs ! k) > 0"
        using ord[of _ mid] compare_greater_ge mid less.prems(2) by (auto simp: less_Suc_eq_le)
      moreover have "hi - Suc mid < hi - lo" "Suc mid \<le> hi" using mid by auto
      ultimately show ?thesis using 2 eq less.hyps[of hi "Suc mid"] less.prems(2,4) by auto
    next
      case 3
      moreover have "mid < length xs" using mid less.prems(2) by simp
      ultimately show ?thesis using eq by (auto simp: found_def intro!: exI[of _ mid])
    qed
  qed
qed

lemma binary_search_ok:
  assumes "\<forall>k<length xs. obj (array + k * sz) = xs ! k" "sz > 0"
    and "sorted_wrt (\<lambda>a b. compare a b \<le> 0) xs"
  shows "\<exists>p. binary_search key array (length xs) sz compare obj = Inr p \<and> found compare key xs array sz p"
  using binary_search_loop_ok[OF assms, of 0 "length xs" key] by (simp add: binary_search_def mult.commute)

end

section \<open>The value of a numeral\<close>

definition decimal :: "u8 list \<Rightarrow> int" where
  "decimal ds = foldl (\<lambda>v x. v * 10 + (uint x - 48)) 0 ds"

lemma decimal_snoc [simp]: "decimal (ds @ [x]) = decimal ds * 10 + (uint x - 48)"
  by (simp add: decimal_def)

lemma isdigit_sint: "isdigit (sint (x :: u8)) \<longleftrightarrow> isdigit (uint x)"
proof
  assume "isdigit (sint x)"
  then have "uint x = sint x" by (simp add: uint_sint take_bit_int_eq_self isdigit_def)
  then show "isdigit (uint x)" using \<open>isdigit (sint x)\<close> by simp
next
  assume "isdigit (uint x)"
  then have "sint x = uint x" by (simp add: sint_uint signed_take_bit_int_eq_self isdigit_def)
  then show "isdigit (sint x)" using \<open>isdigit (uint x)\<close> by simp
qed

lemma sint_digit: "isdigit (uint (x :: u8)) \<Longrightarrow> sint x = uint x"
  by (simp add: sint_uint signed_take_bit_int_eq_self isdigit_def)

lemma skip_space_ok:
  "str_at m p (sp @ r) \<Longrightarrow> \<forall>x\<in>set sp. isspace (uint x) \<Longrightarrow> \<not> isspace (uint (hd (r @ [0]))) \<Longrightarrow>
   length sp < n \<Longrightarrow> skip_space n p m = Inr (p + length sp)"
proof (induction sp arbitrary: p n)
  case Nil
  then show ?case by (cases n; cases r) (auto simp: str_at_simps)
next
  case (Cons x sp)
  then show ?case by (cases n) (auto simp: str_at_simps)
qed

lemma parse_digits_ok:
  "str_at m p (ds @ r) \<Longrightarrow> \<forall>x\<in>set ds. isdigit (uint x) \<Longrightarrow> \<not> isdigit (uint (hd (r @ [0]))) \<Longrightarrow>
   length ds < n \<Longrightarrow> parse_digits n p (- word_of_int (decimal cs)) m = Inr (- word_of_int (decimal (cs @ ds)))"
proof (induction ds arbitrary: p n cs)
  case Nil
  then show ?case by (cases n; cases r) (auto simp: str_at_simps isdigit_sint)
next
  case (Cons x ds)
  then obtain n' where n: "n = Suc n'" by (cases n) auto
  have x: "m p = Some x" "isdigit (uint x)" "str_at m (p + 1) (ds @ r)"
    using Cons.prems by (simp_all add: str_at_simps)
  have step: "- word_of_int (decimal cs) * 10 - word_of_int (sint x - 48)
      = - (word_of_int (decimal (cs @ [x])) :: u32)"
    using x(2) by (simp add: sint_digit)
  show ?case
    using Cons.IH[OF x(3), of n' "cs @ [x]"] Cons.prems x n step by (simp add: isdigit_sint del: decimal_snoc)
qed

lemma atoi_ok:
  assumes s: "str_at m p (sp @ sg @ ds @ r)" "length (sp @ sg @ ds @ r) < n"
    and sp: "\<forall>x\<in>set sp. isspace (uint x)" and sg: "sg \<in> {[], [43], [45]}"
    and ds: "ds \<noteq> []" "\<forall>x\<in>set ds. isdigit (uint x)" "\<not> isdigit (uint (hd (r @ [0])))"
  shows "atoi n p m = Inr (sint (word_of_int (if sg = [45] then - decimal ds else decimal ds) :: u32))"
proof -
  obtain d ds' where d: "ds = d # ds'" using ds(1) by (cases ds) auto
  have nd: "\<not> isspace (uint d)" "d \<noteq> 43" "d \<noteq> 45" using ds(2) d by (auto simp: isdigit_def isspace_def)
  have "skip_space n p m = Inr (p + length sp)"
    using s sp sg nd(1) d by (intro skip_space_ok[where r = "sg @ ds @ r"]) (auto simp: isspace_def)
  moreover have s2: "str_at m (p + length sp) (sg @ ds @ r)" using s(1) by (rule str_at_drop)
  moreover have "str_at m (p + length sp + length sg) (ds @ r)" using str_at_drop[OF s2] .
  then have "parse_digits n (p + length sp + length sg) 0 m = Inr (- word_of_int (decimal ds))"
    using parse_digits_ok[of m "p + length sp + length sg" ds r n "[]"] ds s(2) by (simp add: decimal_def)
  ultimately show ?thesis
    using sg nd d s(1) by (auto simp: atoi_def Let_def str_at_simps str_at_def)
qed

section \<open>Properties\<close>

text \<open>C22.  For every comparison function of \<open>strcmp\<close> type and every array of elements of \<open>size\<close>
  bytes, \<open>sort\<close> returns, and leaves the same elements in ascending order.\<close>

theorem sort_correct:
  assumes "comparator compare" "\<forall>x\<in>set array. length x = sz" "sz > 0"
  shows "\<exists>array'. sort array sz compare = Inr array' \<and> mset array' = mset array \<and>
           sorted_wrt (\<lambda>a b. compare a b \<le> 0) array'"
  by (rule comparator.sort_ok[OF assms])

theorem sort_correct_witness:
  "\<exists>array'. sort [[2, 9], [3, 0], [1, 1], [2, 8]] 2 diff_sign = Inr array' \<and>
     mset array' = {#[2, 9], [3, 0], [1, 1], [2, 8]#} \<and> sorted_wrt (\<lambda>a b. diff_sign a b \<le> 0) array'"
  using sort_correct[OF str.comparator_axioms, of "[[2, 9], [3, 0], [1, 1], [2, 8]]" 2] by simp

text \<open>On a sorted array, \<open>binary_search\<close> returns the address of an element that compares
  equal to the key if there is one, and the null pointer otherwise.\<close>

theorem binary_search_correct:
  assumes "comparator compare" "\<forall>k<length xs. obj (array + k * sz) = xs ! k" "sz > 0"
    and "sorted_wrt (\<lambda>a b. compare a b \<le> 0) xs"
  shows "\<exists>p. binary_search key array (length xs) sz compare obj = Inr p \<and>
           (if \<exists>x\<in>set xs. compare key x = 0
            then \<exists>k<length xs. p = array + k * sz \<and> compare key (xs ! k) = 0 else p = 0)"
  using comparator.binary_search_ok[OF assms] by (simp only: found_def)

theorem binary_search_correct_witness:
  "binary_search [4] 100 3 1 diff_sign (\<lambda>a. [word_of_nat (2 * (a - 100))]) = Inr 102"
proof -
  have "sorted_wrt (\<lambda>a b. diff_sign a b \<le> 0) [[0], [2], [4 :: u8]]" by simp
  moreover have "\<forall>k<length [[0], [2], [4 :: u8]]. [word_of_nat (2 * k)] = [[0], [2], [4 :: u8]] ! k"
    by (auto simp: less_Suc_eq)
  ultimately have "\<exists>p. binary_search [4] 100 (length [[0], [2], [4 :: u8]]) 1 diff_sign
      (\<lambda>a. [word_of_nat (2 * (a - 100))]) = Inr p \<and>
      (\<exists>k<3. p = 100 + k * 1 \<and> diff_sign [4] ([[0], [2], [4]] ! k) = 0)"
    using binary_search_correct[OF str.comparator_axioms, of "[[0], [2], [4]]"
        "\<lambda>a. [word_of_nat (2 * (a - 100))]" 100 1 "[4]"] by (simp add: numeral_3_eq_3)
  then show ?thesis by (auto simp: numeral_3_eq_3 less_Suc_eq)
qed

text \<open>\<open>atoi\<close> skips white space, takes an optional sign and the digits that follow, and returns
  the number they denote, over the whole range of \<open>int\<close>.\<close>

theorem atoi_correct:
  assumes "str_at m p (sp @ sg @ ds @ r)" "length (sp @ sg @ ds @ r) < n"
    and "\<forall>x\<in>set sp. isspace (uint x)" "sg \<in> {[], [43], [45]}"
    and "ds \<noteq> []" "\<forall>x\<in>set ds. isdigit (uint x)" "\<not> isdigit (uint (hd (r @ [0])))"
    and "v = (if sg = [45] then - decimal ds else decimal ds)" "- (2 ^ 31) \<le> v" "v < 2 ^ 31"
  shows "atoi n p m = Inr v"
  using atoi_ok[OF assms(1-7)] assms(8-10) by (simp add: signed_of_int signed_take_bit_int_eq_self)

theorem atoi_correct_witness:
  "atoi 9 4 (put Map.empty 4 [32, 45, 52, 50, 120, 0]) = Inr (- 42)"
proof -
  have "str_at (put Map.empty 4 [32, 45, 52, 50, 120, 0]) 4 ([32] @ [45] @ [52, 50] @ [120])"
    by (simp add: str_at_def put_def)
  then show ?thesis
    by (rule atoi_correct) (simp_all add: isspace_def isdigit_def decimal_def)
qed

end
