(* ===== verification/Stdio.thy ===== *)
theory Stdio
  imports Stdlib
begin

text \<open>
  Formatted output: \<open>src/lib/stdio.c\<close>.

  A format is a string without its terminator; to read the character at its end is to read the terminator, to
  move past the end is \<open>Bad_access\<close>.  The variable arguments are a list of 32-bit words, 64-bit words and strings
  (a null pointer is \<open>Str None\<close>); to take an argument of another size, or one that is not there, is
  \<open>Bad_access\<close>.  The characters that are handed to the function \<open>output\<close> are the result of the
  formatting functions, in order; \<open>vsnprintf\<close> stores them in memory.  The flags of a conversion, bits of a word in
  the source, are Boolean fields.
\<close>

datatype varg = W32 u32 | W64 u64 | Str "string option"

datatype ptype = T_CHAR | T_SHORT | T_INT | T_INTMAX | T_LONG | T_LONGLONG | T_PTRDIFFT | T_SIZET

record printf_conversion =
  f_minus :: bool
  f_plus :: bool
  f_space :: bool
  f_pound :: bool
  f_zero :: bool
  f_group :: bool
  width :: int
  precision :: int
  ptype :: ptype

record integer_base =
  ib_base :: nat
  ib_digits :: string
  ib_x :: char
  ib_group :: nat

definition base_d :: integer_base where
  "base_d = \<lparr>ib_base = 10, ib_digits = ''0123456789'', ib_x = CHR 0x00, ib_group = 3\<rparr>"

definition base_o :: integer_base where
  "base_o = \<lparr>ib_base = 8, ib_digits = ''01234567'', ib_x = CHR 0x00, ib_group = 3\<rparr>"

definition base_x :: integer_base where
  "base_x = \<lparr>ib_base = 16, ib_digits = ''0123456789abcdef'', ib_x = CHR ''x'', ib_group = 4\<rparr>"

definition base_X :: integer_base where
  "base_X = \<lparr>ib_base = 16, ib_digits = ''0123456789ABCDEF'', ib_x = CHR ''X'', ib_group = 4\<rparr>"

section \<open>Parsing a conversion\<close>

definition va_word :: "varg list \<Rightarrow> (u32 \<times> varg list) res" where
  "va_word args = (case args of W32 w # r \<Rightarrow> Inr (w, r) | _ \<Rightarrow> Inl Bad_access)"

definition va_long_long :: "varg list \<Rightarrow> (u64 \<times> varg list) res" where
  "va_long_long args = (case args of W64 w # r \<Rightarrow> Inr (w, r) | _ \<Rightarrow> Inl Bad_access)"

definition va_string :: "varg list \<Rightarrow> (string option \<times> varg list) res" where
  "va_string args = (case args of Str s # r \<Rightarrow> Inr (s, r) | _ \<Rightarrow> Inl Bad_access)"

fun parse_flags :: "printf_conversion \<Rightarrow> string \<Rightarrow> printf_conversion \<times> string" where
  "parse_flags c [] = (c, [])"
| "parse_flags c (ch # f) =
     (if ch = CHR ''-'' then parse_flags (c\<lparr>f_minus := True\<rparr>) f
      else if ch = CHR ''+'' then parse_flags (c\<lparr>f_plus := True\<rparr>) f
      else if ch = CHR '' '' then parse_flags (c\<lparr>f_space := True\<rparr>) f
      else if ch = CHR ''#'' then parse_flags (c\<lparr>f_pound := True\<rparr>) f
      else if ch = CHR ''0'' then parse_flags (c\<lparr>f_zero := True\<rparr>) f
      else if ch = CHR 0x27 then parse_flags (c\<lparr>f_group := True\<rparr>) f
      else (c, ch # f))"

fun parse_number :: "int \<Rightarrow> string \<Rightarrow> int \<times> string" where
  "parse_number n [] = (n, [])"
| "parse_number n (ch # f) =
     (if isdigit (of_char ch) then parse_number (n * 10 + of_char ch - 48) f else (n, ch # f))"

text \<open>A number, or an asterisk for an argument.\<close>

definition parse_width :: "string \<Rightarrow> varg list \<Rightarrow> (int \<times> string \<times> varg list) res" where
  "parse_width f args =
     (case f of ch # r \<Rightarrow>
        if ch = CHR ''*'' then ebind (va_word args) (\<lambda>(w, args). Inr (sint w, r, args))
        else (let (n, r) = parse_number 0 f in Inr (n, r, args))
      | [] \<Rightarrow> Inr (0, f, args))"

definition parse_precision :: "string \<Rightarrow> varg list \<Rightarrow> (int \<times> string \<times> varg list) res" where
  "parse_precision f args =
     (case f of ch # r \<Rightarrow>
        if ch = CHR ''.'' then ebind (parse_width r args) (\<lambda>(n, r, args). Inr (if n < 0 then -1 else n, r, args))
        else Inr (-1, f, args)
      | [] \<Rightarrow> Inr (-1, f, args))"

definition parse_type :: "string \<Rightarrow> ptype \<times> string" where
  "parse_type f =
     (case f of [] \<Rightarrow> (T_INT, f)
      | ch # r \<Rightarrow>
          if ch = CHR ''h'' then
            (case r of ch' # r' \<Rightarrow> if ch' = CHR ''h'' then (T_CHAR, r') else (T_SHORT, r) | [] \<Rightarrow> (T_SHORT, r))
          else if ch = CHR ''j'' then (T_INTMAX, r)
          else if ch = CHR ''l'' then
            (case r of ch' # r' \<Rightarrow> if ch' = CHR ''l'' then (T_LONGLONG, r') else (T_LONG, r) | [] \<Rightarrow> (T_LONG, r))
          else if ch = CHR ''t'' then (T_PTRDIFFT, r)
          else if ch = CHR ''z'' then (T_SIZET, r)
          else (T_INT, f))"

definition no_flags :: printf_conversion where
  "no_flags = \<lparr>f_minus = False, f_plus = False, f_space = False, f_pound = False, f_zero = False, f_group = False,
     width = 0, precision = -1, ptype = T_INT\<rparr>"

definition clear_flags :: "printf_conversion \<Rightarrow> printf_conversion" where
  "clear_flags c = c\<lparr>f_zero := (f_zero c \<and> \<not> f_minus c), f_space := (f_space c \<and> \<not> f_plus c)\<rparr>"

definition set_width :: "int \<Rightarrow> printf_conversion \<Rightarrow> printf_conversion" where
  "set_width w c = (if w < 0 then c\<lparr>width := - w, f_minus := True\<rparr> else c\<lparr>width := w\<rparr>)"

definition set_precision :: "int \<Rightarrow> printf_conversion \<Rightarrow> printf_conversion" where
  "set_precision p c = c\<lparr>precision := p, f_zero := (f_zero c \<and> p < 0)\<rparr>"

definition parse_conversion :: "string \<Rightarrow> varg list \<Rightarrow> (printf_conversion \<times> string \<times> varg list) res" where
  "parse_conversion f args =
     (let (c, f) = parse_flags no_flags f
      in ebind (parse_width f args) (\<lambda>(w, f, args).
         ebind (parse_precision f args) (\<lambda>(p, f, args).
         let (t, f) = parse_type f
         in Inr ((set_precision p (set_width w (clear_flags c)))\<lparr>ptype := t\<rparr>, f, args))))"

section \<open>Formatting\<close>

definition output_dup :: "char \<Rightarrow> nat \<Rightarrow> string" where
  "output_dup ch cnt = replicate cnt ch"

text \<open>A store through \<open>cp\<close> in the buffer of 64 characters.\<close>

definition push_char :: "char \<Rightarrow> string \<Rightarrow> string res" where
  "push_char ch buf = (if length buf < 64 then Inr (buf @ [ch]) else Inl Bad_access)"

definition digit_at :: "integer_base \<Rightarrow> nat \<Rightarrow> char res" where
  "digit_at b value =
     (if ib_base b = 0 then Inl Divide_error
      else if value mod ib_base b < length (ib_digits b) then Inr (ib_digits b ! (value mod ib_base b))
      else Inl Bad_access)"

definition push_group :: "bool \<Rightarrow> nat \<Rightarrow> integer_base \<Rightarrow> string \<Rightarrow> string res" where
  "push_group grp digit_cnt b buf =
     (if grp \<and> digit_cnt > 0 \<and> digit_cnt mod ib_group b = 0 then push_char (CHR '','') buf else Inr buf)"

lemma push_char_length: "push_char ch buf = Inr buf' \<Longrightarrow> length buf < 64 \<and> length buf' = Suc (length buf)"
  by (auto simp: push_char_def split: if_splits)

lemma push_group_length: "push_group g n b buf = Inr buf' \<Longrightarrow> length buf \<le> length buf'"
  by (auto simp: push_group_def push_char_def split: if_splits)

function digits_loop :: "bool \<Rightarrow> integer_base \<Rightarrow> nat \<Rightarrow> nat \<Rightarrow> string \<Rightarrow> string res" where
  "digits_loop grp b value digit_cnt buf =
     (if value > 0 then
        ebind (push_group grp digit_cnt b buf) (\<lambda>buf1.
        ebind (digit_at b value) (\<lambda>d.
        ebind (push_char d buf1) (\<lambda>buf2. digits_loop grp b (value div ib_base b) (digit_cnt + 1) buf2)))
      else Inr buf)"
  by auto

termination
  by (relation "measure (\<lambda>(grp, b, value, digit_cnt, buf). 64 - length buf)")
    (auto dest!: push_char_length push_group_length)

declare digits_loop.simps [simp del]

definition sign_text :: "bool \<Rightarrow> bool \<Rightarrow> printf_conversion \<Rightarrow> string" where
  "sign_text is_signed negative c =
     (if is_signed then
        if f_plus c then (if negative then ''-'' else ''+'')
        else if f_space c then (if negative then ''-'' else '' '')
        else if negative then ''-'' else []
      else [])"

definition x_text :: "u64 \<Rightarrow> integer_base \<Rightarrow> printf_conversion \<Rightarrow> string" where
  "x_text value b c = (if f_pound c \<and> value \<noteq> 0 \<and> ib_x b \<noteq> CHR 0x00 then [CHR ''0'', ib_x b] else [])"

function zeros_loop :: "int \<Rightarrow> string \<Rightarrow> string res" where
  "zeros_loop prec buf =
     (if int (length buf) < prec \<and> length buf < 64 - 1 then ebind (push_char (CHR ''0'') buf) (zeros_loop prec)
      else Inr buf)"
  by auto

termination
  by (relation "measure (\<lambda>(prec, buf). 64 - length buf)") (auto dest!: push_char_length)

declare zeros_loop.simps [simp del]

definition pad_zeros :: "integer_base \<Rightarrow> printf_conversion \<Rightarrow> string \<Rightarrow> string res" where
  "pad_zeros b c buf =
     ebind (zeros_loop (if precision c < 0 then 1 else precision c) buf) (\<lambda>buf.
     if f_pound c \<and> ib_base b = 8 \<and> (buf = [] \<or> last buf \<noteq> CHR ''0'') then push_char (CHR ''0'') buf else Inr buf)"

definition format_integer :: "u64 \<Rightarrow> bool \<Rightarrow> bool \<Rightarrow> integer_base \<Rightarrow> printf_conversion \<Rightarrow> string res" where
  "format_integer value is_signed negative b c =
     (let sign = sign_text is_signed negative c; x = x_text value b c
      in ebind (digits_loop (f_group c) b (unat value) 0 []) (\<lambda>buf.
         ebind (pad_zeros b c buf) (\<lambda>buf.
         let pad_cnt = nat (width c - int (length buf) - int (length x) - int (length sign))
         in Inr ((if \<not> f_minus c \<and> \<not> f_zero c then output_dup (CHR '' '') pad_cnt else []) @ sign @ x
              @ (if f_zero c then output_dup (CHR ''0'') pad_cnt else []) @ rev buf
              @ (if f_minus c then output_dup (CHR '' '') pad_cnt else [])))))"

definition format_string :: "string \<Rightarrow> int \<Rightarrow> printf_conversion \<Rightarrow> string" where
  "format_string s len c =
     (if width c > len \<and> \<not> f_minus c then output_dup (CHR '' '') (nat (width c - len)) else []) @ take (nat len) s
     @ (if width c > len \<and> f_minus c then output_dup (CHR '' '') (nat (width c - len)) else [])"

section \<open>The conversions\<close>

definition signed_arg :: "ptype \<Rightarrow> varg list \<Rightarrow> (int \<times> varg list) res" where
  "signed_arg t args =
     (case t of
        T_CHAR \<Rightarrow> ebind (va_word args) (\<lambda>(w, args). Inr (sint (ucast w :: u8), args))
      | T_SHORT \<Rightarrow> ebind (va_word args) (\<lambda>(w, args). Inr (sint (ucast w :: u16), args))
      | T_INTMAX \<Rightarrow> ebind (va_long_long args) (\<lambda>(w, args). Inr (sint w, args))
      | T_LONGLONG \<Rightarrow> ebind (va_long_long args) (\<lambda>(w, args). Inr (sint w, args))
      | T_SIZET \<Rightarrow> ebind (va_word args) (\<lambda>(w, args).
          let value = uint w; value = (if value > (2 ^ 32 - 1) div 2 then value - (2 ^ 32 - 1) - 1 else value)
          in Inr (value, args))
      | _ \<Rightarrow> ebind (va_word args) (\<lambda>(w, args). Inr (sint w, args)))"

definition unsigned_arg :: "ptype \<Rightarrow> varg list \<Rightarrow> (u64 \<times> varg list) res" where
  "unsigned_arg t args =
     (case t of
        T_CHAR \<Rightarrow> ebind (va_word args) (\<lambda>(w, args). Inr (ucast (ucast w :: u8), args))
      | T_SHORT \<Rightarrow> ebind (va_word args) (\<lambda>(w, args). Inr (ucast (ucast w :: u16), args))
      | T_INTMAX \<Rightarrow> va_long_long args
      | T_LONGLONG \<Rightarrow> va_long_long args
      | T_PTRDIFFT \<Rightarrow> ebind (va_word args) (\<lambda>(w, args). Inr (and (scast w) 0xffffffff, args))
      | _ \<Rightarrow> ebind (va_word args) (\<lambda>(w, args). Inr (ucast w, args)))"

text \<open>What \<open>__printf\<close> writes for the formats of an unknown and of an unsupported conversion.\<close>

definition no_conversion :: "char \<Rightarrow> string" where
  "no_conversion ch = ''<<no %'' @ [ch] @ '' conversion>>''"

definition not_in_kernel :: "char \<Rightarrow> string" where
  "not_in_kernel ch = ''<<no %'' @ [ch] @ '' in kernel>>''"

definition convert :: "char \<Rightarrow> printf_conversion \<Rightarrow> varg list \<Rightarrow> (string \<times> varg list) res" where
  "convert ch c args =
     (if ch \<in> set ''di'' then
        ebind (signed_arg (ptype c) args) (\<lambda>(value, args).
        ebind (format_integer (word_of_int (if value < 0 then - value else value)) True (value < 0) base_d c) (\<lambda>t.
        Inr (t, args)))
      else if ch \<in> set ''ouxX'' then
        ebind (unsigned_arg (ptype c) args) (\<lambda>(value, args).
        let b = (if ch = CHR ''o'' then base_o else if ch = CHR ''u'' then base_d else if ch = CHR ''x'' then base_x else base_X)
        in ebind (format_integer value False False b c) (\<lambda>t. Inr (t, args)))
      else if ch = CHR ''c'' then
        ebind (va_word args) (\<lambda>(w, args). Inr (format_string [char_of (unat w)] 1 c, args))
      else if ch = CHR ''s'' then
        ebind (va_string args) (\<lambda>(s, args).
        let s = (case s of None \<Rightarrow> ''(null)'' | Some s \<Rightarrow> s);
            len = min (length s) (nat (precision c mod 2 ^ 32))
        in Inr (format_string s (int len) c, args))
      else if ch = CHR ''p'' then
        ebind (va_word args) (\<lambda>(p, args).
        let c = c\<lparr>f_minus := False, f_plus := False, f_space := False, f_pound := True, f_zero := False, f_group := False\<rparr>
        in ebind (format_integer (ucast p) False False base_x c) (\<lambda>t. Inr (t, args)))
      else if ch \<in> set ''feEgGn'' then Inr (not_in_kernel ch, args)
      else Inr (no_conversion ch, args))"

section \<open>The format loop\<close>

lemma parse_flags_length: "length (snd (parse_flags c f)) \<le> length f"
  by (induction c f rule: parse_flags.induct) auto

lemma parse_number_length: "length (snd (parse_number n f)) \<le> length f"
  by (induction n f rule: parse_number.induct) auto

lemma va_wordD: "va_word args = Inr (w, args') \<Longrightarrow> args = W32 w # args'"
  by (auto simp: va_word_def split: list.splits varg.splits)

lemma parse_width_length:
  assumes "parse_width f args = Inr (n, f', args')"
  shows "length f' \<le> length f"
proof (cases f)
  case Nil
  then show ?thesis using assms by (simp add: parse_width_def)
next
  case (Cons ch r)
  show ?thesis
  proof (cases "ch = CHR ''*''")
    case True
    then show ?thesis using assms Cons by (auto simp: parse_width_def ebind_eq_Inr)
  next
    case False
    then have "parse_number 0 f = (n, f')"
      using assms Cons by (auto simp: parse_width_def Let_def split: prod.splits)
    then show ?thesis using parse_number_length [of 0 f] by simp
  qed
qed

lemma parse_precision_length:
  assumes "parse_precision f args = Inr (n, f', args')"
  shows "length f' \<le> length f"
  using assms parse_width_length
  by (fastforce simp: parse_precision_def ebind_eq_Inr split: list.splits if_splits)

lemma parse_type_length: "length (snd (parse_type f)) \<le> length f"
  by (auto simp: parse_type_def split: list.split)

text \<open>The conversion that is found is not before the place where the parser starts.\<close>

lemma parse_conversion_length:
  assumes "parse_conversion f args = Inr (c, f', args')"
  shows "length f' \<le> length f"
proof -
  obtain c0 f0 where pf: "parse_flags no_flags f = (c0, f0)" by fastforce
  obtain w f1 a1 p f2 a2 where w: "parse_width f0 args = Inr (w, f1, a1)" and
    p: "parse_precision f1 a1 = Inr (p, f2, a2)" and t: "f' = snd (parse_type f2)"
    using assms unfolding parse_conversion_def pf by (auto simp: ebind_eq_Inr Let_def case_prod_unfold)
  show ?thesis
    using parse_flags_length [of no_flags f] parse_width_length [OF w] parse_precision_length [OF p]
      parse_type_length [of f2] pf t by simp
qed

function vprintf :: "string \<Rightarrow> varg list \<Rightarrow> string res" where
  "vprintf [] args = Inr []"
| "vprintf (ch # f) args =
     (if ch \<noteq> CHR ''%'' then ebind (vprintf f args) (\<lambda>t. Inr (ch # t))
      else if f \<noteq> [] \<and> hd f = CHR ''%'' then ebind (vprintf (tl f) args) (\<lambda>t. Inr (CHR ''%'' # t))
      else ebind (parse_conversion f args) (\<lambda>(c, f', args1).
        if f' = [] then Inl Bad_access
        else ebind (convert (hd f') c args1) (\<lambda>(t, args2).
             ebind (vprintf (tl f') args2) (\<lambda>t'. Inr (t @ t')))))"
  by pat_completeness auto

termination
  by (relation "measure (\<lambda>(f, args). length f)") (auto dest: parse_conversion_length simp: less_Suc_eq_le)

declare vprintf.simps(2) [simp del]

text \<open>\<open>snprintf\<close> and \<open>vsnprintf\<close>: the helper stores a character while the length is below the limit, and counts it in
  any case.\<close>

record vsnprintf_aux =
  out_p :: addr
  out_length :: int
  max_length :: int

definition vsnprintf_helper :: "char \<Rightarrow> vsnprintf_aux \<Rightarrow> mem \<Rightarrow> (vsnprintf_aux \<times> mem) res" where
  "vsnprintf_helper ch aux m =
     (if out_length aux < max_length aux then
        ebind (wr m (out_p aux) (of_char ch)) (\<lambda>m.
        Inr (aux\<lparr>out_p := out_p aux + 1, out_length := out_length aux + 1\<rparr>, m))
      else Inr (aux\<lparr>out_length := out_length aux + 1\<rparr>, m))"

fun vsnprintf_output :: "string \<Rightarrow> vsnprintf_aux \<Rightarrow> mem \<Rightarrow> (vsnprintf_aux \<times> mem) res" where
  "vsnprintf_output [] aux m = Inr (aux, m)"
| "vsnprintf_output (ch # t) aux m =
     ebind (vsnprintf_helper ch aux m) (\<lambda>(aux, m). vsnprintf_output t aux m)"

definition vsnprintf :: "addr \<Rightarrow> nat \<Rightarrow> string \<Rightarrow> varg list \<Rightarrow> mem \<Rightarrow> (int \<times> mem) res" where
  "vsnprintf buffer buf_size f args m =
     (let aux = \<lparr>out_p = buffer, out_length = 0, max_length = (if buf_size > 0 then int buf_size - 1 else 0)\<rparr>
      in ebind (vprintf f args) (\<lambda>t.
         ebind (vsnprintf_output t aux m) (\<lambda>(aux, m).
         ebind (if buf_size > 0 then wr m (out_p aux) 0 else Inr m) (\<lambda>m. Inr (out_length aux, m)))))"

definition snprintf :: "addr \<Rightarrow> nat \<Rightarrow> string \<Rightarrow> varg list \<Rightarrow> mem \<Rightarrow> (int \<times> mem) res" where
  "snprintf buffer buf_size f args m = vsnprintf buffer buf_size f args m"

section \<open>Dumps and sizes\<close>

definition isprint_byte :: "u8 \<Rightarrow> bool" where
  "isprint_byte c = isprint (uint c)"

text \<open>One line of a dump: the bytes \<open>bs\<close> at the columns \<open>start\<close> to \<open>end\<close>.\<close>

fun hex_bytes :: "nat \<Rightarrow> u8 list \<Rightarrow> string res" where
  "hex_bytes i [] = Inr []"
| "hex_bytes i (c # cs) =
     ebind (vprintf ''%02hhx%c'' [W32 (ucast c), W32 (if i = 16 div 2 - 1 then 45 else 32)]) (\<lambda>t.
     ebind (hex_bytes (Suc i) cs) (\<lambda>t'. Inr (t @ t')))"

fun ascii_bytes :: "u8 list \<Rightarrow> string res" where
  "ascii_bytes [] = Inr []"
| "ascii_bytes (c # cs) =
     ebind (vprintf ''%c'' [W32 (if isprint_byte c then ucast c else 46)]) (\<lambda>t.
     ebind (ascii_bytes cs) (\<lambda>t'. Inr (t @ t')))"

definition hex_line :: "nat \<Rightarrow> u8 list \<Rightarrow> bool \<Rightarrow> string res" where
  "hex_line ofs cs ascii =
     (let start = ofs mod 16; stop = start + length cs
      in ebind (vprintf ''%08jx  '' [W64 (of_nat (ofs div 16 * 16))]) (\<lambda>head.
         ebind (hex_bytes start cs) (\<lambda>hex.
         ebind (if ascii then
                  ebind (ascii_bytes cs) (\<lambda>t.
                  Inr (concat (replicate (16 - stop) ''   '') @ ''|'' @ replicate start (CHR '' '') @ t
                    @ replicate (16 - stop) (CHR '' '') @ ''|''))
                else Inr []) (\<lambda>text.
         Inr (head @ concat (replicate start ''   '') @ hex @ text @ [CHR 0x0A])))))"

function hex_dump :: "nat \<Rightarrow> u8 list \<Rightarrow> bool \<Rightarrow> string res" where
  "hex_dump ofs buf ascii =
     (if buf = [] then Inr []
      else let start = ofs mod 16;
               stop = (if 16 - start > length buf then start + length buf else 16);
               n = stop - start
           in ebind (hex_line ofs (take n buf) ascii) (\<lambda>line.
              ebind (hex_dump (ofs + n) (drop n buf) ascii) (\<lambda>t. Inr (line @ t))))"
  by auto

termination
  by (relation "measure (\<lambda>(ofs, buf, ascii). length buf)") auto

declare hex_dump.simps [simp del]

fun scale_size :: "nat \<Rightarrow> string list \<Rightarrow> nat \<times> string" where
  "scale_size sz (f # g # fs) = (if sz \<ge> 1024 then scale_size (sz div 1024) (g # fs) else (sz, f))"
| "scale_size sz [f] = (sz, f)"
| "scale_size sz [] = (sz, [])"

definition print_human_readable_size :: "u64 \<Rightarrow> string res" where
  "print_human_readable_size sz =
     (if sz = 1 then vprintf ''1 byte'' []
      else let (n, unit) = scale_size (unat sz) [''bytes'', ''kB'', ''MB'', ''GB'', ''TB'']
           in vprintf ''%llu %s'' [W64 (of_nat n), Str (Some unit)])"

section \<open>Integers\<close>

text \<open>The digits of a number, least significant first, with the group separators.\<close>

function rendered :: "bool \<Rightarrow> integer_base \<Rightarrow> nat \<Rightarrow> nat \<Rightarrow> string" where
  "rendered grp b v k =
     (if v = 0 \<or> ib_base b < 2 then []
      else (if grp \<and> k > 0 \<and> k mod ib_group b = 0 then '','' else []) @ ib_digits b ! (v mod ib_base b)
           # rendered grp b (v div ib_base b) (Suc k))"
  by auto

termination
  by (relation "measure (\<lambda>(grp, b, v, k). v)") auto

declare rendered.simps [simp del]

lemma rendered_0 [simp]: "rendered grp b 0 k = []"
  by (simp add: rendered.simps)

definition base_ok :: "integer_base \<Rightarrow> bool" where
  "base_ok b \<longleftrightarrow> ib_base b \<ge> 8 \<and> length (ib_digits b) = ib_base b \<and> distinct (ib_digits b)
     \<and> ib_digits b ! 0 = CHR ''0'' \<and> CHR '','' \<notin> set (ib_digits b)"

lemma bases_ok [simp]: "base_ok base_d" "base_ok base_o" "base_ok base_x" "base_ok base_X"
  by (simp_all add: base_ok_def base_d_def base_o_def base_x_def base_X_def)

lemma rendered_length: "v < ib_base b ^ n \<Longrightarrow> length (rendered grp b v k) \<le> 2 * n"
proof (induction n arbitrary: v k)
  case 0
  then show ?case by (simp add: rendered.simps)
next
  case (Suc n)
  have "ib_base b \<ge> 2 \<Longrightarrow> v div ib_base b < ib_base b ^ n"
    using Suc.prems by (simp add: less_mult_imp_div_less mult.commute)
  then show ?case using Suc.IH [of "v div ib_base b" "Suc k"] by (subst rendered.simps) auto
qed

text \<open>The loop writes these characters behind those in the buffer, when they fit.\<close>

lemma digits_loop_rendered:
  "base_ok b \<Longrightarrow> length buf + length (rendered grp b v k) \<le> 64 \<Longrightarrow>
   digits_loop grp b v k buf = Inr (buf @ rendered grp b v k)"
proof (induction grp b v k arbitrary: buf rule: rendered.induct)
  case (1 grp b v k)
  have base: "\<not> ib_base b < 2" "v mod ib_base b < length (ib_digits b)" "ib_base b \<noteq> 0"
    using 1(2) by (auto simp: base_ok_def)
  show ?case
  proof (cases "v = 0")
    case True
    then show ?thesis by (simp add: rendered.simps digits_loop.simps)
  next
    case False
    let ?sep = "if grp \<and> k > 0 \<and> k mod ib_group b = 0 then '','' else []"
    let ?d = "ib_digits b ! (v mod ib_base b)" and ?rest = "rendered grp b (v div ib_base b) (Suc k)"
    have r: "rendered grp b v k = ?sep @ ?d # ?rest" using False base by (subst rendered.simps) simp
    have len: "length buf + length ?sep + 1 + length ?rest \<le> 64" using 1(3) unfolding r by simp
    have "push_group grp k b buf = Inr (buf @ ?sep)" using len by (simp add: push_group_def push_char_def)
    moreover have "digit_at b v = Inr ?d" using base by (simp add: digit_at_def)
    moreover have "push_char ?d (buf @ ?sep) = Inr (buf @ ?sep @ [?d])" using len by (simp add: push_char_def)
    moreover have "digits_loop grp b (v div ib_base b) (k + 1) (buf @ ?sep @ [?d]) = Inr ((buf @ ?sep @ [?d]) @ ?rest)"
      using 1(1) [OF _ 1(2), of "buf @ ?sep @ [?d]"] False base len by simp
    ultimately show ?thesis using False unfolding r by (subst digits_loop.simps) simp
  qed
qed

text \<open>The number that a digit, and a text of digits, stands for.\<close>

definition digit_value :: "integer_base \<Rightarrow> char \<Rightarrow> nat" where
  "digit_value b ch = length (takeWhile (\<lambda>d. d \<noteq> ch) (ib_digits b))"

definition number :: "integer_base \<Rightarrow> string \<Rightarrow> nat" where
  "number b t = foldl (\<lambda>n ch. n * ib_base b + digit_value b ch) 0 (filter (\<lambda>ch. ch \<noteq> CHR '','') t)"

lemma digit_value_nth: "distinct (ib_digits b) \<Longrightarrow> i < length (ib_digits b) \<Longrightarrow> digit_value b (ib_digits b ! i) = i"
proof -
  assume a: "distinct (ib_digits b)" "i < length (ib_digits b)"
  have "takeWhile (\<lambda>d. d \<noteq> ib_digits b ! i) (ib_digits b) = take i (ib_digits b)"
    using a by (intro takeWhile_eq_take_P_nth) (auto simp: nth_eq_iff_index_eq)
  then show ?thesis using a by (simp add: digit_value_def)
qed

lemma number_zeros: "base_ok b \<Longrightarrow> number b (replicate n (CHR ''0'') @ t) = number b t"
proof (induction n)
  case (Suc n)
  have "digit_value b (CHR ''0'') = 0" using Suc.prems digit_value_nth [of b 0] by (simp add: base_ok_def)
  then show ?case using Suc by (simp add: number_def)
qed simp

lemma number_rendered: "base_ok b \<Longrightarrow> number b (rev (rendered grp b v k)) = v"
proof (induction grp b v k rule: rendered.induct)
  case (1 grp b v k)
  have base: "\<not> ib_base b < 2" "v mod ib_base b < length (ib_digits b)" "distinct (ib_digits b)"
    "CHR '','' \<notin> set (ib_digits b)"
    using 1(2) by (auto simp: base_ok_def)
  then have "ib_digits b ! (v mod ib_base b) \<noteq> CHR '',''" by (metis nth_mem)
  then show ?case
    using 1 base digit_value_nth [OF base(3,2)]
    by (cases "v = 0") (simp_all add: number_def rendered.simps [of grp b v k])
qed

lemma rendered_chars: "base_ok b \<Longrightarrow> set (rendered grp b v k) \<subseteq> insert (CHR '','') (set (ib_digits b))"
proof (induction grp b v k rule: rendered.induct)
  case (1 grp b v k)
  then have "v mod ib_base b < length (ib_digits b)" by (auto simp: base_ok_def)
  then show ?case using 1 by (subst rendered.simps) auto
qed

lemma rendered_fits:
  assumes "base_ok b"
  shows "length (rendered grp b (unat (v :: u64)) k) \<le> 44"
proof -
  have "unat v < 2 ^ 64" using unsigned_less [of v] by simp
  also have "(2 :: nat) ^ 64 \<le> 8 ^ 22" by simp
  also have "(8 :: nat) ^ 22 \<le> ib_base b ^ 22" using assms by (intro power_mono) (auto simp: base_ok_def)
  finally show ?thesis using rendered_length [of "unat v" b 22] by simp
qed

text \<open>The zeros in front fit in the buffer as well.\<close>

lemma zeros_loop_ok: "zeros_loop prec buf = Inr (buf @ replicate (min (nat prec) 63 - length buf) (CHR ''0''))"
proof (induction prec buf rule: zeros_loop.induct)
  case (1 prec buf)
  show ?case
  proof (cases "int (length buf) < prec \<and> length buf < 63")
    case True
    then have "min (nat prec) 63 - length buf = Suc (min (nat prec) 63 - length (buf @ [CHR ''0'']))" by auto
    then show ?thesis
      using 1 [of "buf @ [CHR ''0'']"] True by (subst zeros_loop.simps) (simp add: push_char_def replicate_append_same)
  qed (subst zeros_loop.simps, auto)
qed

lemma pad_zeros_ok:
  assumes "length buf \<le> 44"
  shows "\<exists>n. pad_zeros b c buf = Inr (buf @ replicate n (CHR ''0'')) \<and> n + length buf \<le> 64
    \<and> min (precision c) 63 \<le> int (n + length buf) \<and> (precision c < 0 \<longrightarrow> \<not> f_pound c \<longrightarrow> n = 1 - length buf)"
proof -
  define n where "n = min (nat (if precision c < 0 then 1 else precision c)) 63 - length buf"
  have n: "n + length buf \<le> 63" "min (precision c) 63 \<le> int (n + length buf)" "precision c < 0 \<Longrightarrow> n = 1 - length buf"
    using assms by (auto simp: n_def)
  show ?thesis
  proof (cases "f_pound c \<and> ib_base b = 8 \<and> (buf @ replicate n (CHR ''0'') = [] \<or> last (buf @ replicate n (CHR ''0'')) \<noteq> CHR ''0'')")
    case True
    then have "pad_zeros b c buf = Inr (buf @ replicate (Suc n) (CHR ''0''))"
      using n(1) unfolding pad_zeros_def zeros_loop_ok n_def [symmetric]
      by (simp add: push_char_def replicate_append_same)
    then show ?thesis using n True by (intro exI [of _ "Suc n"]) auto
  next
    case False
    then have "pad_zeros b c buf = Inr (buf @ replicate n (CHR ''0''))"
      unfolding pad_zeros_def zeros_loop_ok n_def [symmetric] ebind_Inr by (rule if_not_P)
    then show ?thesis using n by (intro exI [of _ n]) auto
  qed
qed

text \<open>Every conversion of an integer returns: blanks, the sign and the prefix, the digits of the number, blanks.\<close>

lemma format_integer_ok:
  assumes b: "base_ok b"
  shows "\<exists>l body r. format_integer v sg ng b c = Inr (l @ sign_text sg ng c @ x_text v b c @ body @ r)
    \<and> set (l @ r) \<subseteq> {CHR '' ''} \<and> number b body = unat v
    \<and> set body \<subseteq> insert (CHR '','') (set (ib_digits b)) \<and> min (precision c) 63 \<le> int (length body)
    \<and> width c \<le> int (length (l @ sign_text sg ng c @ x_text v b c @ body @ r))"
proof -
  let ?buf = "rendered (f_group c) b (unat v) 0"
  have d: "digits_loop (f_group c) b (unat v) 0 [] = Inr ?buf"
    using digits_loop_rendered [OF b, of "[]" "f_group c" "unat v" 0] rendered_fits [OF b, of "f_group c" v 0] by simp
  obtain n where n: "pad_zeros b c ?buf = Inr (?buf @ replicate n (CHR ''0''))"
    "min (precision c) 63 \<le> int (n + length ?buf)"
    using pad_zeros_ok [OF rendered_fits [OF b], of b c "f_group c" v 0] by blast
  define pad where "pad = nat (width c - int (length (?buf @ replicate n (CHR ''0''))) - int (length (x_text v b c))
    - int (length (sign_text sg ng c)))"
  define l where "l = (if \<not> f_minus c \<and> \<not> f_zero c then replicate pad (CHR '' '') else [])"
  define r where "r = (if f_minus c then replicate pad (CHR '' '') else [])"
  define z where "z = (if f_zero c then pad else 0)"
  define body where "body = replicate z (CHR ''0'') @ replicate n (CHR ''0'') @ rev ?buf"
  have "ib_digits b ! 0 = CHR ''0''" "0 < length (ib_digits b)" using b by (auto simp: base_ok_def)
  then have zero: "CHR ''0'' \<in> set (ib_digits b)" by (metis nth_mem)
  have f: "format_integer v sg ng b c = Inr (l @ sign_text sg ng c @ x_text v b c @ body @ r)"
    unfolding format_integer_def Let_def d ebind_Inr n(1) pad_def [symmetric]
    by (simp add: l_def r_def z_def body_def output_dup_def)
  moreover have "set (l @ r) \<subseteq> {CHR '' ''}" by (auto simp: l_def r_def)
  moreover have "number b body = unat v" unfolding body_def by (simp only: number_zeros [OF b] number_rendered [OF b])
  moreover have "set body \<subseteq> insert (CHR '','') (set (ib_digits b))"
    using rendered_chars [OF b, of "f_group c" "unat v" 0] zero by (auto simp: body_def)
  moreover have "min (precision c) 63 \<le> int (length body)" using n(2) by (simp add: body_def)
  moreover have "width c \<le> int (length (l @ sign_text sg ng c @ x_text v b c @ body @ r))"
    by (simp add: body_def l_def r_def z_def pad_def)
  ultimately show ?thesis by blast
qed

section \<open>The buffer of \<open>snprintf\<close>\<close>

abbreviation bytes :: "string \<Rightarrow> u8 list" where
  "bytes t \<equiv> map of_char t"

lemma vsnprintf_output_full:
  "max_length aux \<le> out_length aux \<Longrightarrow>
   vsnprintf_output t aux m = Inr (aux\<lparr>out_length := out_length aux + int (length t)\<rparr>, m)"
  by (induction t arbitrary: aux) (simp_all add: vsnprintf_helper_def)

lemma vsnprintf_output_ok:
  "out_length aux \<le> max_length aux \<Longrightarrow> mapped m (out_p aux) (nat (max_length aux - out_length aux)) \<Longrightarrow>
   k = min (length t) (nat (max_length aux - out_length aux)) \<Longrightarrow>
   vsnprintf_output t aux m =
     Inr (aux\<lparr>out_p := out_p aux + k, out_length := out_length aux + int (length t)\<rparr>, put m (out_p aux) (take k (bytes t)))"
proof (induction t arbitrary: aux m k)
  case (Cons ch t)
  show ?case
  proof (cases "out_length aux < max_length aux")
    case True
    define j where "j = nat (max_length aux - (out_length aux + 1))"
    have j: "nat (max_length aux - out_length aux) = Suc j" using True by (simp add: j_def)
    have mp: "out_p aux \<in> dom m" "mapped m (out_p aux + 1) j" using Cons.prems(2) unfolding j by (simp_all add: mapped_Suc)
    let ?aux = "aux\<lparr>out_p := out_p aux + 1, out_length := out_length aux + 1\<rparr>"
    have "vsnprintf_output t ?aux (m(out_p aux \<mapsto> of_char ch)) =
      Inr (?aux\<lparr>out_p := out_p ?aux + min (length t) j, out_length := out_length ?aux + int (length t)\<rparr>,
           put (m(out_p aux \<mapsto> of_char ch)) (out_p ?aux) (take (min (length t) j) (bytes t)))"
    proof (rule Cons.IH)
      show "mapped (m(out_p aux \<mapsto> of_char ch)) (out_p ?aux) (nat (max_length ?aux - out_length ?aux))"
        using mp mapped_upd [OF mp(1), of "of_char ch" "out_p aux + 1" j] by (simp add: j_def)
    qed (use True in \<open>simp_all add: j_def\<close>)
    then show ?thesis
      using True mp(1) Cons.prems(3) unfolding j by (simp add: vsnprintf_helper_def wr_mapped put_Cons)
  next
    case False
    then show ?thesis using Cons.prems vsnprintf_output_full [of aux "ch # t" m] by simp
  qed
qed simp

lemma vsnprintf_ok:
  assumes "vprintf f args = Inr t" "mapped m p (Suc n)"
  shows "vsnprintf p (Suc n) f args m = Inr (int (length t), put m p (take n (bytes t) @ [0]))"
proof -
  let ?k = "min (length t) n" and ?aux = "\<lparr>out_p = p, out_length = 0, max_length = int n\<rparr>"
  have mp: "mapped m p n" using mapped_mono [OF assms(2), of n] by simp
  have o: "vsnprintf_output t ?aux m =
    Inr (?aux\<lparr>out_p := p + ?k, out_length := int (length t)\<rparr>, put m p (take ?k (bytes t)))"
    using vsnprintf_output_ok [of ?aux m ?k t] mp by simp
  have "dom (put m p (take ?k (bytes t))) = dom m" by (intro dom_put mapped_mono [OF mp]) simp
  then have "p + ?k \<in> dom (put m p (take ?k (bytes t)))" using mapped_at [OF assms(2), of ?k] by simp
  then have w: "wr (put m p (take ?k (bytes t))) (p + ?k) 0 = Inr (put m p (take ?k (bytes t) @ [0]))"
    using put_terminator [of m p "take ?k (bytes t)"] by (simp add: wr_mapped)
  have "take ?k (bytes t) = take n (bytes t)" by (metis length_map take_all_iff min.cobounded1 min_def order_refl take_take)
  then show ?thesis using assms(1) o w by (simp add: vsnprintf_def)
qed

section \<open>Decimal numbers\<close>

text \<open>The plain decimal digits of a number.\<close>

definition plain_digits :: "nat \<Rightarrow> string" where
  "plain_digits v = (if v = 0 then ''0'' else rev (rendered False base_d v 0))"

lemma rendered_plain_length: "v < ib_base b ^ n \<Longrightarrow> length (rendered False b v k) \<le> n"
proof (induction n arbitrary: v k)
  case (Suc n)
  have "ib_base b \<ge> 2 \<Longrightarrow> v div ib_base b < ib_base b ^ n"
    using Suc.prems by (simp add: less_mult_imp_div_less mult.commute)
  then show ?case using Suc.IH [of "v div ib_base b" "Suc k"] by (subst rendered.simps) auto
qed simp

lemma rendered_plain_chars: "base_ok b \<Longrightarrow> set (rendered False b v k) \<subseteq> set (ib_digits b)"
proof (induction False b v k rule: rendered.induct)
  case (1 b v k)
  then have "v mod ib_base b < length (ib_digits b)" by (auto simp: base_ok_def)
  then show ?case using 1 by (subst rendered.simps) auto
qed

lemma rendered_Nil: "base_ok b \<Longrightarrow> rendered grp b v k = [] \<longleftrightarrow> v = 0"
  by (subst rendered.simps) (auto simp: base_ok_def)

lemma format_integer_plain:
  "format_integer v sg ng base_d no_flags = Inr (sign_text sg ng no_flags @ plain_digits (unat v))"
proof -
  let ?buf = "rendered False base_d (unat v) 0"
  have d: "digits_loop False base_d (unat v) 0 [] = Inr ?buf"
    using digits_loop_rendered [of base_d "[]" False "unat v" 0] rendered_fits [of base_d False v 0] by simp
  obtain n where n: "pad_zeros base_d no_flags ?buf = Inr (?buf @ replicate n (CHR ''0''))" "n = 1 - length ?buf"
    using pad_zeros_ok [OF rendered_fits [of base_d False v 0], of base_d no_flags] by (auto simp: no_flags_def)
  have "rev (?buf @ replicate n (CHR ''0'')) = plain_digits (unat v)"
    using n(2) rendered_Nil [of base_d False "unat v" 0] by (cases ?buf) (auto simp: plain_digits_def)
  moreover have "f_group no_flags = False" "\<not> f_minus no_flags" "\<not> f_zero no_flags" "width no_flags = 0"
    "x_text v base_d no_flags = []"
    by (simp_all add: no_flags_def x_text_def)
  ultimately show ?thesis unfolding format_integer_def Let_def by (simp add: d n(1) output_dup_def)
qed

lemma base_d_sel [simp]: "ib_base base_d = 10" "ib_digits base_d = ''0123456789''"
  by (simp_all add: base_d_def)

lemma plain_digits_chars: "set (plain_digits v) \<subseteq> set ''0123456789''"
  using rendered_plain_chars [of base_d v 0] by (auto simp: plain_digits_def)

lemma plain_digits_not_Nil: "plain_digits v \<noteq> []"
  using rendered_Nil [of base_d False v 0] by (simp add: plain_digits_def)

lemma number_plain_digits: "number base_d (plain_digits v) = v"
proof (cases "v = 0")
  case True
  then show ?thesis by (simp add: plain_digits_def number_def digit_value_def)
next
  case False
  then show ?thesis by (simp add: plain_digits_def number_rendered)
qed

lemma plain_digits_length: "v < 10 ^ n \<Longrightarrow> 0 < n \<Longrightarrow> length (plain_digits v) \<le> n"
  using rendered_plain_length [of v base_d n 0] by (simp add: plain_digits_def)

lemma digit_bytes:
  "\<forall>ch\<in>set ''0123456789''. uint (of_char ch :: u8) = 48 + int (digit_value base_d ch) \<and> ch \<noteq> CHR '','' \<and>
     isdigit (uint (of_char ch :: u8)) \<and> (of_char ch :: u8) \<noteq> 0"
  by code_simp

lemma decimal_bytes:
  "set t \<subseteq> set ''0123456789'' \<Longrightarrow> decimal (bytes t) = int (number base_d t)"
proof (induction t rule: rev_induct)
  case (snoc ch t)
  then have ch: "ch \<in> set ''0123456789''" by simp
  then have "uint (of_char ch :: u8) = 48 + int (digit_value base_d ch)" "ch \<noteq> CHR '',''"
    using digit_bytes by blast+
  moreover have "decimal (bytes t) = int (number base_d t)" using snoc by simp
  ultimately show ?case by (simp add: number_def del: of_char_Char)
qed (simp add: decimal_def number_def)

lemma parse_d: "parse_conversion ''d'' args = Inr (no_flags, ''d'', args)"
  by (simp add: parse_conversion_def clear_flags_def set_width_def set_precision_def no_flags_def parse_width_def
      parse_precision_def parse_type_def isdigit_def)

lemma vprintf_d:
  "vprintf ''%d'' [W32 w] = Inr ((if sint w < 0 then ''-'' else []) @ plain_digits (nat \<bar>sint w\<bar>))"
proof -
  define v where "v = sint w"
  have v: "- (2 ^ 31) \<le> v" "v < 2 ^ 31" using sint_greater_eq [of w] sint_less [of w] by (simp_all add: v_def)
  have "unat (word_of_int (if v < 0 then - v else v) :: u64) = nat \<bar>v\<bar>"
    using v by (simp add: unsigned_of_int take_bit_int_eq_self)
  moreover have "sign_text True (v < 0) no_flags = (if v < 0 then ''-'' else [])"
    by (simp add: sign_text_def no_flags_def)
  moreover have "signed_arg (ptype no_flags) [W32 w] = Inr (v, [])"
    by (simp add: signed_arg_def no_flags_def va_word_def v_def)
  ultimately have "convert (CHR ''d'') no_flags [W32 w] =
    Inr ((if v < 0 then ''-'' else []) @ plain_digits (nat \<bar>v\<bar>), [])"
    by (simp add: convert_def format_integer_plain)
  then show ?thesis by (simp add: vprintf.simps(2) parse_d v_def)
qed

section \<open>Two formats the parser does not handle\<close>

text \<open>A per cent sign at the end of a format: the loop steps over the terminator.\<close>

lemma percent_at_end: "vprintf ''%'' args = Inl Bad_access"
  by (simp add: vprintf.simps parse_conversion_def parse_width_def parse_precision_def parse_type_def
      cong del: ebind_weak_cong)

text \<open>The flag \<open>0\<close> with a negative width from an argument: the field is padded on both sides.  A width of 5 gives
  8 characters.\<close>

lemma zero_flag_negative_width:
  "vprintf ''%0*d'' [W32 (- 5), W32 42] = Inr (''00042'' @ ''   '')"
  by code_simp

section \<open>Properties\<close>

text \<open>C20.  Every integer conversion, with any flags, width and precision, stays within the buffer of 64
  characters and returns: blanks, the sign, the prefix, the digits, blanks.  Without the group
  separators the digits denote the number.  The result is at least as long as the width, and the
  digits at least as many as the precision, up to 63.\<close>

theorem format_integer_correct:
  assumes "b \<in> {base_d, base_o, base_x, base_X}"
  shows "\<exists>l body r. format_integer v sg ng b c = Inr (l @ sign_text sg ng c @ x_text v b c @ body @ r)
    \<and> set (l @ r) \<subseteq> {CHR '' ''} \<and> number b body = unat v
    \<and> set body \<subseteq> insert (CHR '','') (set (ib_digits b)) \<and> min (precision c) 63 \<le> int (length body)
    \<and> width c \<le> int (length (l @ sign_text sg ng c @ x_text v b c @ body @ r))"
proof -
  have "base_ok b" using assms by auto
  then show ?thesis by (rule format_integer_ok)
qed

theorem format_integer_correct_witness:
  "\<exists>t. format_integer 1234567 True True base_d (no_flags\<lparr>f_group := True, width := 12\<rparr>) = Inr t \<and> 12 \<le> int (length t)"
  using format_integer_correct [of base_d 1234567 True True "no_flags\<lparr>f_group := True, width := 12\<rparr>"] by auto



text \<open>C38.  What \<open>snprintf\<close> prints for an \<open>int\<close> with \<open>%d\<close>, \<open>atoi\<close> reads back, for every value of the type.
  Twelve bytes are enough for the buffer.\<close>

theorem snprintf_atoi:
  assumes "mapped m p 12" "p \<noteq> 0"
  shows "\<exists>k m'. snprintf p 12 ''%d'' [W32 w] m = Inr (k, m') \<and> k \<le> 11 \<and> atoi 12 p m' = Inr (sint w)"
proof -
  define sg where "sg = (if sint w < 0 then ''-'' else [])"
  define ds where "ds = plain_digits (nat \<bar>sint w\<bar>)"
  let ?m = "put m p (bytes (sg @ ds) @ [0])"
  have v: "- (2 ^ 31) \<le> sint w" "sint w < 2 ^ 31" using sint_greater_eq [of w] sint_less [of w] by simp_all
  then have "length ds \<le> 10" unfolding ds_def by (intro plain_digits_length) auto
  then have len: "length (sg @ ds) \<le> 11" by (simp add: sg_def)
  have "vsnprintf p (Suc 11) ''%d'' [W32 w] m = Inr (int (length (sg @ ds)), put m p (take 11 (bytes (sg @ ds)) @ [0]))"
    using assms(1) unfolding sg_def ds_def by (intro vsnprintf_ok vprintf_d) simp
  then have s: "snprintf p 12 ''%d'' [W32 w] m = Inr (int (length (sg @ ds)), ?m)"
    using len by (simp add: snprintf_def)
  have dig: "\<forall>x\<in>set (bytes ds). isdigit (uint x) \<and> x \<noteq> 0"
  proof
    fix x
    assume "x \<in> set (bytes ds)"
    then obtain ch where ch: "x = of_char ch" "ch \<in> set ds" unfolding set_map by blast
    then have "ch \<in> set ''0123456789''" using plain_digits_chars unfolding ds_def by blast
    then show "isdigit (uint x) \<and> x \<noteq> 0" using digit_bytes unfolding ch(1) by blast
  qed
  have sg: "bytes sg = (if sint w < 0 then [45] else [])" "length (bytes sg) + length ds \<le> 11" "ds \<noteq> []"
    using len plain_digits_not_Nil by (simp_all add: sg_def ds_def)
  have "str_at ?m p ([] @ bytes sg @ bytes ds @ [])"
    using assms(2) dig block_at_put [of m p "bytes (sg @ ds) @ [0]"] by (auto simp: str_at_def sg)
  then have "atoi 12 p ?m = Inr (sint (word_of_int (if bytes sg = [45] then - decimal (bytes ds) else decimal (bytes ds)) :: u32))"
    using dig sg by (intro atoi_ok [where sp = "[]" and r = "[]"]) (auto simp: isdigit_def)
  moreover have "decimal (bytes ds) = \<bar>sint w\<bar>"
    unfolding ds_def decimal_bytes [OF plain_digits_chars] number_plain_digits by simp
  ultimately have "atoi 12 p ?m = Inr (sint w)" by (simp add: sg)
  then show ?thesis using s len by auto
qed

theorem snprintf_atoi_witness:
  "\<exists>k m'. snprintf 8 12 ''%d'' [W32 (- 2147483648)] (put Map.empty 8 (replicate 12 0)) = Inr (k, m') \<and> k \<le> 11 \<and>
     atoi 12 8 m' = Inr (- 2147483648)"
proof -
  have "mapped (put Map.empty 8 (replicate 12 0)) 8 12" by (auto simp: mapped_def put_def)
  from snprintf_atoi [OF this, of "- 2147483648"] show ?thesis by simp
qed

end
