(* ===== verification/Block.thy ===== *)
theory Block
  imports Stdio
begin

text \<open>
  Block devices and partitions: \<open>src/devices/block.c\<close>, \<open>src/devices/partition.c\<close>.

  A \<open>struct block\<close> is known by a number, 0 for a null pointer.  Its operations and their data are a value of
  \<open>driver\<close>: an IDE disk, whose contents are a map from sector numbers to blocks of 512 bytes, or a partition
  of another block device.  \<open>all_blocks\<close> is the list of the registered devices.  A call of \<open>malloc\<close> has its result as
  an argument.  The messages on the console are not part of the state.

  Reading a partition reads the device under it; the recursion is bounded by the number of registered
  devices, since a partition is registered after its device.

  The locale \<open>storage\<close> is what the file system relies on; it is interpreted on the operations here.
\<close>

section \<open>Block devices\<close>

definition BLOCK_SECTOR_SIZE :: nat where
  "BLOCK_SECTOR_SIZE = 512"

datatype btype = BLOCK_KERNEL | BLOCK_FILESYS | BLOCK_SCRATCH | BLOCK_SWAP | BLOCK_RAW | BLOCK_FOREIGN

definition is_role :: "btype \<Rightarrow> bool" where
  "is_role t \<longleftrightarrow> t \<noteq> BLOCK_RAW \<and> t \<noteq> BLOCK_FOREIGN"

datatype driver = Ide_disk nat | Partition_of nat u32

record block =
  bname :: string
  btype :: btype
  bsize :: u32
  driver :: driver
  read_cnt :: u64
  write_cnt :: u64

record blocks =
  blk :: "nat \<Rightarrow> block"
  all_blocks :: "nat list"
  by_role :: "btype \<Rightarrow> nat"
  media :: "nat \<Rightarrow> u32 \<Rightarrow> u8 list"

definition block_type_name :: "btype \<Rightarrow> string" where
  "block_type_name t =
     (case t of BLOCK_KERNEL \<Rightarrow> ''kernel'' | BLOCK_FILESYS \<Rightarrow> ''filesys'' | BLOCK_SCRATCH \<Rightarrow> ''scratch''
      | BLOCK_SWAP \<Rightarrow> ''swap'' | BLOCK_RAW \<Rightarrow> ''raw'' | BLOCK_FOREIGN \<Rightarrow> ''foreign'')"

definition block_get_role :: "btype \<Rightarrow> blocks \<Rightarrow> nat res" where
  "block_get_role role B = ebind (kassert (is_role role)) (\<lambda>_. Inr (by_role B role))"

definition block_set_role :: "btype \<Rightarrow> nat \<Rightarrow> blocks \<Rightarrow> blocks res" where
  "block_set_role role b B = ebind (kassert (is_role role)) (\<lambda>_. Inr (B\<lparr>by_role := (by_role B)(role := b)\<rparr>))"

text \<open>The device at the head of a list of devices, or a null pointer at its end.\<close>

definition list_elem_to_block :: "nat list \<Rightarrow> nat" where
  "list_elem_to_block bs = (case bs of [] \<Rightarrow> 0 | b # _ \<Rightarrow> b)"

definition block_first :: "blocks \<Rightarrow> nat" where
  "block_first B = list_elem_to_block (all_blocks B)"

definition block_next :: "nat \<Rightarrow> blocks \<Rightarrow> nat" where
  "block_next b B = list_elem_to_block (tl (dropWhile (\<lambda>x. x \<noteq> b) (all_blocks B)))"

definition block_get_by_name :: "string \<Rightarrow> blocks \<Rightarrow> nat" where
  "block_get_by_name name B =
     (case filter (\<lambda>b. bname (blk B b) = name) (all_blocks B) of [] \<Rightarrow> 0 | b # _ \<Rightarrow> b)"

definition check_sector :: "nat \<Rightarrow> u32 \<Rightarrow> blocks \<Rightarrow> unit res" where
  "check_sector b sector B =
     (if sector \<ge> bsize (blk B b) then Inl (Panic ''Access past end of device'') else Inr ())"

definition upd_block :: "nat \<Rightarrow> (block \<Rightarrow> block) \<Rightarrow> blocks \<Rightarrow> blocks" where
  "upd_block b f B = B\<lparr>blk := (blk B)(b := f (blk B b))\<rparr>"

fun block_read_n :: "nat \<Rightarrow> nat \<Rightarrow> u32 \<Rightarrow> blocks \<Rightarrow> (u8 list \<times> blocks) res" where
  "block_read_n 0 b sector B = Inl Out_of_fuel"
| "block_read_n (Suc n) b sector B =
     ebind (check_sector b sector B) (\<lambda>_.
     ebind (case driver (blk B b) of
              Ide_disk d \<Rightarrow> Inr (media B d sector, B)
            | Partition_of p start \<Rightarrow> block_read_n n p (start + sector) B) (\<lambda>(bs, B).
     Inr (bs, upd_block b (\<lambda>k. k\<lparr>read_cnt := read_cnt k + 1\<rparr>) B)))"

fun block_write_n :: "nat \<Rightarrow> nat \<Rightarrow> u32 \<Rightarrow> u8 list \<Rightarrow> blocks \<Rightarrow> blocks res" where
  "block_write_n 0 b sector bs B = Inl Out_of_fuel"
| "block_write_n (Suc n) b sector bs B =
     ebind (check_sector b sector B) (\<lambda>_.
     ebind (kassert (btype (blk B b) \<noteq> BLOCK_FOREIGN)) (\<lambda>_.
     ebind (case driver (blk B b) of
              Ide_disk d \<Rightarrow> Inr (B\<lparr>media := (media B)(d := (media B d)(sector := bs))\<rparr>)
            | Partition_of p start \<Rightarrow> block_write_n n p (start + sector) bs B) (\<lambda>B.
     Inr (upd_block b (\<lambda>k. k\<lparr>write_cnt := write_cnt k + 1\<rparr>) B))))"

definition block_read :: "nat \<Rightarrow> u32 \<Rightarrow> blocks \<Rightarrow> (u8 list \<times> blocks) res" where
  "block_read b sector B = block_read_n (length (all_blocks B)) b sector B"

definition block_write :: "nat \<Rightarrow> u32 \<Rightarrow> u8 list \<Rightarrow> blocks \<Rightarrow> blocks res" where
  "block_write b sector bs B = block_write_n (length (all_blocks B)) b sector bs B"

definition block_size :: "nat \<Rightarrow> blocks \<Rightarrow> u32" where
  "block_size b B = bsize (blk B b)"

text \<open>\<open>fresh\<close> is the result of \<open>malloc\<close>.\<close>

definition block_register :: "nat \<Rightarrow> string \<Rightarrow> btype \<Rightarrow> u32 \<Rightarrow> driver \<Rightarrow> blocks \<Rightarrow> (nat \<times> blocks) res" where
  "block_register fresh name t sz ops B =
     (if fresh = 0 then Inl (Panic ''Failed to allocate memory for block device descriptor'')
      else Inr (fresh, B\<lparr>all_blocks := all_blocks B @ [fresh],
        blk := (blk B)(fresh := \<lparr>bname = take 15 name, btype = t, bsize = sz, driver = ops, read_cnt = 0,
                                  write_cnt = 0\<rparr>)\<rparr>))"

section \<open>Partitions\<close>

definition partition_block_type :: "u8 \<Rightarrow> btype" where
  "partition_block_type t =
     (if t = 0x20 then BLOCK_KERNEL else if t = 0x21 then BLOCK_FILESYS else if t = 0x22 then BLOCK_SCRATCH
      else if t = 0x23 then BLOCK_SWAP else BLOCK_FOREIGN)"

text \<open>\<open>mallocs\<close> are the results of the calls of \<open>malloc\<close> to come, 0 for a null pointer.\<close>

definition malloc_next :: "nat list \<Rightarrow> nat \<times> nat list" where
  "malloc_next mallocs = (case mallocs of [] \<Rightarrow> (0, []) | a # as \<Rightarrow> (a, as))"

definition found_partition ::
  "nat \<Rightarrow> u8 \<Rightarrow> u32 \<Rightarrow> u32 \<Rightarrow> int \<Rightarrow> nat list \<Rightarrow> blocks \<Rightarrow> (nat list \<times> blocks) res" where
  "found_partition b part_type start sz part_nr mallocs B =
     (if start \<ge> block_size b B then Inr (mallocs, B)
      else if start + sz < start \<or> start + sz > block_size b B then Inr (mallocs, B)
      else
        let (p, mallocs) = malloc_next mallocs
        in if p = 0 then Inl (Panic ''Failed to allocate memory for partition descriptor'')
           else ebind (vprintf ''%s%d'' [Str (Some (bname (blk B b))), W32 (word_of_int part_nr)]) (\<lambda>name.
                let (fresh, mallocs) = malloc_next mallocs
                in ebind (block_register fresh (take 15 name) (partition_block_type part_type) sz
                       (Partition_of b start) B) (\<lambda>(_, B). Inr (mallocs, B))))"

text \<open>The fields of a partition table entry: type, offset and size.\<close>

definition entry_type :: "u8 list \<Rightarrow> nat \<Rightarrow> u8" where
  "entry_type pt i = pt ! (446 + 16 * i + 4)"

definition le_word :: "u8 list \<Rightarrow> nat \<Rightarrow> u32" where
  "le_word bs k = word_of_le (bs ! k) (bs ! (k + 1)) (bs ! (k + 2)) (bs ! (k + 3))"

definition entry_offset :: "u8 list \<Rightarrow> nat \<Rightarrow> u32" where
  "entry_offset pt i = le_word pt (446 + 16 * i + 8)"

definition entry_size :: "u8 list \<Rightarrow> nat \<Rightarrow> u32" where
  "entry_size pt i = le_word pt (446 + 16 * i + 12)"

definition is_extended :: "u8 \<Rightarrow> bool" where
  "is_extended t \<longleftrightarrow> t = 0x05 \<or> t = 0x0f \<or> t = 0x85 \<or> t = 0xc5"

type_synonym scan = "int \<times> nat list \<times> blocks"

text \<open>The entries of a table; \<open>table\<close> is the recursive call for an extended partition.\<close>

fun scan_entries ::
  "(u32 \<Rightarrow> u32 \<Rightarrow> scan \<Rightarrow> scan res) \<Rightarrow> nat \<Rightarrow> u8 list \<Rightarrow> u32 \<Rightarrow> u32 \<Rightarrow> nat list \<Rightarrow> scan \<Rightarrow> scan res" where
  "scan_entries table b pt sector primary [] st = Inr st"
| "scan_entries table b pt sector primary (i # is) st =
     (let t = entry_type pt i; ofs = entry_offset pt i; sz = entry_size pt i
      in if sz = 0 \<or> t = 0 then scan_entries table b pt sector primary is st
         else if is_extended t then
           ebind (if sector = 0 then table ofs ofs st else table (ofs + primary) primary st)
             (scan_entries table b pt sector primary is)
         else
           case st of (part_nr, mallocs, B) \<Rightarrow>
             ebind (found_partition b t (ofs + sector) sz (part_nr + 1) mallocs B) (\<lambda>(mallocs, B).
             scan_entries table b pt sector primary is (part_nr + 1, mallocs, B)))"

text \<open>The recursion need not end: every level reads sector 0, so that a table with an extended partition in it is
  read again and again.\<close>

fun read_partition_table :: "nat \<Rightarrow> nat \<Rightarrow> u32 \<Rightarrow> u32 \<Rightarrow> scan \<Rightarrow> scan res" where
  "read_partition_table 0 b sector primary st = Inl Out_of_fuel"
| "read_partition_table (Suc n) b sector primary (part_nr, mallocs, B) =
     (if sector \<ge> block_size b B then Inr (part_nr, mallocs, B)
      else
        let (p, mallocs) = malloc_next mallocs
        in if p = 0 then Inl (Panic ''Failed to allocate memory for partition table.'')
           else ebind (block_read b 0 B) (\<lambda>(pt, B).
                if pt ! 510 \<noteq> 0x55 \<or> pt ! 511 \<noteq> 0xaa then Inr (part_nr, mallocs, B)
                else scan_entries (read_partition_table n b) b pt sector primary [0, 1, 2, 3] (part_nr, mallocs, B)))"

definition partition_scan :: "nat \<Rightarrow> nat \<Rightarrow> nat list \<Rightarrow> blocks \<Rightarrow> (nat list \<times> blocks) res" where
  "partition_scan n b mallocs B =
     ebind (read_partition_table n b 0 0 (0, mallocs, B)) (\<lambda>(part_nr, mallocs, B). Inr (mallocs, B))"

section \<open>Where the sectors of a device are\<close>

text \<open>The disk, and the sector of the disk, of a sector of a device.\<close>

fun resolve :: "nat \<Rightarrow> blocks \<Rightarrow> nat \<Rightarrow> u32 \<Rightarrow> nat \<times> u32" where
  "resolve 0 B b sector = (0, 0)"
| "resolve (Suc n) B b sector =
     (case driver (blk B b) of Ide_disk d \<Rightarrow> (d, sector) | Partition_of p start \<Rightarrow> resolve n B p (start + sector))"

fun writable :: "nat \<Rightarrow> blocks \<Rightarrow> nat \<Rightarrow> bool" where
  "writable 0 B b = False"
| "writable (Suc n) B b \<longleftrightarrow> btype (blk B b) \<noteq> BLOCK_FOREIGN \<and>
     (case driver (blk B b) of Ide_disk d \<Rightarrow> True | Partition_of p start \<Rightarrow> writable n B p)"

text \<open>A partition lies within a device registered before it.\<close>

definition blocks_wf :: "blocks \<Rightarrow> bool" where
  "blocks_wf B \<longleftrightarrow> distinct (all_blocks B) \<and> 0 \<notin> set (all_blocks B) \<and>
     (\<forall>i < length (all_blocks B). case driver (blk B (all_blocks B ! i)) of
        Ide_disk d \<Rightarrow> True
      | Partition_of p start \<Rightarrow> p \<in> set (take i (all_blocks B)) \<and>
          unat start + unat (bsize (blk B (all_blocks B ! i))) \<le> unat (bsize (blk B p)))"

text \<open>What reads and writes leave of a device: all but its counters.\<close>

definition same_shape :: "blocks \<Rightarrow> blocks \<Rightarrow> bool" where
  "same_shape B B' \<longleftrightarrow> all_blocks B' = all_blocks B \<and> by_role B' = by_role B \<and>
     (\<forall>b. driver (blk B' b) = driver (blk B b) \<and> bsize (blk B' b) = bsize (blk B b) \<and>
          btype (blk B' b) = btype (blk B b) \<and> bname (blk B' b) = bname (blk B b))"

lemma same_shape_refl [simp]: "same_shape B B"
  by (simp add: same_shape_def)

lemma same_shape_trans: "same_shape A B \<Longrightarrow> same_shape B C \<Longrightarrow> same_shape A C"
  by (simp add: same_shape_def)

lemma same_shape_upd:
  "same_shape B B' \<Longrightarrow> same_shape B (upd_block b (\<lambda>k. k\<lparr>read_cnt := f k\<rparr>) B')"
  "same_shape B B' \<Longrightarrow> same_shape B (upd_block b (\<lambda>k. k\<lparr>write_cnt := f k\<rparr>) B')"
  by (simp_all add: same_shape_def upd_block_def)

lemma media_upd_block [simp]: "media (upd_block b f B) = media B"
  by (simp add: upd_block_def)

lemma same_shape_resolve: "same_shape B B' \<Longrightarrow> resolve n B' b x = resolve n B b x"
  by (induction n arbitrary: b x) (auto simp: same_shape_def split: driver.split)

lemma same_shape_writable: "same_shape B B' \<Longrightarrow> writable n B' b = writable n B b"
  by (induction n arbitrary: b) (auto simp: same_shape_def split: driver.split)

lemma same_shape_wf: "same_shape B B' \<Longrightarrow> blocks_wf B' = blocks_wf B"
  by (simp add: same_shape_def blocks_wf_def cong: driver.case_cong)

lemma same_shape_size: "same_shape B B' \<Longrightarrow> block_size b B' = block_size b B"
  by (simp add: same_shape_def block_size_def)

text \<open>A sector of a partition is a sector of the device under it.\<close>

lemma partition_sector:
  assumes "blocks_wf B" "i < length (all_blocks B)" "driver (blk B (all_blocks B ! i)) = Partition_of p start"
    "sector < bsize (blk B (all_blocks B ! i))"
  shows "\<exists>j < i. p = all_blocks B ! j \<and> start + sector < bsize (blk B p) \<and> unat (start + sector) = unat start + unat sector"
proof -
  have p: "p \<in> set (take i (all_blocks B))" "unat start + unat (bsize (blk B (all_blocks B ! i))) \<le> unat (bsize (blk B p))"
    using assms(1-3) by (auto simp: blocks_wf_def split: driver.splits)
  then obtain j where j: "j < i" "p = all_blocks B ! j" using assms(2) by (auto simp: in_set_conv_nth)
  have lt: "unat start + unat sector < unat (bsize (blk B p))" using p(2) assms(4) by (simp add: word_less_nat_alt)
  then have "unat start + unat sector < 2 ^ 32" using unat_lt_size [of "bsize (blk B p)"] by simp
  then have "unat (start + sector) = unat start + unat sector" by (simp add: unat_add_le)
  then show ?thesis using j lt by (auto simp: word_less_nat_alt)
qed

lemma block_read_n_ok:
  assumes "blocks_wf B"
  shows "i < n \<Longrightarrow> i < length (all_blocks B) \<Longrightarrow> sector < bsize (blk B (all_blocks B ! i)) \<Longrightarrow>
    \<exists>B'. block_read_n n (all_blocks B ! i) sector B =
      Inr (case resolve n B (all_blocks B ! i) sector of (d, x) \<Rightarrow> media B d x, B') \<and> same_shape B B' \<and> media B' = media B"
proof (induction n arbitrary: i sector)
  case (Suc n)
  let ?b = "all_blocks B ! i"
  have c: "check_sector ?b sector B = Inr ()" using Suc.prems(3) by (simp add: check_sector_def)
  show ?case
  proof (cases "driver (blk B ?b)")
    case (Ide_disk d)
    then show ?thesis using c by (auto intro: same_shape_upd)
  next
    case (Partition_of p start)
    obtain j where j: "j < i" "p = all_blocks B ! j" "start + sector < bsize (blk B p)"
      using partition_sector [OF assms Suc.prems(2) Partition_of Suc.prems(3)] by blast
    obtain B' where "block_read_n n p (start + sector) B =
      Inr (case resolve n B p (start + sector) of (d, x) \<Rightarrow> media B d x, B')" "same_shape B B'" "media B' = media B"
      using Suc.IH [of j "start + sector"] j Suc.prems by auto
    then show ?thesis using c Partition_of by (auto intro: same_shape_upd)
  qed
qed simp

lemma block_write_n_ok:
  assumes "blocks_wf B"
  shows "i < n \<Longrightarrow> i < length (all_blocks B) \<Longrightarrow> sector < bsize (blk B (all_blocks B ! i)) \<Longrightarrow>
    writable n B (all_blocks B ! i) \<Longrightarrow> resolve n B (all_blocks B ! i) sector = (d, x) \<Longrightarrow>
    \<exists>B'. block_write_n n (all_blocks B ! i) sector bs B = Inr B' \<and> same_shape B B' \<and>
      media B' = (media B)(d := (media B d)(x := bs))"
proof (induction n arbitrary: i sector)
  case (Suc n)
  let ?b = "all_blocks B ! i"
  have c: "check_sector ?b sector B = Inr ()" "btype (blk B ?b) \<noteq> BLOCK_FOREIGN"
    using Suc.prems(3,4) by (simp_all add: check_sector_def)
  show ?case
  proof (cases "driver (blk B ?b)")
    case (Ide_disk d')
    have "same_shape B (B\<lparr>media := m\<rparr>)" for m by (simp add: same_shape_def)
    then show ?thesis using c Ide_disk Suc.prems(5) by (auto intro: same_shape_upd simp: fun_eq_iff)
  next
    case (Partition_of p start)
    obtain j where j: "j < i" "p = all_blocks B ! j" "start + sector < bsize (blk B p)"
      using partition_sector [OF assms Suc.prems(2) Partition_of Suc.prems(3)] by blast
    have "j < n" "j < length (all_blocks B)" "writable n B p" "resolve n B p (start + sector) = (d, x)"
      using j(1) Suc.prems Partition_of by simp_all
    then obtain B' where B': "block_write_n n p (start + sector) bs B = Inr B'" "same_shape B B'"
      "media B' = (media B)(d := (media B d)(x := bs))"
      using Suc.IH [of j "start + sector"] j(2,3) by blast
    show ?thesis using c Partition_of B'(1) same_shape_upd(2) [OF B'(2)] by (auto simp: B'(3) fun_eq_iff)
  qed
qed simp

text \<open>Distinct sectors of a device are distinct sectors of a disk.\<close>

lemma resolve_inj:
  assumes "blocks_wf B"
  shows "i < n \<Longrightarrow> i < length (all_blocks B) \<Longrightarrow> x < bsize (blk B (all_blocks B ! i)) \<Longrightarrow>
    y < bsize (blk B (all_blocks B ! i)) \<Longrightarrow>
    resolve n B (all_blocks B ! i) x = resolve n B (all_blocks B ! i) y \<longleftrightarrow> x = y"
proof (induction n arbitrary: i x y)
  case (Suc n)
  show ?case
  proof (cases "driver (blk B (all_blocks B ! i))")
    case (Partition_of p start)
    obtain j where j: "j < i" "p = all_blocks B ! j" "start + x < bsize (blk B p)"
      using partition_sector [OF assms Suc.prems(2) Partition_of Suc.prems(3)] by blast
    have "start + y < bsize (blk B p)" using partition_sector [OF assms Suc.prems(2) Partition_of Suc.prems(4)] by blast
    then show ?thesis using Suc.IH [of j "start + x" "start + y"] Suc.prems j Partition_of by simp
  qed simp
qed simp

lemma resolve_disk:
  assumes "blocks_wf B"
  shows "i < n \<Longrightarrow> i < length (all_blocks B) \<Longrightarrow> x < bsize (blk B (all_blocks B ! i)) \<Longrightarrow>
    y < bsize (blk B (all_blocks B ! i)) \<Longrightarrow>
    fst (resolve n B (all_blocks B ! i) x) = fst (resolve n B (all_blocks B ! i) y)"
proof (induction n arbitrary: i x y)
  case (Suc n)
  show ?case
  proof (cases "driver (blk B (all_blocks B ! i))")
    case (Partition_of p start)
    obtain j where j: "j < i" "p = all_blocks B ! j" "start + x < bsize (blk B p)"
      using partition_sector [OF assms Suc.prems(2) Partition_of Suc.prems(3)] by blast
    have "start + y < bsize (blk B p)" using partition_sector [OF assms Suc.prems(2) Partition_of Suc.prems(4)] by blast
    then show ?thesis using Suc.IH [of j "start + x" "start + y"] Suc.prems j Partition_of by simp
  qed simp
qed simp

section \<open>The interface of the file system\<close>

definition device_ok :: "nat \<Rightarrow> blocks \<Rightarrow> bool" where
  "device_ok b B \<longleftrightarrow> blocks_wf B \<and> b \<in> set (all_blocks B) \<and> writable (length (all_blocks B)) B b"

definition content :: "nat \<Rightarrow> blocks \<Rightarrow> u32 \<Rightarrow> u8 list" where
  "content b B sector =
     (if sector < block_size b B
      then case resolve (length (all_blocks B)) B b sector of (d, x) \<Rightarrow> media B d x else [])"

locale storage =
  fixes rd :: "u32 \<Rightarrow> 's \<Rightarrow> (u8 list \<times> 's) res"
    and wr :: "u32 \<Rightarrow> u8 list \<Rightarrow> 's \<Rightarrow> 's res"
    and cont :: "'s \<Rightarrow> u32 \<Rightarrow> u8 list"
    and cap :: "'s \<Rightarrow> u32"
    and ok :: "'s \<Rightarrow> bool"
  assumes rd_ok: "ok s \<Longrightarrow> x < cap s \<Longrightarrow>
      \<exists>s'. rd x s = Inr (cont s x, s') \<and> ok s' \<and> cap s' = cap s \<and> cont s' = cont s"
    and wr_ok: "ok s \<Longrightarrow> x < cap s \<Longrightarrow>
      \<exists>s'. wr x bs s = Inr s' \<and> ok s' \<and> cap s' = cap s \<and> cont s' = (cont s)(x := bs)"
    and rd_bad: "ok s \<Longrightarrow> cap s \<le> x \<Longrightarrow> \<exists>msg. rd x s = Inl (Panic msg)"
    and wr_bad: "ok s \<Longrightarrow> cap s \<le> x \<Longrightarrow> \<exists>msg. wr x bs s = Inl (Panic msg)"
begin

lemma read_back:
  assumes "ok s" "x < cap s"
  shows "\<exists>s' s''. wr x bs s = Inr s' \<and> rd x s' = Inr (bs, s'') \<and> cont s'' = (cont s)(x := bs)"
proof -
  obtain s' where s': "wr x bs s = Inr s'" "ok s'" "cap s' = cap s" "cont s' = (cont s)(x := bs)"
    using wr_ok [OF assms] by blast
  then show ?thesis using rd_ok [of s' x] assms(2) by auto
qed

lemma frame:
  assumes "ok s" "x < cap s" "y < cap s" "y \<noteq> x"
  shows "\<exists>s' s''. wr x bs s = Inr s' \<and> rd y s' = Inr (cont s y, s'')"
proof -
  obtain s' where s': "wr x bs s = Inr s'" "ok s'" "cap s' = cap s" "cont s' = (cont s)(x := bs)"
    using wr_ok [OF assms(1,2)] by blast
  then show ?thesis using rd_ok [of s' y] assms(3,4) by auto
qed

end

lemma device_index:
  assumes "device_ok b B"
  obtains i where "i < length (all_blocks B)" "b = all_blocks B ! i"
  using assms by (auto simp: device_ok_def in_set_conv_nth)

lemma device_read:
  assumes "device_ok b B" "x < block_size b B"
  shows "\<exists>B'. block_read b x B = Inr (content b B x, B') \<and> device_ok b B' \<and> block_size b B' = block_size b B \<and>
    content b B' = content b B"
proof -
  obtain i where i: "i < length (all_blocks B)" "b = all_blocks B ! i" using device_index [OF assms(1)] .
  obtain B' where B': "block_read b x B = Inr (content b B x, B')" "same_shape B B'" "media B' = media B"
    using block_read_n_ok [of B i "length (all_blocks B)" x] assms i
    by (auto simp: device_ok_def block_read_def content_def block_size_def)
  have "all_blocks B' = all_blocks B" using B'(2) by (simp add: same_shape_def)
  moreover from this have "content b B' = content b B"
    using same_shape_resolve [OF B'(2)] same_shape_size [OF B'(2)] by (intro ext) (simp add: content_def B'(3))
  ultimately show ?thesis
    using assms(1) B'(1) same_shape_wf [OF B'(2)] same_shape_writable [OF B'(2)] same_shape_size [OF B'(2)]
    by (simp add: device_ok_def)
qed

lemma device_write:
  assumes "device_ok b B" "x < block_size b B"
  shows "\<exists>B'. block_write b x bs B = Inr B' \<and> device_ok b B' \<and> block_size b B' = block_size b B \<and>
    content b B' = (content b B)(x := bs)"
proof -
  let ?n = "length (all_blocks B)"
  obtain i where i: "i < ?n" "b = all_blocks B ! i" using device_index [OF assms(1)] .
  have wf: "blocks_wf B" "writable ?n B b" using assms(1) by (simp_all add: device_ok_def)
  obtain d y where dy: "resolve ?n B b x = (d, y)" by fastforce
  obtain B' where B': "block_write b x bs B = Inr B'" "same_shape B B'" "media B' = (media B)(d := (media B d)(y := bs))"
    using block_write_n_ok [OF wf(1) i(1) i(1), of x d y bs] assms(2) wf(2) i dy
    by (auto simp: block_write_def block_size_def)
  have ab: "all_blocks B' = all_blocks B" using B'(2) by (simp add: same_shape_def)
  have "content b B' z = ((content b B)(x := bs)) z" for z
  proof (cases "z < block_size b B")
    case True
    then have "resolve ?n B b z = resolve ?n B b x \<longleftrightarrow> z = x"
      using resolve_inj [OF wf(1) i(1) i(1), of z x] assms(2) i(2) by (simp add: block_size_def)
    then show ?thesis
      using True dy B'(3) same_shape_resolve [OF B'(2)] same_shape_size [OF B'(2)] ab
      by (auto simp: content_def split: prod.splits)
  next
    case False
    then show ?thesis using assms(2) same_shape_size [OF B'(2)] by (auto simp: content_def)
  qed
  then show ?thesis
    using assms(1) B'(1) same_shape_wf [OF B'(2)] same_shape_writable [OF B'(2)] same_shape_size [OF B'(2)] ab
    by (auto simp: device_ok_def fun_eq_iff)
qed

lemma device_bad:
  assumes "device_ok b B" "block_size b B \<le> x"
  shows "\<exists>msg. block_read b x B = Inl (Panic msg)" "\<exists>msg. block_write b x bs B = Inl (Panic msg)"
proof -
  obtain i where "i < length (all_blocks B)" using device_index [OF assms(1)] .
  then obtain n where "length (all_blocks B) = Suc n" by (cases "length (all_blocks B)") auto
  then show "\<exists>msg. block_read b x B = Inl (Panic msg)" "\<exists>msg. block_write b x bs B = Inl (Panic msg)"
    using assms(2) by (simp_all add: block_read_def block_write_def check_sector_def block_size_def)
qed

interpretation dev: storage "block_read b" "block_write b" "content b" "block_size b" "device_ok b" for b
  by unfold_locales (auto intro: device_read device_write device_bad)

section \<open>Scanning for partitions\<close>

lemma parse_s: "parse_conversion (CHR ''s'' # f) args = Inr (no_flags, CHR ''s'' # f, args)"
  by (simp add: parse_conversion_def clear_flags_def set_width_def set_precision_def no_flags_def parse_width_def
      parse_precision_def parse_type_def isdigit_def)

lemma vprintf_sd: "\<exists>t. vprintf ''%s%d'' [Str (Some nm), W32 w] = Inr t"
proof -
  obtain t where "convert (CHR ''s'') no_flags [Str (Some nm), W32 w] = Inr (t, [W32 w])"
    by (auto simp: convert_def va_string_def Let_def)
  then have "vprintf ''%s%d'' [Str (Some nm), W32 w] = ebind (vprintf ''%d'' [W32 w]) (\<lambda>t'. Inr (t @ t'))"
    by (subst vprintf.simps(2)) (simp add: parse_s)
  then show ?thesis by (simp add: vprintf_d)
qed

lemma vprintf_sd_res: "vprintf ''%s%d'' [Str (Some nm), W32 w] = Inr (projr (vprintf ''%s%d'' [Str (Some nm), W32 w]))"
  using vprintf_sd [of nm w] by auto

text \<open>The results of \<open>malloc\<close> are addresses that are not in use.\<close>

definition fresh_mallocs :: "nat list \<Rightarrow> blocks \<Rightarrow> bool" where
  "fresh_mallocs ms B \<longleftrightarrow> distinct ms \<and> 0 \<notin> set ms \<and> set ms \<inter> set (all_blocks B) = {}"

lemma register_wf:
  assumes wf: "blocks_wf B" and f: "f \<noteq> 0" "f \<notin> set (all_blocks B)"
    and p: "case ops of Ide_disk d \<Rightarrow> True
      | Partition_of p start \<Rightarrow> p \<in> set (all_blocks B) \<and> unat start + unat sz \<le> unat (bsize (blk B p))"
  shows "\<exists>B'. block_register f name t sz ops B = Inr (f, B') \<and> blocks_wf B' \<and> all_blocks B' = all_blocks B @ [f] \<and>
    (\<forall>b\<in>set (all_blocks B). blk B' b = blk B b) \<and> media B' = media B \<and> bsize (blk B' f) = sz \<and>
    driver (blk B' f) = ops"
proof -
  let ?B = "B\<lparr>all_blocks := all_blocks B @ [f], blk := (blk B)(f := \<lparr>bname = take 15 name, btype = t, bsize = sz,
    driver = ops, read_cnt = 0, write_cnt = 0\<rparr>)\<rparr>"
  have old: "blk ?B b = blk B b" if "b \<in> set (all_blocks B)" for b using that f(2) by auto
  have "case driver (blk ?B (all_blocks ?B ! i)) of Ide_disk d \<Rightarrow> True
      | Partition_of p start \<Rightarrow> p \<in> set (take i (all_blocks ?B)) \<and>
          unat start + unat (bsize (blk ?B (all_blocks ?B ! i))) \<le> unat (bsize (blk ?B p))"
    if i: "i < length (all_blocks ?B)" for i
  proof (cases "i < length (all_blocks B)")
    case True
    then have b: "all_blocks ?B ! i = all_blocks B ! i" "all_blocks B ! i \<in> set (all_blocks B)" by (simp_all add: nth_append)
    show ?thesis
    proof (cases "driver (blk B (all_blocks B ! i))")
      case (Partition_of p start)
      then have p: "p \<in> set (take i (all_blocks B))"
        "unat start + unat (bsize (blk B (all_blocks B ! i))) \<le> unat (bsize (blk B p))"
        using wf True by (auto simp: blocks_wf_def split: driver.splits)
      then have "p \<noteq> f" using f(2) by (auto dest: in_set_takeD)
      then show ?thesis using p old [OF b(2)] Partition_of b(1) True by auto
    qed (use old [OF b(2)] b(1) in simp)
  next
    case False
    then have "i = length (all_blocks B)" using i by simp
    then show ?thesis using p f(2) by (cases ops) (auto simp: nth_append)
  qed
  then have "blocks_wf ?B" using wf f by (simp add: blocks_wf_def del: select_convs update_convs)
  then show ?thesis using f old by (auto simp: block_register_def)
qed

text \<open>What a scan keeps: the devices that are there, and the contents of the disks.\<close>

definition extends_blocks :: "blocks \<Rightarrow> blocks \<Rightarrow> bool" where
  "extends_blocks B B' \<longleftrightarrow> blocks_wf B' \<and> media B' = media B \<and> (\<exists>new. all_blocks B' = all_blocks B @ new) \<and>
     (\<forall>b\<in>set (all_blocks B). driver (blk B' b) = driver (blk B b) \<and> bsize (blk B' b) = bsize (blk B b) \<and>
        btype (blk B' b) = btype (blk B b) \<and> bname (blk B' b) = bname (blk B b))"

lemma extends_blocks_trans: "extends_blocks A B \<Longrightarrow> extends_blocks B C \<Longrightarrow> extends_blocks A C"
  by (auto simp: extends_blocks_def)

lemma extends_blocks_refl: "blocks_wf B \<Longrightarrow> extends_blocks B B"
  by (simp add: extends_blocks_def)

lemma same_shape_extends: "blocks_wf B \<Longrightarrow> same_shape B B' \<Longrightarrow> media B' = media B \<Longrightarrow> extends_blocks B B'"
  using same_shape_wf [of B B'] by (simp add: extends_blocks_def same_shape_def)

lemma found_partition_ok:
  assumes "blocks_wf B" "b \<in> set (all_blocks B)" "fresh_mallocs ms B" "length ms \<ge> 2"
  shows "\<exists>ms' B'. found_partition b t start sz nr ms B = Inr (ms', B') \<and> extends_blocks B B' \<and> fresh_mallocs ms' B' \<and>
    length ms' \<ge> length ms - 2"
proof (cases "start \<ge> block_size b B \<or> start + sz < start \<or> start + sz > block_size b B")
  case True
  then show ?thesis using assms extends_blocks_refl [OF assms(1)] by (auto simp: found_partition_def)
next
  case False
  obtain p f ms' where ms: "ms = p # f # ms'" using assms(4) by (cases ms; cases "tl ms") auto
  have f: "f \<noteq> 0" "f \<notin> set (all_blocks B)" "p \<noteq> 0" using assms(3) ms by (auto simp: fresh_mallocs_def)
  have "unat start + unat sz \<le> unat (bsize (blk B b))"
    using False unat_lt_size [of sz] by (auto simp: not_le not_less block_size_def word_le_nat_alt unat_plus_if' split: if_splits)
  then obtain B' where B': "block_register f (take 15 (projr (vprintf ''%s%d'' [Str (Some (bname (blk B b))), W32 (word_of_int nr)])))
      (partition_block_type t) sz (Partition_of b start) B = Inr (f, B')" "blocks_wf B'" "all_blocks B' = all_blocks B @ [f]"
    "\<forall>b\<in>set (all_blocks B). blk B' b = blk B b" "media B' = media B"
    using register_wf [OF assms(1) f(1,2), where ops = "Partition_of b start" and sz = sz] assms(2) by auto
  have "found_partition b t start sz nr ms B = Inr (ms', B')"
    using False ms f(3) B'(1)
    by (subst found_partition_def, subst vprintf_sd_res) (simp add: malloc_next_def)
  moreover have "extends_blocks B B'" using B' by (simp add: extends_blocks_def)
  moreover have "fresh_mallocs ms' B'" using assms(3) B'(3) ms by (auto simp: fresh_mallocs_def)
  ultimately show ?thesis using ms by auto
qed

lemma scan_entries_ok:
  "blocks_wf B \<Longrightarrow> b \<in> set (all_blocks B) \<Longrightarrow> fresh_mallocs ms B \<Longrightarrow> length ms \<ge> 2 * length is \<Longrightarrow>
   \<forall>i\<in>set is. entry_size pt i = 0 \<or> \<not> is_extended (entry_type pt i) \<Longrightarrow>
   \<exists>nr' ms' B'. scan_entries table b pt sector primary is (nr, ms, B) = Inr (nr', ms', B') \<and> extends_blocks B B'"
proof (induction "is" arbitrary: nr ms B)
  case Nil
  then show ?case by (simp add: extends_blocks_refl)
next
  case (Cons i "is")
  let ?t = "entry_type pt i" and ?ofs = "entry_offset pt i" and ?sz = "entry_size pt i"
  show ?case
  proof (cases "?sz = 0 \<or> ?t = 0")
    case True
    then show ?thesis using Cons by simp
  next
    case False
    obtain ms1 B1 where r: "found_partition b ?t (?ofs + sector) ?sz (nr + 1) ms B = Inr (ms1, B1)" "extends_blocks B B1"
      "fresh_mallocs ms1 B1" "length ms1 \<ge> length ms - 2"
      using found_partition_ok [OF Cons.prems(1,2,3), of ?t "?ofs + sector" ?sz "nr + 1"] Cons.prems(4) by auto
    have w: "blocks_wf B1" "b \<in> set (all_blocks B1)" using r(2) Cons.prems(2) by (auto simp: extends_blocks_def)
    have i: "length ms1 \<ge> 2 * length is" "\<forall>i\<in>set is. entry_size pt i = 0 \<or> \<not> is_extended (entry_type pt i)"
      using r(4) Cons.prems(4,5) by simp_all
    obtain nr' ms' B' where s':
      "scan_entries table b pt sector primary is (nr + 1, ms1, B1) = Inr (nr', ms', B')" "extends_blocks B1 B'"
      using Cons.IH [OF w r(3) i, of "nr + 1"] by blast
    then have "scan_entries table b pt sector primary (i # is) (nr, ms, B) = Inr (nr', ms', B')"
      using False Cons.prems(5) r(1) by simp
    then show ?thesis using extends_blocks_trans [OF r(2) s'(2)] by blast
  qed
qed

text \<open>A table whose first entry is an extended partition.\<close>

definition extended_first :: "nat \<Rightarrow> blocks \<Rightarrow> u32 \<Rightarrow> bool" where
  "extended_first b B ofs \<longleftrightarrow> device_ok b B \<and> content b B 0 ! 510 = 0x55 \<and> content b B 0 ! 511 = 0xaa \<and>
     is_extended (entry_type (content b B 0) 0) \<and> entry_size (content b B 0) 0 \<noteq> 0 \<and>
     entry_offset (content b B 0) 0 = ofs \<and> ofs < block_size b B \<and> 0 < ofs + ofs \<and> ofs + ofs < block_size b B"

lemma is_extended_nonzero: "is_extended t \<Longrightarrow> t \<noteq> 0"
  by (auto simp: is_extended_def)

lemma extended_step:
  assumes "extended_first b B ofs" "sector < block_size b B"
    "\<And>ms B'. extended_first b B' ofs \<Longrightarrow> \<nexists>r. (if sector = 0 then read_partition_table n b ofs ofs (nr, ms, B')
       else read_partition_table n b (ofs + primary) primary (nr, ms, B')) = Inr r"
  shows "\<nexists>r. read_partition_table (Suc n) b sector primary (nr, ms, B) = Inr r"
proof -
  have "0 < block_size b B" using assms(1) unfolding extended_first_def by (metis word_gt_0 word_not_simps(1))
  then obtain B' where B': "block_read b 0 B = Inr (content b B 0, B')" "device_ok b B'" "block_size b B' = block_size b B"
    "content b B' = content b B"
    using device_read [of b B 0] assms(1) by (auto simp: extended_first_def)
  have ext: "extended_first b B' ofs" using assms(1) B'(2-4) by (simp add: extended_first_def)
  obtain p ms' where m: "malloc_next ms = (p, ms')" by fastforce
  have e: "is_extended (entry_type (content b B 0) 0)" "entry_size (content b B 0) 0 \<noteq> 0"
    "entry_offset (content b B 0) 0 = ofs" "content b B 0 ! 510 = 0x55" "content b B 0 ! 511 = 0xaa"
    using assms(1) by (simp_all add: extended_first_def)
  show ?thesis
    using assms(2) assms(3) [OF ext, of ms'] m B'(1) e is_extended_nonzero [OF e(1)]
    by (auto simp: Let_def ebind_eq_Inr split: if_splits)
qed

text \<open>A write through one device is seen through another only where their sectors are the same.\<close>

lemma device_write_other:
  assumes "device_ok b B" "x < block_size b B" "block_write b x bs B = Inr B'"
    and "\<And>y. y < block_size c B \<Longrightarrow> resolve (length (all_blocks B)) B c y \<noteq> resolve (length (all_blocks B)) B b x"
  shows "content c B' = content c B"
proof
  fix y
  let ?n = "length (all_blocks B)"
  obtain i where i: "i < ?n" "b = all_blocks B ! i" using device_index [OF assms(1)] .
  have wf: "blocks_wf B" "writable ?n B b" using assms(1) by (simp_all add: device_ok_def)
  obtain d z where dz: "resolve ?n B b x = (d, z)" by fastforce
  have B': "same_shape B B'" "media B' = (media B)(d := (media B d)(z := bs))"
    using block_write_n_ok [OF wf(1) i(1) i(1), of x d z bs] assms(2,3) wf(2) i dz
    by (auto simp: block_write_def block_size_def)
  have "all_blocks B' = all_blocks B" using B'(1) by (simp add: same_shape_def)
  then show "content c B' y = content c B y"
    using assms(4) [of y] dz B'(2) same_shape_resolve [OF B'(1)] same_shape_size [OF B'(1)]
    by (auto simp: content_def split: prod.splits)
qed

lemma partitions_disjoint:
  assumes "device_ok b B" "device_ok c B"
    and d: "driver (blk B b) = Partition_of r s1" "driver (blk B c) = Partition_of r s2"
    and "unat s1 + unat (block_size b B) \<le> unat s2 \<or> unat s2 + unat (block_size c B) \<le> unat s1"
    and x: "x < block_size b B" and y: "y < block_size c B"
  shows "resolve (length (all_blocks B)) B c y \<noteq> resolve (length (all_blocks B)) B b x"
proof -
  obtain i where i: "i < length (all_blocks B)" "b = all_blocks B ! i" using device_index [OF assms(1)] .
  obtain k where k: "k < length (all_blocks B)" "c = all_blocks B ! k" using device_index [OF assms(2)] .
  have wf: "blocks_wf B" using assms(1) by (simp add: device_ok_def)
  obtain n where n: "length (all_blocks B) = Suc n" using i(1) by (cases "length (all_blocks B)") auto
  obtain j where j: "j < i" "r = all_blocks B ! j" "s1 + x < bsize (blk B r)" "unat (s1 + x) = unat s1 + unat x"
    using partition_sector [OF wf i(1), of r s1 x] d(1) x i(2) by (auto simp: block_size_def)
  have k': "s2 + y < bsize (blk B r)" "unat (s2 + y) = unat s2 + unat y"
    using partition_sector [OF wf k(1), of r s2 y] d(2) y k(2) by (auto simp: block_size_def)
  have "s1 + x \<noteq> s2 + y"
  proof
    assume "s1 + x = s2 + y"
    then have "unat s1 + unat x = unat s2 + unat y" using j(4) k'(2) by simp
    then show False using assms(5) x y by (auto simp: word_less_nat_alt)
  qed
  then show ?thesis using resolve_inj [OF wf, of j n "s2 + y" "s1 + x"] i(1) j k'(1) d n by auto
qed

section \<open>Properties\<close>

text \<open>A disk of 100 sectors with two partitions, at sectors 10 to 29 and 30 to 79.\<close>

definition wblocks :: blocks where
  "wblocks = \<lparr>blk = (\<lambda>b.
       if b = 4 then \<lparr>bname = ''hda'', btype = BLOCK_RAW, bsize = 100, driver = Ide_disk 0, read_cnt = 0, write_cnt = 0\<rparr>
       else if b = 5 then \<lparr>bname = ''hda1'', btype = BLOCK_FILESYS, bsize = 20, driver = Partition_of 4 10, read_cnt = 0,
         write_cnt = 0\<rparr>
       else \<lparr>bname = ''hda2'', btype = BLOCK_SWAP, bsize = 50, driver = Partition_of 4 30, read_cnt = 0, write_cnt = 0\<rparr>),
     all_blocks = [4, 5, 6], by_role = (\<lambda>_. 0), media = (\<lambda>_ _. replicate 512 0)\<rparr>"

lemma wblocks_wf: "blocks_wf wblocks"
  unfolding blocks_wf_def by (auto simp: wblocks_def less_Suc_eq nth_Cons split: nat.split)

lemma wblocks_ok: "device_ok 4 wblocks" "device_ok 5 wblocks" "device_ok 6 wblocks"
  using wblocks_wf by (simp_all add: device_ok_def wblocks_def)

text \<open>C39.  A block device is storage: a sector that was written is read back, the other sectors of the device are as
  before, and a sector past the end panics.  Partitions of one device that do not overlap are isolated
  from each other: a write through one of them leaves the contents of the other.\<close>

theorem partitions_isolated:
  assumes "device_ok b B" "device_ok c B" "driver (blk B b) = Partition_of r s1" "driver (blk B c) = Partition_of r s2"
    and "unat s1 + unat (block_size b B) \<le> unat s2 \<or> unat s2 + unat (block_size c B) \<le> unat s1"
    and "x < block_size b B"
  shows "\<exists>B' B''. block_write b x bs B = Inr B' \<and> block_read b x B' = Inr (bs, B'') \<and>
    (\<forall>y. y \<noteq> x \<longrightarrow> content b B' y = content b B y) \<and> content c B' = content c B \<and>
    (\<forall>y \<ge> block_size b B. \<exists>msg. block_write b y bs B = Inl (Panic msg))"
proof -
  obtain B' B'' where B': "block_write b x bs B = Inr B'" "block_read b x B' = Inr (bs, B'')"
    "content b B'' = (content b B)(x := bs)"
    using dev.read_back [OF assms(1,6)] by blast
  have B1: "content b B' = (content b B)(x := bs)" using device_write [OF assms(1,6), of bs] B'(1) by simp
  have "content c B' = content c B"
    using partitions_disjoint [OF assms(1-6)] by (rule device_write_other [OF assms(1,6) B'(1)])
  moreover have "\<exists>msg. block_write b y bs B = Inl (Panic msg)" if "y \<ge> block_size b B" for y
    using device_bad(2) [OF assms(1) that] .
  ultimately show ?thesis using B'(1,2) B1 by auto
qed

theorem partitions_isolated_witness:
  "\<exists>B' B''. block_write 5 7 [1, 2, 3] wblocks = Inr B' \<and> block_read 5 7 B' = Inr ([1, 2, 3], B'') \<and>
     content 6 B' = content 6 wblocks"
  using partitions_isolated [OF wblocks_ok(2,3), of 4 10 30 7 "[1, 2, 3]"] by (auto simp: wblocks_def block_size_def)

text \<open>When the partition table has no extended partition, \<open>partition_scan\<close> returns, registers devices that lie
  within the disk, and keeps the devices that are there and the contents of the disks.\<close>

theorem partition_scan_correct:
  assumes "device_ok b B" "0 < block_size b B" "fresh_mallocs ms B" "length ms \<ge> 9"
    and "\<forall>i\<in>{0, 1, 2, 3}. entry_size (content b B 0) i = 0 \<or> \<not> is_extended (entry_type (content b B 0) i)"
  shows "\<exists>ms' B'. partition_scan (Suc n) b ms B = Inr (ms', B') \<and> blocks_wf B' \<and> extends_blocks B B'"
proof -
  obtain B1 where B1: "block_read b 0 B = Inr (content b B 0, B1)" "extends_blocks B B1" "all_blocks B1 = all_blocks B"
  proof -
    obtain i where i: "i < length (all_blocks B)" "b = all_blocks B ! i" using device_index [OF assms(1)] .
    have wf: "blocks_wf B" using assms(1) by (simp add: device_ok_def)
    obtain B' where "block_read_n (length (all_blocks B)) b 0 B = Inr (content b B 0, B')" "same_shape B B'" "media B' = media B"
      using block_read_n_ok [OF wf i(1) i(1), of 0] assms(2) i(2) by (auto simp: content_def block_size_def)
    then show thesis
      using that [of B'] same_shape_extends [OF wf] by (simp add: block_read_def same_shape_def)
  qed
  obtain p ms' where ms: "ms = p # ms'" "p \<noteq> 0" using assms(3,4) by (cases ms) (auto simp: fresh_mallocs_def)
  have f: "fresh_mallocs ms' B1" "length ms' \<ge> 2 * length [0, 1, 2, 3 :: nat]" "blocks_wf B1" "b \<in> set (all_blocks B1)"
    using assms(1,3,4) ms B1(2,3) by (auto simp: fresh_mallocs_def extends_blocks_def device_ok_def)
  have e: "\<forall>i\<in>set [0, 1, 2, 3]. entry_size (content b B 0) i = 0 \<or> \<not> is_extended (entry_type (content b B 0) i)"
    using assms(5) by simp
  obtain nr' ms'' B' where s': "scan_entries (read_partition_table n b) b (content b B 0) 0 0 [0, 1, 2, 3] (0, ms', B1) =
      Inr (nr', ms'', B')" "extends_blocks B1 B'"
    using scan_entries_ok [OF f(3,4,1,2) e] by blast
  have "\<exists>ms' B'. partition_scan (Suc n) b ms B = Inr (ms', B') \<and> extends_blocks B B'"
  proof (cases "content b B 0 ! 510 \<noteq> 0x55 \<or> content b B 0 ! 511 \<noteq> 0xaa")
    case True
    then show ?thesis
      using B1(1,2) assms(2) ms by (auto simp: partition_scan_def malloc_next_def simp del: scan_entries.simps)
  next
    case False
    then have "partition_scan (Suc n) b ms B = Inr (ms'', B')"
      using B1(1) assms(2) [unfolded word_gt_0] ms s'(1)
      by (simp add: partition_scan_def malloc_next_def del: scan_entries.simps)
    then show ?thesis using extends_blocks_trans [OF B1(2) s'(2)] by blast
  qed
  then show ?thesis by (auto simp: extends_blocks_def)
qed

theorem partition_scan_correct_witness:
  "\<exists>ms' B'. partition_scan 1 4 [11, 12, 13, 14, 15, 16, 17, 18, 19] wblocks = Inr (ms', B') \<and> blocks_wf B' \<and>
     extends_blocks wblocks B'"
proof -
  have "content 4 wblocks 0 = replicate 512 0" by (simp add: content_def wblocks_def block_size_def)
  then show ?thesis
    using partition_scan_correct [OF wblocks_ok(1), of "[11, 12, 13, 14, 15, 16, 17, 18, 19]" 0]
    by (simp add: entry_size_def le_word_def word_of_le_def fresh_mallocs_def wblocks_def block_size_def)
qed

text \<open>C40.  When the first entry of the table is an extended partition whose start, and twice its start, are
  within the device, \<open>partition_scan\<close> does not return: each level reads sector 0 again, not the sector it is
  called for.\<close>

theorem partition_scan_extended:
  assumes "extended_first b B ofs"
  shows "\<nexists>r. partition_scan n b ms B = Inr r"
proof -
  have deep: "\<nexists>r. read_partition_table n b (ofs + ofs) ofs (nr, ms, B) = Inr r" if "extended_first b B ofs" for n nr ms B
    using that
  proof (induction n arbitrary: ms B)
    case (Suc n)
    show ?case
      using Suc.prems Suc.IH by (intro extended_step) (auto simp: extended_first_def)
  qed simp
  have first: "\<nexists>r. read_partition_table n b ofs ofs (nr, ms, B) = Inr r" if "extended_first b B ofs" for n nr ms B
  proof (cases n)
    case (Suc k)
    have "ofs \<noteq> 0" "ofs < block_size b B" using that by (auto simp: extended_first_def)
    then show ?thesis unfolding Suc using deep that by (intro extended_step) auto
  qed simp
  have "\<nexists>r. read_partition_table n b 0 0 (0, ms, B) = Inr r"
  proof (cases n)
    case (Suc k)
    have "0 < block_size b B" using assms unfolding extended_first_def by (metis word_gt_0 word_not_simps(1))
    then show ?thesis unfolding Suc using first assms by (intro extended_step) auto
  qed simp
  then show ?thesis by (auto simp: partition_scan_def ebind_eq_Inr)
qed

definition wextended :: blocks where
  "wextended = wblocks\<lparr>media := (\<lambda>_ _. replicate 446 0 @ [0, 0, 0, 0, 5, 0, 0, 0, 10, 0, 0, 0, 1, 0, 0, 0] @ replicate 48 0
     @ [0x55, 0xaa])\<rparr>"

theorem partition_scan_extended_witness: "\<nexists>r. partition_scan 50 4 [11, 12, 13] wextended = Inr r"
proof -
  have "same_shape wblocks wextended" by (simp add: same_shape_def wextended_def)
  then have "blocks_wf wextended" "writable 3 wextended 4 = writable 3 wblocks 4"
    using wblocks_wf same_shape_wf same_shape_writable by blast+
  then have "device_ok 4 wextended" using wblocks_ok(1) by (simp add: device_ok_def wextended_def wblocks_def)
  then have "extended_first 4 wextended 10"
    by (simp add: extended_first_def content_def wextended_def wblocks_def block_size_def entry_type_def entry_size_def
        entry_offset_def is_extended_def le_word_def word_of_le_def nth_append)
  then show ?thesis by (rule partition_scan_extended)
qed

end
