(* ===== verification/Inode.thy ===== *)
theory Inode
  imports Block Bitmap "HOL-Library.Stream"
begin

text \<open>
  Inodes, files and the free map: \<open>src/filesys/inode.c\<close>, \<open>src/filesys/file.c\<close>, \<open>src/filesys/free-map.c\<close>.

  The state is a record: the block devices, the in-memory inodes and open files by their addresses (0 for a null
  pointer), the list of open inodes, the free map, and the stream of the results of the calls of \<open>malloc\<close> and \<open>calloc\<close> to come.
  An \<open>off_t\<close> is an integer.  A buffer is a list of bytes: \<open>inode_read_at\<close> returns the bytes it stores from the
  start of the buffer, \<open>inode_write_at\<close> takes them from a list and fails with \<open>Bad_access\<close> outside it.

  \<open>inode_write_at\<close> may call \<open>free_map_allocate\<close>, which writes the free map with \<open>inode_write_at\<close>, and its loop
  need not end; the number \<open>n\<close> bounds both.  The allocator is an argument of \<open>inode_write_at\<close>, and
  \<open>free_map_allocate\<close> ties the knot.
\<close>

section \<open>The state\<close>

record inode_disk =
  d_start :: u32
  d_length :: int
  d_magic :: u32
  d_sectors :: "u32 list"

record inode =
  i_sector :: u32
  open_cnt :: int
  removed :: bool
  deny_write_cnt :: int
  i_data :: inode_disk
  is_dir :: int

record ofile =
  f_inode :: nat
  f_pos :: int
  f_deny :: bool

datatype sector_loc = DIRECT | INDIRECT | DOUBLY_INDIRECT

record fs =
  devs :: blocks
  fs_device :: nat
  inodes :: "nat \<Rightarrow> inode option"
  open_inodes :: "nat list"
  location :: sector_loc
  files :: "nat \<Rightarrow> ofile option"
  free_map :: bitmap
  free_map_file :: nat
  mallocs :: "nat stream"

definition FREE_MAP_SECTOR :: u32 where
  "FREE_MAP_SECTOR = 0"

definition ROOT_DIR_SECTOR :: u32 where
  "ROOT_DIR_SECTOR = 1"

definition INODE_MAGIC :: u32 where
  "INODE_MAGIC = 0x494e4f44"

definition fs_malloc :: "fs \<Rightarrow> nat \<times> fs" where
  "fs_malloc s = (shd (mallocs s), s\<lparr>mallocs := stl (mallocs s)\<rparr>)"

definition fs_read :: "u32 \<Rightarrow> fs \<Rightarrow> (u8 list \<times> fs) res" where
  "fs_read x s = ebind (block_read (fs_device s) x (devs s)) (\<lambda>(bs, B). Inr (bs, s\<lparr>devs := B\<rparr>))"

definition fs_write :: "u32 \<Rightarrow> u8 list \<Rightarrow> fs \<Rightarrow> fs res" where
  "fs_write x bs s = ebind (block_write (fs_device s) x bs (devs s)) (\<lambda>B. Inr (s\<lparr>devs := B\<rparr>))"

definition get_inode :: "nat \<Rightarrow> fs \<Rightarrow> inode res" where
  "get_inode p s = (case inodes s p of None \<Rightarrow> Inl Bad_access | Some i \<Rightarrow> Inr i)"

definition set_inode :: "nat \<Rightarrow> inode \<Rightarrow> fs \<Rightarrow> fs" where
  "set_inode p i s = s\<lparr>inodes := (inodes s)(p \<mapsto> i)\<rparr>"

definition get_file :: "nat \<Rightarrow> fs \<Rightarrow> ofile res" where
  "get_file p s = (case files s p of None \<Rightarrow> Inl Bad_access | Some f \<Rightarrow> Inr f)"

definition set_file :: "nat \<Rightarrow> ofile \<Rightarrow> fs \<Rightarrow> fs" where
  "set_file p f s = s\<lparr>files := (files s)(p \<mapsto> f)\<rparr>"

text \<open>Array accesses and copies from a buffer.\<close>

definition idx :: "'a list \<Rightarrow> int \<Rightarrow> 'a res" where
  "idx xs i = (if 0 \<le> i \<and> i < int (length xs) then Inr (xs ! nat i) else Inl Bad_access)"

definition slice :: "u8 list \<Rightarrow> int \<Rightarrow> int \<Rightarrow> u8 list res" where
  "slice buf ofs n =
     (if 0 \<le> ofs \<and> 0 \<le> n \<and> ofs + n \<le> int (length buf) then Inr (take (nat n) (drop (nat ofs) buf)) else Inl Bad_access)"

text \<open>The division of C rounds towards zero.\<close>

definition cdiv :: "int \<Rightarrow> int \<Rightarrow> int" where
  "cdiv a b = (if a < 0 then - (- a div b) else a div b)"

definition crem :: "int \<Rightarrow> int \<Rightarrow> int" where
  "crem a b = a - cdiv a b * b"

text \<open>An inode as a sector: 128 little-endian words.\<close>

definition disk_bytes :: "inode_disk \<Rightarrow> u8 list" where
  "disk_bytes d = bytes_of_words (d_start d # word_of_int (d_length d) # d_magic d # d_sectors d)"

definition disk_of_bytes :: "u8 list \<Rightarrow> inode_disk" where
  "disk_of_bytes bs =
     (let ws = words_of_bytes bs
      in \<lparr>d_start = ws ! 0, d_length = sint (ws ! 1), d_magic = ws ! 2, d_sectors = drop 3 ws\<rparr>)"

definition zeros :: "u8 list" where
  "zeros = replicate 512 0"

section \<open>inode.c: sectors\<close>

definition bytes_to_sectors :: "int \<Rightarrow> nat" where
  "bytes_to_sectors sz = nat ((sz + 511) div 512)"

definition divide_up :: "int \<Rightarrow> int" where
  "divide_up sz = cdiv (sz + 511) 512"

definition byte_to_sector :: "nat \<Rightarrow> int \<Rightarrow> fs \<Rightarrow> (u32 \<times> fs) res" where
  "byte_to_sector p pos s =
     ebind (get_inode p s) (\<lambda>i.
     let spot = cdiv pos 512; sectors = d_sectors (i_data i)
     in if 0 \<le> spot \<and> spot \<le> 122 then
          ebind (idx sectors spot) (\<lambda>x. Inr (x, s\<lparr>location := DIRECT\<rparr>))
        else if 122 < spot \<and> spot \<le> 250 then
          ebind (idx sectors 123) (\<lambda>a. ebind (fs_read a s) (\<lambda>(bs, s).
          ebind (idx (words_of_bytes bs) (spot - 122)) (\<lambda>x. Inr (x, s\<lparr>location := INDIRECT\<rparr>))))
        else if 250 < spot then
          let first_spot = cdiv (spot - (122 + 128)) 128;
              second_spot = spot - (122 + 128) - 128 * first_spot
          in ebind (idx sectors 124) (\<lambda>a. ebind (fs_read a s) (\<lambda>(_, s).
             ebind (idx sectors first_spot) (\<lambda>a. ebind (fs_read a s) (\<lambda>(bs, s).
             ebind (idx (words_of_bytes bs) second_spot) (\<lambda>x. Inr (x, s\<lparr>location := DOUBLY_INDIRECT\<rparr>))))))
        else Inr (-1, s))"

definition inode_length :: "nat \<Rightarrow> fs \<Rightarrow> int res" where
  "inode_length p s = ebind (get_inode p s) (\<lambda>i. Inr (d_length (i_data i)))"

section \<open>inode.c: reading\<close>

text \<open>The loop of \<open>inode_read_at\<close>.  \<open>buf\<close> are the bytes stored so far, so that \<open>bytes_read\<close> is its length; \<open>bounce\<close> tells
  whether the bounce buffer is allocated.\<close>

definition chunk_of :: "int \<Rightarrow> int \<Rightarrow> int \<Rightarrow> int" where
  "chunk_of len sz offset =
     (let inode_left = len - offset; sector_left = 512 - crem offset 512;
          min_left = (if inode_left < sector_left then inode_left else sector_left)
      in if sz < min_left then sz else min_left)"

definition bounce_alloc :: "bool \<Rightarrow> fs \<Rightarrow> bool \<times> fs" where
  "bounce_alloc bounce s = (if bounce then (True, s) else case fs_malloc s of (a, s) \<Rightarrow> (a \<noteq> 0, s))"

function inode_read_loop :: "nat \<Rightarrow> int \<Rightarrow> int \<Rightarrow> u8 list \<Rightarrow> bool \<Rightarrow> fs \<Rightarrow> (int \<times> u8 list \<times> fs) res" where
  "inode_read_loop p sz offset buf bounce s =
     (if sz > 0 then
        ebind (byte_to_sector p offset s) (\<lambda>(sector_idx, s).
        ebind (inode_length p s) (\<lambda>len.
        if offset \<ge> len then Inr (0, buf, s)
        else
          let sector_ofs = crem offset 512; chunk_size = chunk_of len sz offset
          in if chunk_size \<le> 0 then Inr (int (length buf), buf, s)
             else if sector_ofs = 0 \<and> chunk_size = 512 then
               ebind (fs_read sector_idx s) (\<lambda>(bs, s).
               inode_read_loop p (sz - chunk_size) (offset + chunk_size) (buf @ bs) bounce s)
             else
               let (ok, s) = bounce_alloc bounce s
               in if \<not> ok then Inr (int (length buf), buf, s)
                  else ebind (fs_read sector_idx s) (\<lambda>(bs, s).
                       ebind (slice bs sector_ofs chunk_size) (\<lambda>d.
                       inode_read_loop p (sz - chunk_size) (offset + chunk_size) (buf @ d) True s))))
      else Inr (int (length buf), buf, s))"
  by auto

termination
  by (relation "measure (\<lambda>(p, sz, offset, buf, bounce, s). nat sz)") (auto simp: chunk_of_def Let_def)

declare inode_read_loop.simps [simp del]

definition inode_read_at :: "nat \<Rightarrow> int \<Rightarrow> int \<Rightarrow> fs \<Rightarrow> (int \<times> u8 list \<times> fs) res" where
  "inode_read_at p sz offset s = inode_read_loop p sz offset [] False s"

section \<open>inode.c: writing\<close>

type_synonym allocator = "u32 \<Rightarrow> fs \<Rightarrow> (u32 option \<times> fs) res"

text \<open>At the end of the file, or past it, the code calls \<open>free_map_allocate\<close> with an element of the array of the scratch
  inode as the pointer to store to.  The scratch inode is cleared, so that the pointer is null; an index past the
  array is \<open>Bad_access\<close>.\<close>

definition grow :: "allocator \<Rightarrow> u32 \<Rightarrow> int \<Rightarrow> fs \<Rightarrow> fs res" where
  "grow alloc sector_idx remaining_size s =
     (if unat sector_idx < 125 then
        ebind (alloc (word_of_int (divide_up remaining_size)) s) (\<lambda>(r, s).
        case r of None \<Rightarrow> Inr s | Some _ \<Rightarrow> Inl Bad_access)
      else Inl Bad_access)"

text \<open>One sector: the whole of it, or a part of it through the bounce buffer.\<close>

definition write_chunk :: "u32 \<Rightarrow> int \<Rightarrow> int \<Rightarrow> u8 list \<Rightarrow> int \<Rightarrow> fs \<Rightarrow> fs res" where
  "write_chunk sector_idx sector_ofs chunk_size buffer bytes_written s =
     (if sector_ofs = 0 \<and> chunk_size = 512 then
        ebind (slice buffer bytes_written 512) (\<lambda>d. fs_write sector_idx d s)
      else
        ebind (if sector_ofs > 0 \<or> chunk_size < 512 - sector_ofs then fs_read sector_idx s else Inr (zeros, s)) (\<lambda>(bs, s).
        ebind (slice buffer bytes_written chunk_size) (\<lambda>d.
        fs_write sector_idx (take (nat sector_ofs) bs @ d @ drop (nat (sector_ofs + chunk_size)) bs) s)))"

fun inode_write_loop ::
  "nat \<Rightarrow> allocator \<Rightarrow> nat \<Rightarrow> u8 list \<Rightarrow> int \<Rightarrow> int \<Rightarrow> int \<Rightarrow> bool \<Rightarrow> fs \<Rightarrow> (int \<times> fs) res" where
  "inode_write_loop 0 alloc p buffer sz offset bytes_written bounce s = Inl Out_of_fuel"
| "inode_write_loop (Suc n) alloc p buffer sz offset bytes_written bounce s =
     (if sz > 0 then
        ebind (byte_to_sector p offset s) (\<lambda>(sector_idx, s).
        ebind (inode_length p s) (\<lambda>len.
        let sector_ofs = crem offset 512; chunk_size = chunk_of len sz offset
        in ebind (if chunk_size \<le> 0 then grow alloc sector_idx (sz - bytes_written) s else Inr s) (\<lambda>s.
           let (ok, s) = (if sector_ofs = 0 \<and> chunk_size = 512 then (True, s) else bounce_alloc bounce s);
               bounce = (bounce \<or> \<not> (sector_ofs = 0 \<and> chunk_size = 512))
           in if \<not> ok then Inr (bytes_written, s)
              else ebind (write_chunk sector_idx sector_ofs chunk_size buffer bytes_written s) (\<lambda>s.
                   inode_write_loop n alloc p buffer (sz - chunk_size) (offset + chunk_size)
                     (bytes_written + chunk_size) bounce s))))
      else Inr (bytes_written, s))"

definition inode_write_at :: "nat \<Rightarrow> allocator \<Rightarrow> nat \<Rightarrow> u8 list \<Rightarrow> int \<Rightarrow> int \<Rightarrow> fs \<Rightarrow> (int \<times> fs) res" where
  "inode_write_at n alloc p buffer sz offset s =
     (let (disk_inode, s) = fs_malloc s
      in if disk_inode = 0 then Inl Bad_access
         else ebind (get_inode p s) (\<lambda>i.
              if deny_write_cnt i \<noteq> 0 then Inr (0, s)
              else inode_write_loop n alloc p buffer sz offset 0 False s))"

section \<open>free-map.c: allocation\<close>

text \<open>\<open>bitmap_write\<close> and \<open>bitmap_read\<close> on the free map file; a failure of the kernel is passed through.\<close>

definition file_writer :: "nat \<Rightarrow> allocator \<Rightarrow> nat \<Rightarrow> fs res \<Rightarrow> u8 list \<Rightarrow> u32 \<Rightarrow> u32 \<Rightarrow> u32 \<times> fs res" where
  "file_writer n alloc f r d sz ofs =
     (case ebind r (\<lambda>s. ebind (get_file f s) (\<lambda>file. inode_write_at n alloc (f_inode file) d (sint sz) (sint ofs) s)) of
        Inl e \<Rightarrow> (0, Inl e)
      | Inr (k, s) \<Rightarrow> (word_of_int k, Inr s))"

definition write_free_map :: "nat \<Rightarrow> allocator \<Rightarrow> fs \<Rightarrow> (bool \<times> fs) res" where
  "write_free_map n alloc s =
     (let (ok, r) = bitmap_write (file_writer n alloc (free_map_file s)) (free_map s) (Inr s)
      in ebind r (\<lambda>s. Inr (ok, s)))"

fun free_map_allocate :: "nat \<Rightarrow> u32 \<Rightarrow> fs \<Rightarrow> (u32 option \<times> fs) res" where
  "free_map_allocate 0 cnt s = Inl Out_of_fuel"
| "free_map_allocate (Suc n) cnt s =
     ebind (bitmap_scan_and_flip (free_map s) 0 cnt False) (\<lambda>(sector, b).
     let s = s\<lparr>free_map := b\<rparr>
     in if sector \<noteq> BITMAP_ERROR \<and> free_map_file s \<noteq> 0 then
          ebind (write_free_map n (free_map_allocate n) s) (\<lambda>(ok, s).
          if \<not> ok then ebind (bitmap_set_multiple (free_map s) sector cnt False) (\<lambda>b. Inr (None, s\<lparr>free_map := b\<rparr>))
          else Inr (Some sector, s))
        else Inr (if sector \<noteq> BITMAP_ERROR then Some sector else None, s))"

definition free_map_release :: "nat \<Rightarrow> u32 \<Rightarrow> u32 \<Rightarrow> fs \<Rightarrow> fs res" where
  "free_map_release n sector cnt s =
     ebind (bitmap_all (free_map s) sector cnt) (\<lambda>a. ebind (kassert a) (\<lambda>_.
     ebind (bitmap_set_multiple (free_map s) sector cnt False) (\<lambda>b.
     ebind (write_free_map n (free_map_allocate n) (s\<lparr>free_map := b\<rparr>)) (\<lambda>(_, s). Inr s))))"

section \<open>inode.c: creating, opening and closing\<close>

definition inode_init :: "fs \<Rightarrow> fs" where
  "inode_init s = s\<lparr>open_inodes := []\<rparr>"

text \<open>The loop of \<open>inode_create\<close> over the 128 sectors of an indirect block: the code takes the sector number for
  an address, so that the first sector it allocates is stored out of the array.\<close>

fun indirect_loop :: "nat \<Rightarrow> nat \<Rightarrow> fs \<Rightarrow> fs res" where
  "indirect_loop n 0 s = Inr s"
| "indirect_loop n (Suc j) s =
     ebind (free_map_allocate n 1 s) (\<lambda>(r, s). case r of None \<Rightarrow> indirect_loop n j s | Some _ \<Rightarrow> Inl Bad_access)"

text \<open>A call of \<open>free_map_allocate\<close> for the sector \<open>i\<close> of the new inode.\<close>

definition allocate_sector :: "nat \<Rightarrow> nat \<Rightarrow> inode_disk \<Rightarrow> fs \<Rightarrow> (bool \<times> inode_disk \<times> fs) res" where
  "allocate_sector n i d s =
     ebind (free_map_allocate n 1 s) (\<lambda>(r, s).
     case r of None \<Rightarrow> Inr (False, d, s)
     | Some x \<Rightarrow> if i < 125 then Inr (True, d\<lparr>d_sectors := (d_sectors d)[i := x]\<rparr>, s) else Inl Bad_access)"

fun create_loop :: "nat \<Rightarrow> u32 \<Rightarrow> nat \<Rightarrow> nat \<Rightarrow> inode_disk \<Rightarrow> fs \<Rightarrow> (bool \<times> fs) res" where
  "create_loop n sector 0 i d s = Inr (True, s)"
| "create_loop n sector (Suc k) i d s =
     ebind (allocate_sector n i d s) (\<lambda>(ok, d, s).
     if ok \<and> i < 123 then
       ebind (fs_write (d_sectors d ! i) zeros s) (\<lambda>s.
       ebind (fs_write sector (disk_bytes d) s) (\<lambda>s. create_loop n sector k (i + 1) d s))
     else
       ebind (allocate_sector n i d s) (\<lambda>(ok, d, s).
       if ok \<and> i = 123 then
         ebind (indirect_loop n 128 s) (\<lambda>s.
         ebind (fs_write sector (disk_bytes d) s) (\<lambda>s. create_loop n sector k (i + 1) d s))
       else
         ebind (allocate_sector n i d s) (\<lambda>(ok, d, s).
         if ok \<and> i = 124 then Inl Bad_access else Inr (False, s))))"

definition inode_create :: "nat \<Rightarrow> u32 \<Rightarrow> int \<Rightarrow> fs \<Rightarrow> (bool \<times> fs) res" where
  "inode_create n sector len s =
     ebind (kassert (len \<ge> 0)) (\<lambda>_.
     let (disk_inode, s) = fs_malloc s
     in if disk_inode \<noteq> 0 then
          let d = \<lparr>d_start = 0, d_length = len, d_magic = INODE_MAGIC, d_sectors = replicate 125 0\<rparr>
          in ebind (fs_write sector (disk_bytes d) s) (\<lambda>s. create_loop n sector (bytes_to_sectors len) 0 d s)
        else Inr (True, s))"

definition inode_reopen :: "nat \<Rightarrow> fs \<Rightarrow> (nat \<times> fs) res" where
  "inode_reopen p s =
     (if p \<noteq> 0 then ebind (get_inode p s) (\<lambda>i. Inr (p, set_inode p (i\<lparr>open_cnt := open_cnt i + 1\<rparr>) s)) else Inr (p, s))"

fun find_open :: "nat list \<Rightarrow> u32 \<Rightarrow> fs \<Rightarrow> nat res" where
  "find_open [] sector s = Inr 0"
| "find_open (p # ps) sector s = ebind (get_inode p s) (\<lambda>i. if i_sector i = sector then Inr p else find_open ps sector s)"

definition inode_open :: "u32 \<Rightarrow> fs \<Rightarrow> (nat \<times> fs) res" where
  "inode_open sector s =
     ebind (find_open (open_inodes s) sector s) (\<lambda>p.
     if p \<noteq> 0 then inode_reopen p s
     else
       let (p, s) = fs_malloc s
       in if p = 0 then Inr (0, s)
          else
            let s = s\<lparr>open_inodes := p # open_inodes s\<rparr>
            in ebind (fs_read sector s) (\<lambda>(bs, s).
               Inr (p, set_inode p \<lparr>i_sector = sector, open_cnt = 1, removed = False, deny_write_cnt = 0,
                 i_data = disk_of_bytes bs, is_dir = 0\<rparr> s)))"

definition inode_get_inumber :: "nat \<Rightarrow> fs \<Rightarrow> u32 res" where
  "inode_get_inumber p s = ebind (get_inode p s) (\<lambda>i. Inr (i_sector i))"

definition inode_close :: "nat \<Rightarrow> nat \<Rightarrow> fs \<Rightarrow> fs res" where
  "inode_close n p s =
     (if p = 0 then Inr s
      else ebind (get_inode p s) (\<lambda>i.
        let i = i\<lparr>open_cnt := open_cnt i - 1\<rparr>; s = set_inode p i s
        in if open_cnt i = 0 then
             let s = s\<lparr>open_inodes := remove1 p (open_inodes s)\<rparr>
             in ebind (if removed i then
                         ebind (free_map_release n (i_sector i) 1 s) (\<lambda>s.
                         free_map_release n (d_start (i_data i)) (of_nat (bytes_to_sectors (d_length (i_data i)))) s)
                       else Inr s) (\<lambda>s.
                Inr (s\<lparr>inodes := (inodes s)(p := None)\<rparr>))
           else Inr s))"

definition inode_remove :: "nat \<Rightarrow> fs \<Rightarrow> fs res" where
  "inode_remove p s =
     ebind (kassert (p \<noteq> 0)) (\<lambda>_. ebind (get_inode p s) (\<lambda>i.
     Inr (set_inode p (i\<lparr>removed := True, i_data := (i_data i)\<lparr>d_length := 0\<rparr>\<rparr>) s)))"

definition inode_deny_write :: "nat \<Rightarrow> fs \<Rightarrow> fs res" where
  "inode_deny_write p s =
     ebind (get_inode p s) (\<lambda>i.
     let i = i\<lparr>deny_write_cnt := deny_write_cnt i + 1\<rparr>
     in ebind (kassert (deny_write_cnt i \<le> open_cnt i)) (\<lambda>_. Inr (set_inode p i s)))"

definition inode_allow_write :: "nat \<Rightarrow> fs \<Rightarrow> fs res" where
  "inode_allow_write p s =
     ebind (get_inode p s) (\<lambda>i.
     ebind (kassert (deny_write_cnt i > 0)) (\<lambda>_. ebind (kassert (deny_write_cnt i \<le> open_cnt i)) (\<lambda>_.
     Inr (set_inode p (i\<lparr>deny_write_cnt := deny_write_cnt i - 1\<rparr>) s))))"

section \<open>file.c\<close>

definition file_open :: "nat \<Rightarrow> nat \<Rightarrow> fs \<Rightarrow> (nat \<times> fs) res" where
  "file_open n p s =
     (let (f, s) = fs_malloc s
      in if p \<noteq> 0 \<and> f \<noteq> 0 then Inr (f, set_file f \<lparr>f_inode = p, f_pos = 0, f_deny = False\<rparr> s)
         else ebind (inode_close n p s) (\<lambda>s. Inr (0, s)))"

definition file_reopen :: "nat \<Rightarrow> nat \<Rightarrow> fs \<Rightarrow> (nat \<times> fs) res" where
  "file_reopen n f s =
     ebind (get_file f s) (\<lambda>x. ebind (inode_reopen (f_inode x) s) (\<lambda>(p, s). file_open n p s))"

definition file_deny_write :: "nat \<Rightarrow> fs \<Rightarrow> fs res" where
  "file_deny_write f s =
     ebind (kassert (f \<noteq> 0)) (\<lambda>_. ebind (get_file f s) (\<lambda>x.
     if \<not> f_deny x then inode_deny_write (f_inode x) (set_file f (x\<lparr>f_deny := True\<rparr>) s) else Inr s))"

definition file_allow_write :: "nat \<Rightarrow> fs \<Rightarrow> fs res" where
  "file_allow_write f s =
     ebind (kassert (f \<noteq> 0)) (\<lambda>_. ebind (get_file f s) (\<lambda>x.
     if f_deny x then inode_allow_write (f_inode x) (set_file f (x\<lparr>f_deny := False\<rparr>) s) else Inr s))"

definition file_close :: "nat \<Rightarrow> nat \<Rightarrow> fs \<Rightarrow> fs res" where
  "file_close n f s =
     (if f \<noteq> 0 then
        ebind (file_allow_write f s) (\<lambda>s. ebind (get_file f s) (\<lambda>x.
        ebind (inode_close n (f_inode x) s) (\<lambda>s. Inr (s\<lparr>files := (files s)(f := None)\<rparr>))))
      else Inr s)"

definition file_get_inode :: "nat \<Rightarrow> fs \<Rightarrow> nat res" where
  "file_get_inode f s = ebind (get_file f s) (\<lambda>x. Inr (f_inode x))"

definition file_read_at :: "nat \<Rightarrow> int \<Rightarrow> int \<Rightarrow> fs \<Rightarrow> (int \<times> u8 list \<times> fs) res" where
  "file_read_at f sz ofs s = ebind (get_file f s) (\<lambda>x. inode_read_at (f_inode x) sz ofs s)"

definition file_read :: "nat \<Rightarrow> int \<Rightarrow> fs \<Rightarrow> (int \<times> u8 list \<times> fs) res" where
  "file_read f sz s =
     ebind (get_file f s) (\<lambda>x. ebind (inode_read_at (f_inode x) sz (f_pos x) s) (\<lambda>(k, bs, s).
     Inr (k, bs, set_file f (x\<lparr>f_pos := f_pos x + k\<rparr>) s)))"

definition file_write_at :: "nat \<Rightarrow> nat \<Rightarrow> u8 list \<Rightarrow> int \<Rightarrow> int \<Rightarrow> fs \<Rightarrow> (int \<times> fs) res" where
  "file_write_at n f buffer sz ofs s =
     ebind (get_file f s) (\<lambda>x. inode_write_at n (free_map_allocate n) (f_inode x) buffer sz ofs s)"

definition file_write :: "nat \<Rightarrow> nat \<Rightarrow> u8 list \<Rightarrow> int \<Rightarrow> fs \<Rightarrow> (int \<times> fs) res" where
  "file_write n f buffer sz s =
     ebind (get_file f s) (\<lambda>x.
     ebind (inode_write_at n (free_map_allocate n) (f_inode x) buffer sz (f_pos x) s) (\<lambda>(k, s).
     Inr (k, set_file f (x\<lparr>f_pos := f_pos x + k\<rparr>) s)))"

definition file_length :: "nat \<Rightarrow> fs \<Rightarrow> int res" where
  "file_length f s = ebind (kassert (f \<noteq> 0)) (\<lambda>_. ebind (get_file f s) (\<lambda>x. inode_length (f_inode x) s))"

definition file_seek :: "nat \<Rightarrow> int \<Rightarrow> fs \<Rightarrow> fs res" where
  "file_seek f new_pos s =
     ebind (kassert (f \<noteq> 0)) (\<lambda>_. ebind (kassert (new_pos \<ge> 0)) (\<lambda>_. ebind (get_file f s) (\<lambda>x.
     Inr (set_file f (x\<lparr>f_pos := new_pos\<rparr>) s))))"

definition file_tell :: "nat \<Rightarrow> fs \<Rightarrow> int res" where
  "file_tell f s = ebind (kassert (f \<noteq> 0)) (\<lambda>_. ebind (get_file f s) (\<lambda>x. Inr (f_pos x)))"

section \<open>free-map.c: the free map file\<close>

text \<open>\<open>store\<close> are the contents of the block that \<open>bitmap_create\<close> allocates for the bits, or \<open>None\<close>.\<close>

definition free_map_init :: "u32 list option \<Rightarrow> fs \<Rightarrow> fs res" where
  "free_map_init store s =
     (let (hdr, s) = fs_malloc s
      in ebind (bitmap_create (block_size (fs_device s) (devs s)) (hdr \<noteq> 0) store) (\<lambda>r.
         case r of None \<Rightarrow> Inl (Panic ''bitmap creation failed--file system device is too large'')
         | Some b \<Rightarrow>
             ebind (bitmap_mark b FREE_MAP_SECTOR) (\<lambda>b. ebind (bitmap_mark b ROOT_DIR_SECTOR) (\<lambda>b.
             Inr (s\<lparr>free_map := b\<rparr>)))))"

definition file_reader :: "nat \<Rightarrow> fs res \<Rightarrow> u32 \<Rightarrow> u32 \<Rightarrow> u8 list" where
  "file_reader f r sz ofs =
     (case ebind r (file_read_at f (sint sz) (sint ofs)) of Inl e \<Rightarrow> [] | Inr (k, bs, s) \<Rightarrow> take (nat k) bs)"

definition free_map_open :: "nat \<Rightarrow> fs \<Rightarrow> fs res" where
  "free_map_open n s =
     ebind (inode_open FREE_MAP_SECTOR s) (\<lambda>(p, s). ebind (file_open n p s) (\<lambda>(f, s).
     let s = s\<lparr>free_map_file := f\<rparr>
     in if f = 0 then Inl (Panic (''can'' @ [CHR 0x27] @ ''t open free map''))
        else ebind (file_read_at f (sint (byte_cnt (bit_cnt (free_map s)))) 0 s) (\<lambda>(_, _, s').
             ebind (bitmap_read (file_reader f) (free_map s) (Inr s)) (\<lambda>(ok, b).
             if \<not> ok then Inl (Panic (''can'' @ [CHR 0x27] @ ''t read free map'')) else Inr (s'\<lparr>free_map := b\<rparr>)))))"

definition free_map_close :: "nat \<Rightarrow> fs \<Rightarrow> fs res" where
  "free_map_close n s = file_close n (free_map_file s) s"

definition free_map_create :: "nat \<Rightarrow> fs \<Rightarrow> fs res" where
  "free_map_create n s =
     ebind (inode_create n FREE_MAP_SECTOR (sint (bitmap_file_size (free_map s))) s) (\<lambda>(ok, s).
     if \<not> ok then Inl (Panic ''free map creation failed'')
     else
       ebind (inode_open FREE_MAP_SECTOR s) (\<lambda>(p, s). ebind (file_open n p s) (\<lambda>(f, s).
       let s = s\<lparr>free_map_file := f\<rparr>
       in if f = 0 then Inl (Panic (''can'' @ [CHR 0x27] @ ''t open free map''))
          else ebind (write_free_map n (free_map_allocate n) s) (\<lambda>(ok, s).
               if \<not> ok then Inl (Panic (''can'' @ [CHR 0x27] @ ''t write free map'')) else Inr s))))"

end
