(* ===== verification/Inode_Data.thy ===== *)
theory Inode_Data
  imports Inode
begin

text \<open>
  What \<open>inode_read_at\<close> and \<open>inode_write_at\<close> do with the data of a file.

  \<open>sect s x\<close> is the contents of a sector of the file system device.  \<open>small_file s p i\<close> says that \<open>i\<close> is the inode at \<open>p\<close>,
  that its data are in direct sectors of the device, and that no two of them are the same.  \<open>file_byte s d k\<close> is byte
  number \<open>k\<close> of the file with the inode \<open>d\<close>.
\<close>

definition sect :: "fs \<Rightarrow> u32 \<Rightarrow> u8 list" where
  "sect s = content (fs_device s) (devs s)"

definition sector_cap :: "fs \<Rightarrow> u32" where
  "sector_cap s = block_size (fs_device s) (devs s)"

definition fs_ok :: "fs \<Rightarrow> bool" where
  "fs_ok s \<longleftrightarrow> device_ok (fs_device s) (devs s) \<and> (\<forall>x < sector_cap s. length (sect s x) = 512)"

text \<open>The answers of \<open>malloc\<close> that are left after some calls.\<close>

definition later :: "nat stream \<Rightarrow> nat stream \<Rightarrow> bool" where
  "later a b \<longleftrightarrow> (\<exists>k. b = sdrop k a)"

lemma later_refl [simp]: "later a a"
  by (auto simp: later_def intro: exI [of _ 0])

lemma later_stl [simp]: "later a (stl a)"
  by (auto simp: later_def intro: exI [of _ 1])

lemma later_trans [trans]: "later a b \<Longrightarrow> later b c \<Longrightarrow> later a c"
  by (auto simp: later_def sdrop_add)

lemma later_sset: "later a b \<Longrightarrow> sset b \<subseteq> sset a"
  by (auto simp: later_def sset_range sdrop_snth)

text \<open>What reads and writes of sectors, and calls of \<open>malloc\<close>, leave as it is.\<close>

definition same_files :: "fs \<Rightarrow> fs \<Rightarrow> bool" where
  "same_files s s' \<longleftrightarrow> inodes s' = inodes s \<and> open_inodes s' = open_inodes s \<and> files s' = files s \<and>
     free_map s' = free_map s \<and> free_map_file s' = free_map_file s \<and> fs_device s' = fs_device s \<and>
     sector_cap s' = sector_cap s \<and> fs_ok s' \<and> sset (mallocs s') \<subseteq> sset (mallocs s) \<and>
     later (mallocs s) (mallocs s')"

lemma same_files_refl [simp]: "fs_ok s \<Longrightarrow> same_files s s"
  by (simp add: same_files_def)

lemma same_files_trans: "same_files a b \<Longrightarrow> same_files b c \<Longrightarrow> same_files a c"
  by (auto simp: same_files_def intro: later_trans)

lemma fs_read_ok:
  assumes "fs_ok s" "x < sector_cap s"
  shows "\<exists>s'. fs_read x s = Inr (sect s x, s') \<and> same_files s s' \<and> sect s' = sect s"
proof -
  obtain B where B: "block_read (fs_device s) x (devs s) = Inr (sect s x, B)" "device_ok (fs_device s) B"
    "block_size (fs_device s) B = block_size (fs_device s) (devs s)" "content (fs_device s) B = content (fs_device s) (devs s)"
    using dev.rd_ok [of "fs_device s" "devs s" x] assms by (auto simp: fs_ok_def sector_cap_def sect_def)
  then show ?thesis
    using assms(1) by (auto simp: fs_read_def same_files_def fs_ok_def sector_cap_def sect_def)
qed

lemma fs_write_ok:
  assumes "fs_ok s" "x < sector_cap s" "length bs = 512"
  shows "\<exists>s'. fs_write x bs s = Inr s' \<and> same_files s s' \<and> sect s' = (sect s)(x := bs)"
proof -
  obtain B where B: "block_write (fs_device s) x bs (devs s) = Inr B" "device_ok (fs_device s) B"
    "block_size (fs_device s) B = block_size (fs_device s) (devs s)"
    "content (fs_device s) B = (content (fs_device s) (devs s))(x := bs)"
    using dev.wr_ok [of "fs_device s" "devs s" x bs] assms by (auto simp: fs_ok_def sector_cap_def)
  then show ?thesis
    using assms by (auto simp: fs_write_def same_files_def fs_ok_def sector_cap_def sect_def)
qed

lemma fs_malloc_same:
  assumes "fs_ok s" "fs_malloc s = (a, s')"
  shows "same_files s s'" "sect s' = sect s" "a \<in> sset (mallocs s)"
  using assms stl_sset by (auto simp: fs_malloc_def same_files_def fs_ok_def sector_cap_def sect_def shd_sset)

lemma location_same: "fs_ok s \<Longrightarrow> same_files s (s\<lparr>location := l\<rparr>)" "fs_ok s \<Longrightarrow> sect (s\<lparr>location := l\<rparr>) = sect s"
  by (simp_all add: same_files_def fs_ok_def sector_cap_def sect_def)

lemma bounce_alloc_same:
  assumes "fs_ok s" "0 \<notin> sset (mallocs s)"
  shows "\<exists>s'. bounce_alloc b s = (True, s') \<and> same_files s s' \<and> sect s' = sect s"
proof (cases b)
  case True
  then show ?thesis using assms by (simp add: bounce_alloc_def)
next
  case False
  obtain a s' where a: "fs_malloc s = (a, s')" by fastforce
  then have "a \<noteq> 0" using fs_malloc_same(3) [OF assms(1) a] assms(2) by metis
  then show ?thesis using False a fs_malloc_same [OF assms(1) a] by (auto simp: bounce_alloc_def)
qed

section \<open>Small files\<close>

definition small_file :: "fs \<Rightarrow> nat \<Rightarrow> inode \<Rightarrow> bool" where
  "small_file s p i \<longleftrightarrow> inodes s p = Some i \<and> length (d_sectors (i_data i)) = 125 \<and> 0 \<le> d_length (i_data i) \<and>
     d_length (i_data i) < 123 * 512 \<and>
     (\<forall>k < bytes_to_sectors (d_length (i_data i)). d_sectors (i_data i) ! k < sector_cap s) \<and>
     distinct (take (bytes_to_sectors (d_length (i_data i))) (d_sectors (i_data i)))"

definition file_byte :: "fs \<Rightarrow> inode_disk \<Rightarrow> nat \<Rightarrow> u8" where
  "file_byte s d k = sect s (d_sectors d ! (k div 512)) ! (k mod 512)"

definition file_bytes :: "fs \<Rightarrow> inode_disk \<Rightarrow> nat \<Rightarrow> nat \<Rightarrow> u8 list" where
  "file_bytes s d a n = map (file_byte s d) [a..<a + n]"

lemma small_file_sectors:
  assumes "small_file s p i"
  shows "bytes_to_sectors (d_length (i_data i)) \<le> 123"
  using assms zdiv_mono1 [of "d_length (i_data i) + 511" "123 * 512 + 511" 512]
  by (simp add: small_file_def bytes_to_sectors_def)

lemma small_file_same: "small_file s p i \<Longrightarrow> same_files s s' \<Longrightarrow> small_file s' p i"
  by (simp add: small_file_def same_files_def)

lemma file_bytes_same: "sect s' = sect s \<Longrightarrow> file_bytes s' d a n = file_bytes s d a n"
  by (simp add: file_bytes_def file_byte_def)

lemma file_bytes_append: "file_bytes s d a (m + n) = file_bytes s d a m @ file_bytes s d (a + m) n"
  using upt_add_eq_append [of a "a + m" n] by (simp add: file_bytes_def add.assoc flip: map_append)

lemma length_file_bytes [simp]: "length (file_bytes s d a n) = n"
  by (simp add: file_bytes_def)

lemma block_add: "r < 512 \<Longrightarrow> (512 * q + r) div 512 = q" "r < 512 \<Longrightarrow> (512 * q + r) mod 512 = r" for q r :: nat
  by simp_all

text \<open>The part of a file in one sector.\<close>

lemma file_bytes_sector:
  assumes "a mod 512 + n \<le> 512" "length (sect s (d_sectors d ! (a div 512))) = 512"
  shows "file_bytes s d a n = take n (drop (a mod 512) (sect s (d_sectors d ! (a div 512))))"
proof (rule nth_equalityI)
  fix k assume "k < length (file_bytes s d a n)"
  then have k: "k < n" by simp
  then have "(a + k) div 512 = a div 512" "(a + k) mod 512 = a mod 512 + k"
    using block_add [of "a mod 512 + k" "a div 512"] assms(1) by (simp_all add: add.assoc [symmetric])
  then show "file_bytes s d a n ! k = take n (drop (a mod 512) (sect s (d_sectors d ! (a div 512)))) ! k"
    using k assms by (simp add: file_bytes_def file_byte_def)
qed (use assms in simp)

lemma spot_sector:
  assumes "small_file s p i" "0 \<le> offset" "offset < 123 * 512"
  shows "\<exists>s'. byte_to_sector p offset s = Inr (d_sectors (i_data i) ! (nat offset div 512), s') \<and>
    s' = s\<lparr>location := DIRECT\<rparr>"
proof -
  have "cdiv offset 512 = int (nat offset div 512)" using assms(2) by (simp add: cdiv_def zdiv_int)
  moreover have "nat offset div 512 \<le> 122" using assms(3) by simp
  ultimately show ?thesis using assms(1) by (simp add: byte_to_sector_def get_inode_def small_file_def idx_def)
qed

lemma used_sector:
  assumes "small_file s p i" "0 \<le> offset" "offset < d_length (i_data i)"
  shows "d_sectors (i_data i) ! (nat offset div 512) < sector_cap s"
    "nat offset div 512 < bytes_to_sectors (d_length (i_data i))"
proof -
  show "nat offset div 512 < bytes_to_sectors (d_length (i_data i))"
    using assms(2,3) by (simp add: bytes_to_sectors_def)
  then show "d_sectors (i_data i) ! (nat offset div 512) < sector_cap s" using assms(1) by (simp add: small_file_def)
qed

lemma crem_512: "0 \<le> offset \<Longrightarrow> crem offset 512 = int (nat offset mod 512)"
  by (simp add: crem_def cdiv_def zmod_int minus_div_mult_eq_mod)

section \<open>Reading\<close>

text \<open>The chunk of one iteration.\<close>

lemma chunk_bounds:
  assumes "0 \<le> offset" "offset < len" "0 < sz"
  shows "0 < chunk_of len sz offset" "chunk_of len sz offset \<le> sz" "offset + chunk_of len sz offset \<le> len"
    "nat offset mod 512 + nat (chunk_of len sz offset) \<le> 512"
proof -
  define r where "r = nat offset mod 512"
  have r: "crem offset 512 = int r" "r < 512" using assms(1) by (simp_all add: crem_512 r_def)
  have c: "chunk_of len sz offset = min sz (min (len - offset) (512 - int r))"
    by (simp add: chunk_of_def Let_def r(1) min_def)
  show "0 < chunk_of len sz offset" "chunk_of len sz offset \<le> sz" "offset + chunk_of len sz offset \<le> len"
    "nat offset mod 512 + nat (chunk_of len sz offset) \<le> 512"
    using assms r unfolding c r_def [symmetric] by auto
qed

text \<open>One iteration of the loop of \<open>inode_read_at\<close>.\<close>

lemma read_step:
  assumes s: "fs_ok s" "small_file s p i" "0 \<notin> sset (mallocs s)"
    and o: "0 \<le> offset" "offset < d_length (i_data i)" "0 < sz"
    and c: "c = chunk_of (d_length (i_data i)) sz offset"
  shows "\<exists>bounce' s'. same_files s s' \<and> sect s' = sect s \<and>
    inode_read_loop p sz offset buf bounce s =
      inode_read_loop p (sz - c) (offset + c) (buf @ file_bytes s (i_data i) (nat offset) (nat c)) bounce' s'"
proof -
  let ?x = "d_sectors (i_data i) ! (nat offset div 512)"
  let ?s = "s\<lparr>location := DIRECT\<rparr>"
  have len: "inode_length p ?s = Inr (d_length (i_data i))"
    using s(2) by (simp add: inode_length_def get_inode_def small_file_def)
  have b: "byte_to_sector p offset s = Inr (?x, ?s)"
    using spot_sector [OF s(2) o(1)] o(2) s(2) by (auto simp: small_file_def)
  note ch = chunk_bounds [OF o, folded c]
  have x: "?x < sector_cap s" using used_sector(1) [OF s(2) o(1,2)] .
  have l512: "length (sect s ?x) = 512" using s(1) x by (simp add: fs_ok_def)
  have bytes: "file_bytes s (i_data i) (nat offset) (nat c) = take (nat c) (drop (nat offset mod 512) (sect s ?x))"
    using file_bytes_sector [OF ch(4) l512] .
  note loc = location_same [OF s(1), of DIRECT]
  have ok: "fs_ok ?s" "?x < sector_cap ?s" "0 \<notin> sset (mallocs ?s)"
    using loc(1) x s(3) by (auto simp: same_files_def)
  show ?thesis
  proof (cases "crem offset 512 = 0 \<and> c = 512")
    case True
    then have full: "file_bytes s (i_data i) (nat offset) (nat c) = sect s ?x"
      using bytes l512 o(1) by (simp add: crem_512)
    obtain s' where s': "fs_read ?x ?s = Inr (sect s ?x, s')" "same_files ?s s'" "sect s' = sect s"
      using fs_read_ok [OF ok(1,2)] loc(2) by auto
    have "inode_read_loop p sz offset buf bounce s = inode_read_loop p (sz - c) (offset + c) (buf @ sect s ?x) bounce s'"
      using True ch(1) o b len s'(1) by (subst inode_read_loop.simps) (simp add: c)
    then show ?thesis using same_files_trans [OF loc(1) s'(2)] s'(3) full by auto
  next
    case False
    obtain s1 where s1: "bounce_alloc bounce ?s = (True, s1)" "same_files ?s s1" "sect s1 = sect s"
      using bounce_alloc_same [OF ok(1,3), of bounce] loc(2) by auto
    have "fs_ok s1" "?x < sector_cap s1" using s1(2) ok(2) by (simp_all add: same_files_def)
    then obtain s2 where s2: "fs_read ?x s1 = Inr (sect s ?x, s2)" "same_files s1 s2" "sect s2 = sect s"
      using fs_read_ok [of s1 ?x] s1(3) by auto
    have sl: "slice (sect s ?x) (crem offset 512) c = Inr (file_bytes s (i_data i) (nat offset) (nat c))"
      using ch(1,4) l512 o(1) bytes by (simp add: slice_def crem_512)
    have "inode_read_loop p sz offset buf bounce s =
      inode_read_loop p (sz - c) (offset + c) (buf @ file_bytes s (i_data i) (nat offset) (nat c)) True s2"
      using False ch(1) o b len s1(1) s2(1) sl by (subst inode_read_loop.simps) (auto simp: c [symmetric] Let_def)
    then show ?thesis using same_files_trans [OF loc(1) same_files_trans [OF s1(2) s2(2)]] s2(3) by blast
  qed
qed

text \<open>The end of the loop: nothing left to read, or the end of the file.\<close>

lemma read_stop: "sz \<le> 0 \<Longrightarrow> inode_read_loop p sz offset buf bounce s = Inr (int (length buf), buf, s)"
  by (subst inode_read_loop.simps) simp

lemma read_eof:
  assumes "fs_ok s" "small_file s p i" "0 < sz" "d_length (i_data i) \<le> offset" "offset < 123 * 512"
  shows "\<exists>s'. inode_read_loop p sz offset buf bounce s = Inr (0, buf, s') \<and> same_files s s' \<and> sect s' = sect s"
proof -
  have "0 \<le> offset" using assms(2,4) by (simp add: small_file_def)
  then have b: "byte_to_sector p offset s = Inr (d_sectors (i_data i) ! (nat offset div 512), s\<lparr>location := DIRECT\<rparr>)"
    using spot_sector [OF assms(2) _ assms(5)] by auto
  have "inode_length p (s\<lparr>location := DIRECT\<rparr>) = Inr (d_length (i_data i))"
    using assms(2) by (simp add: inode_length_def get_inode_def small_file_def)
  then show ?thesis
    using b assms(3,4) location_same [OF assms(1)] by (subst inode_read_loop.simps) auto
qed

lemma read_loop_ok:
  "fs_ok s \<Longrightarrow> small_file s p i \<Longrightarrow> 0 \<notin> sset (mallocs s) \<Longrightarrow> 0 \<le> offset \<Longrightarrow> 0 \<le> sz \<Longrightarrow> offset + sz \<le> d_length (i_data i) \<Longrightarrow>
   \<exists>s'. inode_read_loop p sz offset buf bounce s =
     Inr (int (length buf) + sz, buf @ file_bytes s (i_data i) (nat offset) (nat sz), s') \<and> same_files s s' \<and> sect s' = sect s"
proof (induction "nat sz" arbitrary: sz offset buf bounce s rule: less_induct)
  case less
  show ?case
  proof (cases "sz = 0")
    case True
    then show ?thesis using less.prems by (simp add: read_stop file_bytes_def)
  next
    case False
    define c where "c = chunk_of (d_length (i_data i)) sz offset"
    have o: "offset < d_length (i_data i)" "0 < sz" using False less.prems by simp_all
    note ch = chunk_bounds [OF less.prems(4) o, folded c_def]
    obtain bounce' s1 where s1: "same_files s s1" "sect s1 = sect s"
      "inode_read_loop p sz offset buf bounce s =
        inode_read_loop p (sz - c) (offset + c) (buf @ file_bytes s (i_data i) (nat offset) (nat c)) bounce' s1"
      using read_step [OF less.prems(1-4) o c_def] by blast
    have p: "fs_ok s1" "small_file s1 p i" "0 \<notin> sset (mallocs s1)"
      using s1(1) small_file_same [OF less.prems(2) s1(1)] less.prems(3) by (auto simp: same_files_def)
    obtain s2 where s2: "inode_read_loop p (sz - c) (offset + c) (buf @ file_bytes s (i_data i) (nat offset) (nat c)) bounce' s1 =
        Inr (int (length (buf @ file_bytes s (i_data i) (nat offset) (nat c))) + (sz - c),
          (buf @ file_bytes s (i_data i) (nat offset) (nat c)) @ file_bytes s1 (i_data i) (nat (offset + c)) (nat (sz - c)), s2)"
      "same_files s1 s2" "sect s2 = sect s1"
      using less.hyps [OF _ p, of "sz - c" "offset + c" "buf @ file_bytes s (i_data i) (nat offset) (nat c)" bounce'] ch
        less.prems(4,6) o by auto
    have "nat sz = nat c + nat (sz - c)" "nat (offset + c) = nat offset + nat c" using ch less.prems(4) by auto
    then have "file_bytes s (i_data i) (nat offset) (nat sz) =
        file_bytes s (i_data i) (nat offset) (nat c) @ file_bytes s1 (i_data i) (nat (offset + c)) (nat (sz - c))"
      using file_bytes_append [of s "i_data i" "nat offset" "nat c" "nat (sz - c)"] file_bytes_same [OF s1(2)] by simp
    then show ?thesis
      using s1(3) s2(1) same_files_trans [OF s1(1) s2(2)] s2(3) s1(2) ch(1) by auto
  qed
qed

text \<open>A read that goes past the end of the file stores what is there, and returns 0.\<close>

lemma read_loop_past:
  "fs_ok s \<Longrightarrow> small_file s p i \<Longrightarrow> 0 \<notin> sset (mallocs s) \<Longrightarrow> 0 \<le> offset \<Longrightarrow> offset \<le> d_length (i_data i) \<Longrightarrow>
   d_length (i_data i) < offset + sz \<Longrightarrow>
   \<exists>s'. inode_read_loop p sz offset buf bounce s =
     Inr (0, buf @ file_bytes s (i_data i) (nat offset) (nat (d_length (i_data i) - offset)), s') \<and> same_files s s' \<and>
     sect s' = sect s"
proof (induction "nat sz" arbitrary: sz offset buf bounce s rule: less_induct)
  case less
  show ?case
  proof (cases "offset = d_length (i_data i)")
    case True
    then show ?thesis
      using read_eof [OF less.prems(1,2), of sz offset buf bounce] less.prems by (auto simp: small_file_def file_bytes_def)
  next
    case False
    define c where "c = chunk_of (d_length (i_data i)) sz offset"
    have o: "offset < d_length (i_data i)" "0 < sz" using False less.prems by simp_all
    note ch = chunk_bounds [OF less.prems(4) o, folded c_def]
    obtain bounce' s1 where s1: "same_files s s1" "sect s1 = sect s"
      "inode_read_loop p sz offset buf bounce s =
        inode_read_loop p (sz - c) (offset + c) (buf @ file_bytes s (i_data i) (nat offset) (nat c)) bounce' s1"
      using read_step [OF less.prems(1-4) o c_def] by blast
    have p: "fs_ok s1" "small_file s1 p i" "0 \<notin> sset (mallocs s1)"
      using s1(1) small_file_same [OF less.prems(2) s1(1)] less.prems(3) by (auto simp: same_files_def)
    let ?n = "nat (d_length (i_data i) - offset)" and ?m = "nat (d_length (i_data i) - (offset + c))"
    obtain s2 where s2: "inode_read_loop p (sz - c) (offset + c) (buf @ file_bytes s (i_data i) (nat offset) (nat c)) bounce' s1 =
        Inr (0, (buf @ file_bytes s (i_data i) (nat offset) (nat c)) @ file_bytes s1 (i_data i) (nat (offset + c)) ?m, s2)"
      "same_files s1 s2" "sect s2 = sect s1"
      using less.hyps [OF _ p, of "sz - c" "offset + c" "buf @ file_bytes s (i_data i) (nat offset) (nat c)" bounce'] ch
        less.prems(4,6) o by auto
    have "?n = nat c + ?m" "nat (offset + c) = nat offset + nat c" using ch less.prems(4) by auto
    then have "file_bytes s (i_data i) (nat offset) ?n =
        file_bytes s (i_data i) (nat offset) (nat c) @ file_bytes s1 (i_data i) (nat (offset + c)) ?m"
      using file_bytes_append [of s "i_data i" "nat offset" "nat c" ?m] file_bytes_same [OF s1(2)] by simp
    then show ?thesis using s1(3) s2(1) same_files_trans [OF s1(1) s2(2)] s2(3) s1(2) by auto
  qed
qed

section \<open>Writing within a file\<close>

abbreviation sector_cnt :: "inode \<Rightarrow> nat" where
  "sector_cnt i \<equiv> bytes_to_sectors (d_length (i_data i))"

text \<open>\<open>wrote s s' i a bs\<close>: the bytes \<open>bs\<close> are in the file from \<open>a\<close> on, the other bytes of its sectors are as before, and so are
  the sectors that are not its own.\<close>

definition wrote :: "fs \<Rightarrow> fs \<Rightarrow> inode \<Rightarrow> nat \<Rightarrow> u8 list \<Rightarrow> bool" where
  "wrote s s' i a bs \<longleftrightarrow>
     (\<forall>k < 512 * sector_cnt i. file_byte s' (i_data i) k =
        (if a \<le> k \<and> k < a + length bs then bs ! (k - a) else file_byte s (i_data i) k)) \<and>
     (\<forall>x. x \<notin> set (take (sector_cnt i) (d_sectors (i_data i))) \<longrightarrow> sect s' x = sect s x)"

lemma wrote_Nil: "sect s' = sect s \<Longrightarrow> wrote s s' i a []"
  by (auto simp: wrote_def file_byte_def)

lemma wrote_append:
  assumes "wrote s s1 i a bs" "wrote s1 s2 i (a + length bs) cs"
  shows "wrote s s2 i a (bs @ cs)"
  using assms by (auto simp: wrote_def nth_append)

lemma write_chunk_ok:
  assumes "fs_ok s" "x < sector_cap s" "r + c \<le> 512" "0 < c" "slice buffer w (int c) = Inr d"
  shows "\<exists>s'. write_chunk x (int r) (int c) buffer w s = Inr s' \<and> same_files s s' \<and>
    sect s' = (sect s)(x := take r (sect s x) @ d @ drop (r + c) (sect s x))"
proof -
  have l: "length (sect s x) = 512" using assms(1,2) by (simp add: fs_ok_def)
  have d: "length d = c" using assms(5) by (auto simp: slice_def split: if_splits)
  let ?bs = "take r (sect s x) @ d @ drop (r + c) (sect s x)"
  have bs: "length ?bs = 512" using l d assms(3) by simp
  show ?thesis
  proof (cases "r = 0 \<and> c = 512")
    case True
    then have "?bs = d" using l by simp
    then show ?thesis using True fs_write_ok [OF assms(1,2) bs] assms(5) by (simp add: write_chunk_def)
  next
    case False
    obtain s1 where s1: "fs_read x s = Inr (sect s x, s1)" "same_files s s1" "sect s1 = sect s"
      using fs_read_ok [OF assms(1,2)] by blast
    then obtain s2 where s2: "fs_write x ?bs s1 = Inr s2" "same_files s1 s2" "sect s2 = (sect s)(x := ?bs)"
      using fs_write_ok [of s1 x ?bs] assms(2) bs by (auto simp: same_files_def)
    have "int r > 0 \<or> int c < 512 - int r" using False assms(3) by auto
    then have "write_chunk x (int r) (int c) buffer w s = Inr s2"
      using False s1(1) s2(1) assms(5) by (auto simp: write_chunk_def nat_int_add)
    then show ?thesis using same_files_trans [OF s1(2) s2(2)] s2(3) by blast
  qed
qed

lemma splice_nth:
  "r + length d \<le> length l \<Longrightarrow> j < length l \<Longrightarrow>
   (take r l @ d @ drop (r + length d) l) ! j = (if r \<le> j \<and> j < r + length d then d ! (j - r) else l ! j)"
  by (auto simp: nth_append)

text \<open>A sector in which a part is replaced, seen as bytes of the file.\<close>

lemma splice_wrote:
  assumes s: "fs_ok s" "small_file s p i"
    and o: "a < nat (d_length (i_data i))" "a mod 512 + length d \<le> 512"
    and sect: "sect s' = (sect s)(x := take (a mod 512) (sect s x) @ d @ drop (a mod 512 + length d) (sect s x))"
    and x: "x = d_sectors (i_data i) ! (a div 512)"
  shows "wrote s s' i a d"
proof -
  let ?ss = "d_sectors (i_data i)" and ?n = "sector_cnt i"
  have a: "a div 512 < ?n" using o(1) by (simp add: bytes_to_sectors_def)
  have n: "?n \<le> length ?ss" using small_file_sectors [OF s(2)] s(2) by (simp add: small_file_def)
  have "x < sector_cap s" using s(2) a x by (simp add: small_file_def)
  then have l: "length (sect s x) = 512" using s(1) by (simp add: fs_ok_def)
  have "file_byte s' (i_data i) k = (if a \<le> k \<and> k < a + length d then d ! (k - a) else file_byte s (i_data i) k)"
    if k: "k < 512 * ?n" for k
  proof (cases "k div 512 = a div 512")
    case True
    have kd: "k = 512 * (a div 512) + k mod 512" using mult_div_mod_eq [of 512 k] True by simp
    have ad: "a = 512 * (a div 512) + a mod 512" by simp
    have "a \<le> k \<longleftrightarrow> a mod 512 \<le> k mod 512" "k < a + length d \<longleftrightarrow> k mod 512 < a mod 512 + length d"
      "k - a = k mod 512 - a mod 512"
      using kd ad by linarith+
    moreover have "file_byte s' (i_data i) k = (take (a mod 512) (sect s x) @ d @ drop (a mod 512 + length d) (sect s x)) ! (k mod 512)"
      "file_byte s (i_data i) k = sect s x ! (k mod 512)"
      unfolding file_byte_def True sect x by simp_all
    ultimately show ?thesis using splice_nth [of "a mod 512" d "sect s x" "k mod 512"] l o(2) by simp
  next
    case False
    have "k < ?n * 512" using k by (simp only: mult.commute)
    then have kn: "k div 512 < ?n" by (rule less_mult_imp_div_less)
    have "distinct (take ?n ?ss)" using s(2) by (simp only: small_file_def)
    then have "take ?n ?ss ! (k div 512) \<noteq> take ?n ?ss ! (a div 512)"
      using nth_eq_iff_index_eq [of "take ?n ?ss" "k div 512" "a div 512"] n kn a False by simp
    then have "?ss ! (k div 512) \<noteq> x" using kn a x by simp
    moreover have "\<not> (a \<le> k \<and> k < a + length d)"
    proof
      assume "a \<le> k \<and> k < a + length d"
      then have "k = a + (k - a)" "k - a < length d" by auto
      then have "k = 512 * (a div 512) + (a mod 512 + (k - a))" "a mod 512 + (k - a) < 512"
        using o(2) mult_div_mod_eq [of 512 a] by linarith+
      then show False using block_add(1) [of "a mod 512 + (k - a)" "a div 512"] False by metis
    qed
    ultimately show ?thesis by (auto simp: file_byte_def sect)
  qed
  moreover have "x \<in> set (take ?n ?ss)" using a n nth_mem [of "a div 512" "take ?n ?ss"] by (simp add: x)
  ultimately show ?thesis by (auto simp: wrote_def sect)
qed

lemma write_step:
  assumes s: "fs_ok s" "small_file s p i" "0 \<notin> sset (mallocs s)"
    and o: "0 \<le> offset" "offset < d_length (i_data i)" "0 < sz"
    and w: "0 \<le> w" "w + sz \<le> int (length buffer)"
    and c: "c = chunk_of (d_length (i_data i)) sz offset"
  shows "\<exists>bounce' s'. same_files s s' \<and> wrote s s' i (nat offset) (take (nat c) (drop (nat w) buffer)) \<and>
    inode_write_loop (Suc n) alloc p buffer sz offset w bounce s =
      inode_write_loop n alloc p buffer (sz - c) (offset + c) (w + c) bounce' s'"
proof -
  let ?x = "d_sectors (i_data i) ! (nat offset div 512)"
  let ?s = "s\<lparr>location := DIRECT\<rparr>"
  have len: "inode_length p ?s = Inr (d_length (i_data i))"
    using s(2) by (simp add: inode_length_def get_inode_def small_file_def)
  have b: "byte_to_sector p offset s = Inr (?x, ?s)"
    using spot_sector [OF s(2) o(1)] o(2) s(2) by (auto simp: small_file_def)
  note ch = chunk_bounds [OF o, folded c]
  have x: "?x < sector_cap s" using used_sector(1) [OF s(2) o(1,2)] .
  note loc = location_same [OF s(1), of DIRECT]
  have ok: "fs_ok ?s" "0 \<notin> sset (mallocs ?s)" using loc(1) s(3) by (auto simp: same_files_def)
  let ?full = "crem offset 512 = 0 \<and> c = 512"
  obtain s1 where s1: "(if ?full then (True, ?s) else bounce_alloc bounce ?s) = (True, s1)" "same_files ?s s1"
    "sect s1 = sect s"
    using bounce_alloc_same [OF ok, of bounce] ok(1) loc(2) by (cases ?full) auto
  have ok1: "fs_ok s1" "?x < sector_cap s1" "small_file s1 p i"
    using s1(2) x loc(1) small_file_same [OF s(2) same_files_trans [OF loc(1) s1(2)]] by (auto simp: same_files_def)
  let ?d = "take (nat c) (drop (nat w) buffer)"
  have d: "slice buffer w (int (nat c)) = Inr ?d" "length ?d = nat c" using ch(1,2) w by (auto simp: slice_def)
  obtain s2 where s2: "write_chunk ?x (int (nat offset mod 512)) (int (nat c)) buffer w s1 = Inr s2" "same_files s1 s2"
    "sect s2 = (sect s1)(?x := take (nat offset mod 512) (sect s1 ?x) @ ?d @ drop (nat offset mod 512 + nat c) (sect s1 ?x))"
    using write_chunk_ok [OF ok1(1,2) ch(4) _ d(1)] ch(1) by auto
  have "wrote s1 s2 i (nat offset) ?d"
    using splice_wrote [OF ok1(1,3), of "nat offset" ?d s2 ?x] o(1,2) ch(4) s2(3) unfolding d(2) by auto
  then have wr: "wrote s s2 i (nat offset) ?d" using s1(3) by (simp add: wrote_def file_byte_def)
  have wc: "write_chunk ?x (crem offset 512) c buffer w s1 = Inr s2" using s2(1) o(1) ch(1) by (simp add: crem_512)
  have "inode_write_loop (Suc n) alloc p buffer sz offset w bounce s =
      inode_write_loop n alloc p buffer (sz - c) (offset + c) (w + c) (bounce \<or> \<not> ?full) s2"
    using b len o(3) ch(1) s1(1) wc by (simp add: c [symmetric] Let_def)
  then show ?thesis using same_files_trans [OF loc(1) same_files_trans [OF s1(2) s2(2)]] wr by blast
qed

lemma write_loop_ok:
  "fs_ok s \<Longrightarrow> small_file s p i \<Longrightarrow> 0 \<notin> sset (mallocs s) \<Longrightarrow> 0 \<le> offset \<Longrightarrow> 0 \<le> sz \<Longrightarrow> offset + sz \<le> d_length (i_data i) \<Longrightarrow>
   0 \<le> w \<Longrightarrow> w + sz \<le> int (length buffer) \<Longrightarrow> nat sz < n \<Longrightarrow>
   \<exists>s'. inode_write_loop n alloc p buffer sz offset w bounce s = Inr (w + sz, s') \<and> same_files s s' \<and>
     wrote s s' i (nat offset) (take (nat sz) (drop (nat w) buffer))"
proof (induction n arbitrary: sz offset w bounce s)
  case (Suc n)
  show ?case
  proof (cases "sz = 0")
    case True
    then show ?thesis using Suc.prems by (simp add: wrote_Nil)
  next
    case False
    define c where "c = chunk_of (d_length (i_data i)) sz offset"
    have o: "offset < d_length (i_data i)" "0 < sz" using False Suc.prems by simp_all
    note ch = chunk_bounds [OF Suc.prems(4) o, folded c_def]
    let ?d = "take (nat c) (drop (nat w) buffer)"
    obtain bounce' s1 where s1: "same_files s s1" "wrote s s1 i (nat offset) ?d"
      "inode_write_loop (Suc n) alloc p buffer sz offset w bounce s =
        inode_write_loop n alloc p buffer (sz - c) (offset + c) (w + c) bounce' s1"
      using write_step [OF Suc.prems(1-4) o Suc.prems(7,8) c_def] by blast
    have p: "fs_ok s1" "small_file s1 p i" "0 \<notin> sset (mallocs s1)"
      using s1(1) small_file_same [OF Suc.prems(2) s1(1)] Suc.prems(3) by (auto simp: same_files_def)
    have ar: "0 \<le> offset + c" "0 \<le> sz - c" "offset + c + (sz - c) \<le> d_length (i_data i)" "0 \<le> w + c"
      "w + c + (sz - c) \<le> int (length buffer)" "nat (sz - c) < n"
      using ch Suc.prems by auto
    obtain s2 where s2: "inode_write_loop n alloc p buffer (sz - c) (offset + c) (w + c) bounce' s1 = Inr (w + c + (sz - c), s2)"
      "same_files s1 s2" "wrote s1 s2 i (nat (offset + c)) (take (nat (sz - c)) (drop (nat (w + c)) buffer))"
      using Suc.IH [OF p ar, of bounce'] by blast
    have "length ?d = nat c" using ch(1,2) Suc.prems(7,8) by auto
    moreover have "nat (offset + c) = nat offset + nat c" "nat (w + c) = nat w + nat c" "nat sz = nat c + nat (sz - c)"
      using ch Suc.prems(4,7) by auto
    ultimately have "wrote s s2 i (nat offset) (take (nat sz) (drop (nat w) buffer))"
      using wrote_append [OF s1(2), of s2 "take (nat (sz - c)) (drop (nat (w + c)) buffer)"] s2(3)
      by (simp add: take_add add.commute)
    then show ?thesis using s1(3) s2(1) same_files_trans [OF s1(1) s2(2)] by auto
  qed
qed simp

lemma inode_write_at_ok:
  assumes "fs_ok s" "small_file s p i" "0 \<notin> sset (mallocs s)" "deny_write_cnt i = 0"
    and "0 \<le> offset" "offset + int (length bs) \<le> d_length (i_data i)" "length bs < n"
  shows "\<exists>s'. inode_write_at n alloc p bs (int (length bs)) offset s = Inr (int (length bs), s') \<and> same_files s s' \<and>
    wrote s s' i (nat offset) bs"
proof -
  obtain a s1 where a: "fs_malloc s = (a, s1)" by fastforce
  note m = fs_malloc_same [OF assms(1) a]
  have "a \<noteq> 0" using m(3) assms(3) by metis
  have ok: "fs_ok s1" "small_file s1 p i" "0 \<notin> sset (mallocs s1)"
    using m(1) small_file_same [OF assms(2) m(1)] assms(3) by (auto simp: same_files_def)
  obtain s' where s': "inode_write_loop n alloc p bs (int (length bs)) offset 0 False s1 = Inr (int (length bs), s')"
    "same_files s1 s'" "wrote s1 s' i (nat offset) bs"
    using write_loop_ok [OF ok assms(5) _ assms(6), of 0 bs n alloc False] assms(7) by auto
  have w: "wrote s s' i (nat offset) bs" using s'(3) m(2) by (simp add: wrote_def file_byte_def)
  have "inode_write_at n alloc p bs (int (length bs)) offset s = Inr (int (length bs), s')"
    using a \<open>a \<noteq> 0\<close> ok(2) assms(4) s'(1) by (simp add: inode_write_at_def get_inode_def small_file_def)
  then show ?thesis using w same_files_trans [OF m(1) s'(2)] by blast
qed

text \<open>The bytes that were written are in the file.\<close>

lemma wrote_file_bytes:
  assumes "small_file s p i" "wrote s s' i a bs" "int (a + length bs) \<le> d_length (i_data i)"
  shows "file_bytes s' (i_data i) a (length bs) = bs"
proof -
  have "a + k < 512 * sector_cnt i" if "k < length bs" for k
    using that assms(3) by (simp add: bytes_to_sectors_def)
  then show ?thesis using assms(2) by (intro nth_equalityI) (auto simp: file_bytes_def wrote_def)
qed

section \<open>Properties\<close>

text \<open>A file of 1300 bytes in the sectors 3, 4 and 5 of a partition.\<close>

definition winode :: inode where
  "winode = \<lparr>i_sector = 2, open_cnt = 1, removed = False, deny_write_cnt = 0,
     i_data = \<lparr>d_start = 0, d_length = 1300, d_magic = INODE_MAGIC, d_sectors = [3, 4, 5] @ replicate 122 0\<rparr>, is_dir = 0\<rparr>"

definition wfs :: fs where
  "wfs = \<lparr>devs = wblocks, fs_device = 5, inodes = [100 \<mapsto> winode], open_inodes = [100], location = DIRECT, files = Map.empty,
     free_map = \<lparr>bit_cnt = 20, bits = [63]\<rparr>, free_map_file = 0, mallocs = sconst 200\<rparr>"

lemma wfs_ok: "fs_ok wfs" "small_file wfs 100 winode" "0 \<notin> sset (mallocs wfs)"
proof -
  have "sect wfs x = replicate 512 0" if "x < 20" for x
    using that by (simp add: sect_def wfs_def content_def wblocks_def block_size_def)
  then show "fs_ok wfs"
    using wblocks_ok(2) by (simp add: fs_ok_def sector_cap_def wfs_def) (simp add: wblocks_def block_size_def)
  have "bytes_to_sectors 1300 = 3" by (simp add: bytes_to_sectors_def)
  then show "small_file wfs 100 winode"
    by (auto simp: small_file_def winode_def wfs_def sector_cap_def block_size_def wblocks_def less_Suc_eq numeral_3_eq_3)
  show "0 \<notin> sset (mallocs wfs)" by (simp add: wfs_def)
qed

text \<open>C8.  On a file whose data are in direct sectors, \<open>inode_read_at\<close> stores the bytes of the file from the offset on.  A read
  that ends within the file returns its size.  A read that goes past the end stores the bytes up to the end and
  returns 0, not their number.\<close>

theorem inode_read_at_correct:
  assumes "fs_ok s" "small_file s p i" "0 \<notin> sset (mallocs s)" "0 \<le> offset" "0 < sz" "offset \<le> d_length (i_data i)"
  shows "\<exists>s'. inode_read_at p sz offset s =
      (if offset + sz \<le> d_length (i_data i) then Inr (sz, file_bytes s (i_data i) (nat offset) (nat sz), s')
       else Inr (0, file_bytes s (i_data i) (nat offset) (nat (d_length (i_data i) - offset)), s')) \<and>
    same_files s s' \<and> sect s' = sect s"
proof (cases "offset + sz \<le> d_length (i_data i)")
  case True
  then show ?thesis using read_loop_ok [OF assms(1-4), of sz "[]" False] assms(5) by (simp add: inode_read_at_def)
next
  case False
  then show ?thesis using read_loop_past [OF assms(1-4,6), of sz "[]" False] by (simp add: inode_read_at_def)
qed

theorem inode_read_at_correct_witness:
  "\<exists>s'. inode_read_at 100 700 900 wfs = Inr (0, file_bytes wfs (i_data winode) 900 400, s')"
  using inode_read_at_correct [OF wfs_ok, of 900 700] by (auto simp: winode_def)

text \<open>C7.  A write within a file whose data are in direct sectors returns its size when the bound \<open>n\<close> is greater than it.  The
  bytes are in the file from the offset on; the other bytes of its sectors, the sectors of other files, the inodes,
  the open files and the free map are as before; and \<open>inode_read_at\<close> reads the bytes back.\<close>

theorem inode_write_at_correct:
  assumes "fs_ok s" "small_file s p i" "0 \<notin> sset (mallocs s)" "deny_write_cnt i = 0"
    and "0 \<le> offset" "bs \<noteq> []" "offset + int (length bs) \<le> d_length (i_data i)" "length bs < n"
  shows "\<exists>s'. inode_write_at n alloc p bs (int (length bs)) offset s = Inr (int (length bs), s') \<and> same_files s s' \<and>
    wrote s s' i (nat offset) bs \<and>
    (\<exists>s''. inode_read_at p (int (length bs)) offset s' = Inr (int (length bs), bs, s''))"
proof -
  obtain s' where s': "inode_write_at n alloc p bs (int (length bs)) offset s = Inr (int (length bs), s')" "same_files s s'"
    "wrote s s' i (nat offset) bs"
    using inode_write_at_ok [OF assms(1-5,7,8)] by blast
  have ok': "fs_ok s'" "small_file s' p i" "0 \<notin> sset (mallocs s')"
    using s'(2) small_file_same [OF assms(2) s'(2)] assms(3) by (auto simp: same_files_def)
  have "file_bytes s' (i_data i) (nat offset) (length bs) = bs"
    using wrote_file_bytes [OF assms(2) s'(3)] assms(5,7) by simp
  then have "\<exists>s''. inode_read_at p (int (length bs)) offset s' = Inr (int (length bs), bs, s'')"
    using read_loop_ok [OF ok' assms(5) _ assms(7), of "[]" False] by (auto simp: inode_read_at_def)
  then show ?thesis using s' by blast
qed

theorem inode_write_at_correct_witness:
  "\<exists>s'. inode_write_at 9 (\<lambda>c s. Inr (None, s)) 100 [1, 2, 3] 3 511 wfs = Inr (3, s') \<and>
     (\<exists>s''. inode_read_at 100 3 511 s' = Inr (3, [1, 2, 3], s''))"
  using inode_write_at_correct [OF wfs_ok, of 511 "[1, 2, 3]" 9 "\<lambda>c s. Inr (None, s)"] by (auto simp: winode_def)

end
