(* ===== verification/Inode_Grow.thy ===== *)
theory Inode_Grow
  imports Inode_Data
begin

text \<open>
  Writing past the end of a file, \<open>inode_write_at\<close> of \<open>src/filesys/inode.c\<close>: the call does not return.
  The lemmas on \<open>keeps\<close> say what writes and allocations leave of the state in every case.
\<close>

section \<open>Writing past the end of a file\<close>

text \<open>What every write leaves as it is.\<close>

definition keeps :: "fs \<Rightarrow> fs \<Rightarrow> bool" where
  "keeps s s' \<longleftrightarrow> inodes s' = inodes s \<and> files s' = files s \<and> free_map_file s' = free_map_file s \<and>
     sset (mallocs s') \<subseteq> sset (mallocs s)"

lemma keeps_refl [simp]: "keeps s s"
  by (simp add: keeps_def)

lemma keeps_trans [trans]: "keeps a b \<Longrightarrow> keeps b c \<Longrightarrow> keeps a c"
  by (auto simp: keeps_def)

lemma keeps_location [simp]: "keeps s (s\<lparr>location := l\<rparr>)"
  by (simp add: keeps_def)

lemma keeps_free_map [simp]: "keeps s (s\<lparr>free_map := b\<rparr>)"
  by (simp add: keeps_def)

lemma fs_read_keeps: "fs_read x s = Inr (bs, s') \<Longrightarrow> keeps s s'"
  by (auto simp: fs_read_def ebind_eq_Inr keeps_def)

lemma fs_write_keeps: "fs_write x bs s = Inr s' \<Longrightarrow> keeps s s'"
  by (auto simp: fs_write_def ebind_eq_Inr keeps_def)

lemma fs_malloc_keeps: "fs_malloc s = (a, s') \<Longrightarrow> keeps s s' \<and> a \<in> sset (mallocs s)"
  using stl_sset by (auto simp: fs_malloc_def keeps_def shd_sset)

lemma bounce_alloc_keeps: "bounce_alloc b s = (ok, s') \<Longrightarrow> keeps s s' \<and> (0 \<notin> sset (mallocs s) \<longrightarrow> ok)"
  using fs_malloc_keeps [of s] by (fastforce simp: bounce_alloc_def split: if_splits prod.splits)

lemma byte_to_sector_keeps:
  assumes "byte_to_sector p pos s = Inr (x, s')"
  shows "keeps s s'"
  using assms unfolding byte_to_sector_def Let_def
  by (auto simp: ebind_eq_Inr split: if_splits dest!: fs_read_keeps)
    (auto intro: keeps_trans)

lemma write_chunk_keeps: "write_chunk x r c buffer w s = Inr s' \<Longrightarrow> keeps s s'"
  unfolding write_chunk_def
  by (auto simp: ebind_eq_Inr split: if_splits dest: fs_write_keeps fs_read_keeps intro: keeps_trans)

definition alloc_keeps :: "allocator \<Rightarrow> bool" where
  "alloc_keeps alloc \<longleftrightarrow> (\<forall>c s r s'. alloc c s = Inr (r, s') \<longrightarrow> keeps s s')"

lemma grow_keeps: "alloc_keeps alloc \<Longrightarrow> grow alloc x k s = Inr s' \<Longrightarrow> keeps s s'"
  by (auto simp: grow_def ebind_eq_Inr alloc_keeps_def split: if_splits option.splits)

text \<open>One iteration of the loop of \<open>inode_write_at\<close>, taken apart.\<close>

lemma write_loop_step:
  assumes "inode_write_loop (Suc n) alloc p buffer sz offset w bounce s = Inr r" "0 < sz"
  shows "\<exists>x s1 len s2 ok s3 c. byte_to_sector p offset s = Inr (x, s1) \<and> inode_length p s1 = Inr len \<and>
    c = chunk_of len sz offset \<and> (if c \<le> 0 then grow alloc x (sz - w) s1 else Inr s1) = Inr s2 \<and>
    (if crem offset 512 = 0 \<and> c = 512 then (True, s2) else bounce_alloc bounce s2) = (ok, s3) \<and>
    (\<not> ok \<longrightarrow> r = (w, s3)) \<and>
    (ok \<longrightarrow> (\<exists>s4 bounce'. write_chunk x (crem offset 512) c buffer w s3 = Inr s4 \<and>
       inode_write_loop n alloc p buffer (sz - c) (offset + c) (w + c) bounce' s4 = Inr r))"
proof -
  obtain x s1 len where b: "byte_to_sector p offset s = Inr (x, s1)" "inode_length p s1 = Inr len"
    using assms by (auto simp: ebind_eq_Inr)
  let ?c = "chunk_of len sz offset"
  let ?full = "crem offset 512 = 0 \<and> ?c = 512"
  obtain s2 where g: "(if ?c \<le> 0 then grow alloc x (sz - w) s1 else Inr s1) = Inr s2"
    using assms b by (auto simp: ebind_eq_Inr Let_def simp del: split_paired_Ex)
  obtain ok s3 where o: "(if ?full then (True, s2) else bounce_alloc bounce s2) = (ok, s3)" by fastforce
  have r: "(if \<not> ok then Inr (w, s3)
     else ebind (write_chunk x (crem offset 512) ?c buffer w s3) (\<lambda>s.
       inode_write_loop n alloc p buffer (sz - ?c) (offset + ?c) (w + ?c) (bounce \<or> \<not> ?full) s)) = Inr r"
    using assms unfolding inode_write_loop.simps b ebind_Inr Let_def prod.case g o by simp
  have "ok \<longrightarrow> (\<exists>s4 bounce'. write_chunk x (crem offset 512) ?c buffer w s3 = Inr s4 \<and>
       inode_write_loop n alloc p buffer (sz - ?c) (offset + ?c) (w + ?c) bounce' s4 = Inr r)"
  proof
    assume ok
    then have "ebind (write_chunk x (crem offset 512) ?c buffer w s3) (\<lambda>s.
       inode_write_loop n alloc p buffer (sz - ?c) (offset + ?c) (w + ?c) (bounce \<or> \<not> ?full) s) = Inr r" using r by simp
    then show "\<exists>s4 bounce'. write_chunk x (crem offset 512) ?c buffer w s3 = Inr s4 \<and>
       inode_write_loop n alloc p buffer (sz - ?c) (offset + ?c) (w + ?c) bounce' s4 = Inr r"
      unfolding ebind_eq_Inr by blast
  qed
  moreover have "\<not> ok \<longrightarrow> r = (w, s3)" using r by auto
  ultimately show ?thesis using b g o by blast
qed

lemma write_loop_keeps:
  "alloc_keeps alloc \<Longrightarrow> inode_write_loop n alloc p buffer sz offset w bounce s = Inr (k, s') \<Longrightarrow> keeps s s'"
proof (induction n arbitrary: sz offset w bounce s)
  case (Suc n)
  show ?case
  proof (cases "0 < sz")
    case True
    obtain x s1 len s2 ok s3 c where st: "byte_to_sector p offset s = Inr (x, s1)"
      "(if c \<le> 0 then grow alloc x (sz - w) s1 else Inr s1) = Inr s2"
      "(if crem offset 512 = 0 \<and> c = 512 then (True, s2) else bounce_alloc bounce s2) = (ok, s3)"
      "\<not> ok \<longrightarrow> (k, s') = (w, s3)"
      "ok \<longrightarrow> (\<exists>s4 bounce'. write_chunk x (crem offset 512) c buffer w s3 = Inr s4 \<and>
         inode_write_loop n alloc p buffer (sz - c) (offset + c) (w + c) bounce' s4 = Inr (k, s'))"
      using write_loop_step [OF Suc.prems(2) True] by blast
    have "keeps s1 s2" using st(2) grow_keeps [OF Suc.prems(1)] by (auto split: if_splits)
    moreover have "keeps s2 s3" using st(3) bounce_alloc_keeps [of bounce s2 ok s3] by (simp split: if_splits)
    ultimately have "keeps s s3" using byte_to_sector_keeps [OF st(1)] keeps_trans by blast
    note k = this
    show ?thesis
    proof (cases ok)
      case True
      then show ?thesis using st(5) keeps_trans [OF k] keeps_trans write_chunk_keeps Suc.IH [OF Suc.prems(1)] by blast
    qed (use st(4) k in simp)
  qed (use Suc.prems in simp)
qed simp

lemma inode_write_at_keeps:
  assumes "alloc_keeps alloc" "inode_write_at n alloc p buffer sz offset s = Inr (k, s')"
  shows "keeps s s'"
proof -
  obtain a s1 where a: "fs_malloc s = (a, s1)" by fastforce
  have "keeps s1 s'"
    using assms(2) write_loop_keeps [OF assms(1)] a by (auto simp: inode_write_at_def ebind_eq_Inr split: if_splits)
  then show ?thesis using fs_malloc_keeps [OF a] keeps_trans by blast
qed

lemma write_free_map_keeps:
  assumes "alloc_keeps alloc" "write_free_map n alloc s = Inr (ok, s')"
  shows "keeps s s'"
proof -
  obtain f k where "get_file (free_map_file s) s = Inr f"
    "inode_write_at n alloc (f_inode f) (take (unat (byte_cnt (bit_cnt (free_map s)))) (bytes_of_words (bits (free_map s))))
       (sint (byte_cnt (bit_cnt (free_map s)))) (sint (0 :: u32)) s = Inr (k, s')"
    using assms(2) unfolding write_free_map_def bitmap_write_def Let_def file_writer_def
    by (auto simp: ebind_eq_Inr split: sum.splits prod.splits)
  then show ?thesis using inode_write_at_keeps [OF assms(1)] by blast
qed

lemma free_map_allocate_keeps: "alloc_keeps (free_map_allocate n)"
proof (induction n)
  case 0
  then show ?case by (simp add: alloc_keeps_def)
next
  case (Suc n)
  have "keeps s s'" if a: "free_map_allocate (Suc n) c s = Inr (r, s')" for c s r s'
  proof -
    obtain x b where "bitmap_scan_and_flip (free_map s) 0 c False = Inr (x, b)" using a by (auto simp: ebind_eq_Inr)
    note st = a [simplified free_map_allocate.simps this ebind_Inr prod.case Let_def]
    show ?thesis
    proof (cases "x \<noteq> BITMAP_ERROR \<and> free_map_file s \<noteq> 0")
      case True
      then obtain ok s1 where "write_free_map n (free_map_allocate n) (s\<lparr>free_map := b\<rparr>) = Inr (ok, s1)"
        "s' = s1 \<or> (\<exists>b'. s' = s1\<lparr>free_map := b'\<rparr>)"
        using st by (auto simp: ebind_eq_Inr split: if_splits)
      then show ?thesis using write_free_map_keeps [OF Suc] keeps_trans keeps_free_map by metis
    qed (use st in auto)
  qed
  then show ?case by (simp add: alloc_keeps_def)
qed

lemma write_loop_past:
  "alloc_keeps alloc \<Longrightarrow> inodes s p = Some i \<Longrightarrow> 0 \<notin> sset (mallocs s) \<Longrightarrow> 0 \<le> offset \<Longrightarrow> 0 < sz \<Longrightarrow>
   d_length (i_data i) < offset + sz \<Longrightarrow> inode_write_loop n alloc p buffer sz offset w bounce s \<noteq> Inr r"
proof (induction n arbitrary: sz offset w bounce s)
  case (Suc n)
  show ?case
  proof
    assume loop: "inode_write_loop (Suc n) alloc p buffer sz offset w bounce s = Inr r"
    obtain x s1 len s2 ok s3 c where st: "byte_to_sector p offset s = Inr (x, s1)" "inode_length p s1 = Inr len"
      "c = chunk_of len sz offset" "(if c \<le> 0 then grow alloc x (sz - w) s1 else Inr s1) = Inr s2"
      "(if crem offset 512 = 0 \<and> c = 512 then (True, s2) else bounce_alloc bounce s2) = (ok, s3)"
      "ok \<longrightarrow> (\<exists>s4 bounce'. write_chunk x (crem offset 512) c buffer w s3 = Inr s4 \<and>
         inode_write_loop n alloc p buffer (sz - c) (offset + c) (w + c) bounce' s4 = Inr r)"
      using write_loop_step [OF loop Suc.prems(5)] by blast
    have k1: "keeps s s1" using byte_to_sector_keeps [OF st(1)] .
    have k2: "keeps s s2" using st(4) grow_keeps [OF Suc.prems(1)] keeps_trans [OF k1] by (auto split: if_splits)
    have "keeps s2 s3 \<and> (0 \<notin> sset (mallocs s2) \<longrightarrow> ok)"
    proof (cases "crem offset 512 = 0 \<and> c = 512")
      case False
      then have "bounce_alloc bounce s2 = (ok, s3)" using st(5) by (simp only: if_False)
      then show ?thesis by (rule bounce_alloc_keeps)
    qed (use st(5) in simp)
    moreover have "0 \<notin> sset (mallocs s2)" using k2 Suc.prems(3) unfolding keeps_def by blast
    ultimately have k3: "keeps s s3" and ok using keeps_trans [OF k2] by blast+
    have len: "len = d_length (i_data i)"
      using st(2) k1 Suc.prems(2) by (auto simp: inode_length_def get_inode_def keeps_def ebind_eq_Inr)
    obtain s4 bounce' where s4: "write_chunk x (crem offset 512) c buffer w s3 = Inr s4"
      "inode_write_loop n alloc p buffer (sz - c) (offset + c) (w + c) bounce' s4 = Inr r"
      using st(6) \<open>ok\<close> by blast
    have "0 \<le> c" using s4(1) by (auto simp: write_chunk_def slice_def ebind_eq_Inr split: if_splits)
    have "c \<le> len - offset" unfolding st(3) by (auto simp: chunk_of_def Let_def)
    have k4: "keeps s s4" using keeps_trans [OF k3 write_chunk_keeps [OF s4(1)]] .
    have "inode_write_loop n alloc p buffer (sz - c) (offset + c) (w + c) bounce' s4 \<noteq> Inr r"
      using k4 Suc.prems \<open>0 \<le> c\<close> \<open>c \<le> len - offset\<close> len
      by (intro Suc.IH) (auto simp: keeps_def)
    then show False using s4(2) by blast
  qed
qed simp

lemma write_at_past:
  assumes "inodes s p = Some i" "deny_write_cnt i = 0" "0 \<notin> sset (mallocs s)"
    and "0 \<le> offset" "0 < sz" "d_length (i_data i) < offset + sz"
  shows "\<nexists>r. inode_write_at n (free_map_allocate m) p buffer sz offset s = Inr r"
proof -
  obtain a s1 where a: "fs_malloc s = (a, s1)" by fastforce
  have k: "keeps s s1" using fs_malloc_keeps [OF a] by blast
  then have i: "inodes s1 p = Some i" "0 \<notin> sset (mallocs s1)" using assms(1,3) by (auto simp: keeps_def)
  have "\<nexists>r. inode_write_loop n (free_map_allocate m) p buffer sz offset 0 False s1 = Inr r"
    using write_loop_past [OF free_map_allocate_keeps i assms(4-6)] by blast
  then show ?thesis using a i(1) assms(2) by (auto simp: inode_write_at_def get_inode_def)
qed

section \<open>Properties\<close>

text \<open>C16.  A write that goes past the end of a file does not return, whatever the bound, as long as \<open>malloc\<close> does
  not fail: at the end of the file the code stores through a null pointer when it gets a sector, and goes round
  the loop without progress when it does not.\<close>

theorem inode_write_at_past_end:
  assumes "inodes s p = Some i" "deny_write_cnt i = 0" "0 \<notin> sset (mallocs s)"
    and "0 \<le> offset" "0 < sz" "d_length (i_data i) < offset + sz"
  shows "\<nexists>r. inode_write_at n (free_map_allocate m) p buffer sz offset s = Inr r"
  using write_at_past [OF assms] .

theorem inode_write_at_past_end_witness:
  "\<nexists>r. inode_write_at 50 (free_map_allocate 50) 100 (replicate 10 7) 10 1295 wfs = Inr r"
  using inode_write_at_past_end [of wfs 100 winode 1295 10] wfs_ok(2,3) by (simp add: small_file_def winode_def)

end
