(* ===== verification/Inode_Alloc.thy ===== *)
theory Inode_Alloc
  imports Inode_Data
begin

text \<open>
  The free map and the creation of files: \<open>free_map_allocate\<close> of \<open>src/filesys/free-map.c\<close>, \<open>inode_create\<close> and
  \<open>inode_open\<close> of \<open>src/filesys/inode.c\<close>.

  \<open>free_map_ok s i\<close> is the invariant of the free map: a bit for every sector of the device, and an open file with the
  inode \<open>i\<close> that holds the bits and whose own sectors are marked as used.
\<close>

lemma sint_small: "uint w < 2 ^ 31 \<Longrightarrow> sint w = uint w" for w :: u32
proof -
  assume "uint w < 2 ^ 31"
  moreover have "- (2 ^ 31) \<le> uint w" by (rule order_trans [of _ 0]) simp_all
  ultimately have "signed_take_bit 31 (uint w) = uint w" by (intro signed_take_bit_int_eq_self)
  then show ?thesis by (simp add: sint_uint)
qed

abbreviation used :: "fs \<Rightarrow> nat set" where
  "used s \<equiv> used_bits (free_map s)"

abbreviation own_sectors :: "inode \<Rightarrow> u32 set" where
  "own_sectors i \<equiv> set (take (sector_cnt i) (d_sectors (i_data i)))"

definition map_bytes :: "bitmap \<Rightarrow> u8 list" where
  "map_bytes b = take (unat (byte_cnt (bit_cnt b))) (bytes_of_words (bits b))"

definition free_map_ok :: "fs \<Rightarrow> inode \<Rightarrow> bool" where
  "free_map_ok s i \<longleftrightarrow> bitmap_wf (free_map s) \<and> bit_cnt (free_map s) = sector_cap s \<and> unat (sector_cap s) + 31 < 2 ^ 32 \<and>
     free_map_file s \<noteq> 0 \<and> (\<exists>f. files s (free_map_file s) = Some f \<and> small_file s (f_inode f) i) \<and>
     deny_write_cnt i = 0 \<and> d_length (i_data i) = int (unat (byte_cnt (sector_cap s))) \<and> unat ` own_sectors i \<subseteq> used s"

lemma length_map_bytes:
  assumes "bitmap_wf b" "unat (bit_cnt b) + 31 < 2 ^ 32"
  shows "length (map_bytes b) = unat (byte_cnt (bit_cnt b))"
proof -
  have "unat (bit_cnt b) + 31 < Suc (length (bits b)) * 32" using assms(1) by (simp add: bitmap_wf_def)
  then have "(unat (bit_cnt b) + 31) div 32 \<le> length (bits b)" using less_mult_imp_div_less less_Suc_eq_le by blast
  then show ?thesis using unat_byte_cnt [OF assms(2)] unat_elem_cnt [OF assms(2)] by (simp add: map_bytes_def)
qed

text \<open>Writing the free map to its file.\<close>

lemma write_free_map_ok:
  assumes "fs_ok s" "free_map_ok s i" "0 \<notin> sset (mallocs s)" "unat (byte_cnt (sector_cap s)) < n"
  shows "\<exists>s'. write_free_map n alloc s = Inr (True, s') \<and> same_files s s' \<and> wrote s s' i 0 (map_bytes (free_map s))"
proof -
  let ?b = "free_map s" and ?sz = "byte_cnt (sector_cap s)"
  obtain f where f: "files s (free_map_file s) = Some f" "small_file s (f_inode f) i"
    using assms(2) by (auto simp: free_map_ok_def)
  have b: "bitmap_wf ?b" "bit_cnt ?b = sector_cap s" "unat (sector_cap s) + 31 < 2 ^ 32" "deny_write_cnt i = 0"
    "d_length (i_data i) = int (unat ?sz)"
    using assms(2) by (simp_all add: free_map_ok_def)
  have len: "length (map_bytes ?b) = unat ?sz" using length_map_bytes [OF b(1)] b(2,3) by simp
  have "d_length (i_data i) < 123 * 512" using f(2) by (simp add: small_file_def)
  then have sz: "sint ?sz = int (unat ?sz)" using b(5) by (simp add: sint_small)
  obtain s' where s': "inode_write_at n alloc (f_inode f) (map_bytes ?b) (int (unat ?sz)) 0 s = Inr (int (unat ?sz), s')"
    "same_files s s'" "wrote s s' i 0 (map_bytes ?b)"
    using inode_write_at_ok [OF assms(1) f(2) assms(3) b(4), of 0 "map_bytes ?b" n alloc] b(5) assms(4) len by auto
  have "file_writer n alloc (free_map_file s) (Inr s) (map_bytes ?b) ?sz 0 = (word_of_int (int (unat ?sz)), Inr s')"
    using s'(1) f(1) sz by (simp add: file_writer_def get_file_def)
  then have "write_free_map n alloc s = Inr (True, s')"
    unfolding write_free_map_def bitmap_write_def b(2) by (simp add: map_bytes_def [of ?b, unfolded b(2), symmetric])
  then show ?thesis using s' by blast
qed

text \<open>\<open>free_map_allocate\<close> marks free sectors as used and writes the free map; without room it changes nothing.\<close>

lemma free_map_ok_same: "free_map_ok s i \<Longrightarrow> same_files s s' \<Longrightarrow> free_map_ok s' i"
  using small_file_same by (auto simp: free_map_ok_def same_files_def)

lemma free_map_ok_upd:
  assumes "free_map_ok s i" "bitmap_wf b" "bit_cnt b = bit_cnt (free_map s)" "used s \<subseteq> used_bits b"
  shows "free_map_ok (s\<lparr>free_map := b\<rparr>) i"
proof -
  have "unat ` own_sectors i \<subseteq> used_bits b" using assms(1,4) unfolding free_map_ok_def by blast
  moreover have "small_file (s\<lparr>free_map := b\<rparr>) p i = small_file s p i" for p by (simp add: small_file_def sector_cap_def)
  ultimately show ?thesis using assms(1-3) unfolding free_map_ok_def by (simp add: sector_cap_def)
qed

lemma fs_ok_upd [simp]: "fs_ok (s\<lparr>free_map := b\<rparr>) = fs_ok s" "sector_cap (s\<lparr>free_map := b\<rparr>) = sector_cap s"
  "sect (s\<lparr>free_map := b\<rparr>) = sect s"
  by (simp_all add: fs_ok_def sector_cap_def sect_def)

lemma fs_ok_upd' [simp]:
  "fs_ok (s\<lparr>open_inodes := ps\<rparr>) = fs_ok s" "sector_cap (s\<lparr>open_inodes := ps\<rparr>) = sector_cap s" "sect (s\<lparr>open_inodes := ps\<rparr>) = sect s"
  "fs_ok (set_inode p x s) = fs_ok s" "sector_cap (set_inode p x s) = sector_cap s" "sect (set_inode p x s) = sect s"
  by (simp_all add: fs_ok_def sector_cap_def sect_def set_inode_def)

lemma free_map_allocate_ok:
  assumes "fs_ok s" "free_map_ok s i" "0 \<notin> sset (mallocs s)" "unat (byte_cnt (sector_cap s)) < n"
  shows "\<exists>r s'. free_map_allocate (Suc n) c s = Inr (r, s') \<and> free_map_ok s' i \<and> same_files (s\<lparr>free_map := free_map s'\<rparr>) s' \<and>
    (case r of None \<Rightarrow> s' = s \<and> (\<forall>k. k + unat c \<le> unat (sector_cap s) \<longrightarrow> {k..<k + unat c} \<inter> used s \<noteq> {})
     | Some x \<Rightarrow> unat x + unat c \<le> unat (sector_cap s) \<and> {unat x..<unat x + unat c} \<inter> used s = {} \<and>
         used s' = used s \<union> {unat x..<unat x + unat c} \<and> (\<forall>y. y \<notin> own_sectors i \<longrightarrow> sect s' y = sect s y) \<and>
         file_bytes s' (i_data i) 0 (nat (d_length (i_data i))) = map_bytes (free_map s'))"
proof -
  have wf: "bitmap_wf (free_map s)" "bit_cnt (free_map s) = sector_cap s" "free_map_file s \<noteq> 0"
    using assms(2) by (simp_all add: free_map_ok_def)
  obtain r b where a: "bm_alloc (free_map s) c = Inr (r, b)" using bm.alloc_total [OF wf(1)] by blast
  note k = bm.alloc_keeps [OF wf(1) a]
  show ?thesis
  proof (cases r)
    case None
    have n: "b = free_map s" "\<forall>k. k + unat c \<le> unat (sector_cap s) \<longrightarrow> {k..<k + unat c} \<inter> used s \<noteq> {}"
      using bm.alloc_None [OF wf(1) a [unfolded None]] wf(2) by simp_all
    have "bitmap_scan_and_flip (free_map s) 0 c False = Inr (BITMAP_ERROR, b)"
      using a None by (auto simp: bm_alloc_def ebind_eq_Inr split: if_splits)
    then have "free_map_allocate (Suc n) c s = Inr (None, s)" using n(1) by simp
    then show ?thesis using n(2) assms(1,2) by auto
  next
    case (Some x)
    have m: "unat x + unat c \<le> unat (sector_cap s)" "{unat x..<unat x + unat c} \<inter> used s = {}"
      "used_bits b = used s \<union> {unat x..<unat x + unat c}"
      using bm.alloc_Some [OF wf(1) a [unfolded Some]] wf(2) by simp_all
    have sf: "bitmap_scan_and_flip (free_map s) 0 c False = Inr (x, b)" "x \<noteq> BITMAP_ERROR"
      using a Some by (auto simp: bm_alloc_def ebind_eq_Inr split: if_splits)
    let ?s = "s\<lparr>free_map := b\<rparr>"
    have "bit_cnt b = bit_cnt (free_map s)" using k by (simp add: word_unat_eq_iff)
    then have ok: "free_map_ok ?s i" using free_map_ok_upd [OF assms(2)] k m(3) by auto
    obtain s' where s': "write_free_map n (free_map_allocate n) ?s = Inr (True, s')" "same_files ?s s'"
      "wrote ?s s' i 0 (map_bytes b)"
      using write_free_map_ok [of ?s i n "free_map_allocate n"] ok assms by auto
    have "free_map s' = b" using s'(2) by (simp add: same_files_def)
    moreover have "free_map_allocate (Suc n) c s = Inr (Some x, s')" using sf s'(1) wf(3) by simp
    moreover have "file_bytes s' (i_data i) 0 (nat (d_length (i_data i))) = map_bytes b"
    proof -
      have "length (map_bytes b) = nat (d_length (i_data i))" using ok length_map_bytes [of b] by (simp add: free_map_ok_def)
      moreover have "\<exists>p. small_file ?s p i" "0 \<le> d_length (i_data i)" using ok by (auto simp: free_map_ok_def)
      ultimately show ?thesis using wrote_file_bytes [OF _ s'(3)] by auto
    qed
    ultimately show ?thesis
      using Some m s'(2,3) free_map_ok_same [OF ok s'(2)] by (auto simp: wrote_def)
  qed
qed

declare free_map_allocate.simps [simp del]

section \<open>Creating a file\<close>

text \<open>The sectors of the new inode from the index \<open>i\<close> on.\<close>

definition with_sectors :: "inode_disk \<Rightarrow> nat \<Rightarrow> u32 list \<Rightarrow> inode_disk" where
  "with_sectors d i xs = d\<lparr>d_sectors := take i (d_sectors d) @ xs @ drop (i + length xs) (d_sectors d)\<rparr>"

lemma with_sectors_Nil [simp]: "with_sectors d i [] = d"
  by (simp add: with_sectors_def)

lemma with_sectors_Cons:
  assumes "i < length (d_sectors d)"
  shows "with_sectors (d\<lparr>d_sectors := (d_sectors d)[i := x]\<rparr>) (Suc i) xs = with_sectors d i (x # xs)"
proof -
  have "take (Suc i) ((d_sectors d)[i := x]) = take i (d_sectors d) @ [x]"
    using assms by (simp add: take_Suc_conv_app_nth)
  then show ?thesis by (simp add: with_sectors_def)
qed

lemma length_disk_bytes: "length (d_sectors d) = 125 \<Longrightarrow> length (disk_bytes d) = 512"
  by (simp add: disk_bytes_def)

text \<open>The inode in a sector is the one that was written there.\<close>

lemma disk_of_disk_bytes:
  assumes "- (2 ^ 31) \<le> d_length d" "d_length d < 2 ^ 31"
  shows "disk_of_bytes (disk_bytes d) = d"
proof -
  have "sint (word_of_int (d_length d) :: u32) = d_length d" using assms by (simp add: signed_of_int signed_take_bit_int_eq_self)
  then show ?thesis by (simp add: disk_of_bytes_def disk_bytes_def)
qed

definition free_sectors :: "fs \<Rightarrow> nat set" where
  "free_sectors s = {..<unat (sector_cap s)} - used s"

text \<open>One call of \<open>free_map_allocate\<close> for one sector.\<close>

lemma allocate_one:
  assumes "fs_ok s" "free_map_ok s fi" "0 \<notin> sset (mallocs s)" "unat (byte_cnt (sector_cap s)) < n"
  obtains (full) "free_map_allocate (Suc n) 1 s = Inr (None, s)" "free_sectors s = {}"
  | (sector) x s' where "free_map_allocate (Suc n) 1 s = Inr (Some x, s')" "free_map_ok s' fi"
      "same_files (s\<lparr>free_map := free_map s'\<rparr>) s'" "x < sector_cap s" "unat x \<notin> used s" "used s' = insert (unat x) (used s)"
      "\<And>y. y \<notin> own_sectors fi \<Longrightarrow> sect s' y = sect s y"
proof -
  obtain r s' where r: "free_map_allocate (Suc n) 1 s = Inr (r, s')" "free_map_ok s' fi"
    "same_files (s\<lparr>free_map := free_map s'\<rparr>) s'"
    "case r of None \<Rightarrow> s' = s \<and> (\<forall>k. k + unat (1 :: u32) \<le> unat (sector_cap s) \<longrightarrow> {k..<k + unat (1 :: u32)} \<inter> used s \<noteq> {})
     | Some x \<Rightarrow> unat x + unat (1 :: u32) \<le> unat (sector_cap s) \<and> {unat x..<unat x + unat (1 :: u32)} \<inter> used s = {} \<and>
         used s' = used s \<union> {unat x..<unat x + unat (1 :: u32)} \<and> (\<forall>y. y \<notin> own_sectors fi \<longrightarrow> sect s' y = sect s y) \<and>
         file_bytes s' (i_data fi) 0 (nat (d_length (i_data fi))) = map_bytes (free_map s')"
    using free_map_allocate_ok [OF assms, of 1] by blast
  show thesis
  proof (cases r)
    case None
    have "free_sectors s = {}" using None r(4) by (auto simp: free_sectors_def Suc_le_eq)
    then show thesis using None r(1,4) full by simp
  next
    case (Some x)
    then show thesis using r sector [of x s'] by (auto simp: word_less_nat_alt)
  qed
qed

lemma create_loop_ok:
  "fs_ok s \<Longrightarrow> free_map_ok s fi \<Longrightarrow> 0 \<notin> sset (mallocs s) \<Longrightarrow> unat (byte_cnt (sector_cap s)) < n \<Longrightarrow>
   sector < sector_cap s \<Longrightarrow> unat sector \<in> used s \<Longrightarrow> sector \<notin> own_sectors fi \<Longrightarrow> length (d_sectors d) = 125 \<Longrightarrow> i + k \<le> 123 \<Longrightarrow>
   \<exists>ok s'. create_loop (Suc n) sector k i d s = Inr (ok, s') \<and> free_map_ok s' fi \<and> same_files (s\<lparr>free_map := free_map s'\<rparr>) s' \<and>
     (ok \<longrightarrow> (\<exists>xs. length xs = k \<and> distinct xs \<and> (\<forall>x\<in>set xs. x < sector_cap s \<and> unat x \<notin> used s \<and> sect s' x = zeros) \<and>
        used s' = used s \<union> unat ` set xs \<and>
        sect s' sector = (if k = 0 then sect s sector else disk_bytes (with_sectors d i xs)) \<and>
        (\<forall>y. y \<notin> own_sectors fi \<union> {sector} \<union> set xs \<longrightarrow> sect s' y = sect s y))) \<and>
     (\<not> ok \<longrightarrow> card (free_sectors s) < k)"
proof (induction k arbitrary: i d s)
  case 0
  then show ?case by auto
next
  case (Suc k)
  show ?case
  proof (rule allocate_one [OF Suc.prems(1-4)])
    assume full: "free_map_allocate (Suc n) 1 s = Inr (None, s)" "free_sectors s = {}"
    then have "create_loop (Suc n) sector (Suc k) i d s = Inr (False, s)" by (simp add: allocate_sector_def)
    then show ?thesis using full(2) Suc.prems(1,2) by auto
  next
    fix x s1
    assume sector: "free_map_allocate (Suc n) 1 s = Inr (Some x, s1)" "free_map_ok s1 fi"
      "same_files (s\<lparr>free_map := free_map s1\<rparr>) s1" "x < sector_cap s" "unat x \<notin> used s" "used s1 = insert (unat x) (used s)"
      "\<And>y. y \<notin> own_sectors fi \<Longrightarrow> sect s1 y = sect s y"
    let ?d = "d\<lparr>d_sectors := (d_sectors d)[i := x]\<rparr>"
    have i: "i < 123" "i < length (d_sectors d)" using Suc.prems(8,9) by auto
    have ne: "x \<noteq> sector" "x \<notin> own_sectors fi"
      using sector(5) Suc.prems(2,6) unfolding free_map_ok_def by blast+
    have sf: "fs_ok s1" "sector_cap s1 = sector_cap s" "sset (mallocs s1) \<subseteq> sset (mallocs s)"
      using sector(3) by (simp_all add: same_files_def)
    obtain s2 where s2: "fs_write x zeros s1 = Inr s2" "same_files s1 s2" "sect s2 = (sect s1)(x := zeros)"
      using fs_write_ok [of s1 x zeros] sf sector(4) by (auto simp: zeros_def)
    have l: "length (disk_bytes ?d) = 512" using Suc.prems(8) by (intro length_disk_bytes) simp
    obtain s3 where s3: "fs_write sector (disk_bytes ?d) s2 = Inr s3" "same_files s2 s3"
      "sect s3 = (sect s2)(sector := disk_bytes ?d)"
      using fs_write_ok [of s2 sector "disk_bytes ?d"] s2(2) sf(2) Suc.prems(5) l by (auto simp: same_files_def)
    have s13: "same_files s1 s3" using same_files_trans [OF s2(2) s3(2)] .
    have f3: "free_map s3 = free_map s1" using s13 by (simp add: same_files_def)
    have c: "create_loop (Suc n) sector (Suc k) i d s = create_loop (Suc n) sector k (i + 1) ?d s3"
      using sector(1) i s2(1) s3(1) by (simp add: allocate_sector_def)
    have pre: "fs_ok s3" "free_map_ok s3 fi" "0 \<notin> sset (mallocs s3)" "unat (byte_cnt (sector_cap s3)) < n"
      "sector < sector_cap s3" "unat sector \<in> used s3" "length (d_sectors ?d) = 125" "i + 1 + k \<le> 123"
      using s13 sf Suc.prems(3-6,8,9) sector(6) f3 free_map_ok_same [OF sector(2) s13] by (auto simp: same_files_def)
    obtain ok s' where r: "create_loop (Suc n) sector k (i + 1) ?d s3 = Inr (ok, s')" "free_map_ok s' fi"
      "same_files (s3\<lparr>free_map := free_map s'\<rparr>) s'"
      "ok \<longrightarrow> (\<exists>xs. length xs = k \<and> distinct xs \<and> (\<forall>x\<in>set xs. x < sector_cap s3 \<and> unat x \<notin> used s3 \<and> sect s' x = zeros) \<and>
        used s' = used s3 \<union> unat ` set xs \<and>
        sect s' sector = (if k = 0 then sect s3 sector else disk_bytes (with_sectors ?d (i + 1) xs)) \<and>
        (\<forall>y. y \<notin> own_sectors fi \<union> {sector} \<union> set xs \<longrightarrow> sect s' y = sect s3 y))"
      "\<not> ok \<longrightarrow> card (free_sectors s3) < k"
      using Suc.IH [OF pre(1-6) Suc.prems(7) pre(7,8)] by blast
    have sm: "same_files (s\<lparr>free_map := free_map s'\<rparr>) s'" using sector(3) s13 r(3) by (auto simp: same_files_def intro: later_trans)
    have "card (free_sectors s) < Suc k" if "\<not> ok"
    proof -
      have "free_sectors s = insert (unat x) (free_sectors s3)" "unat x \<notin> free_sectors s3" "finite (free_sectors s3)"
        using sector(4-6) f3 sf(2) s13 by (auto simp: free_sectors_def same_files_def word_less_nat_alt)
      then show ?thesis using r(5) that by simp
    qed
    moreover have "\<exists>xs. length xs = Suc k \<and> distinct xs \<and> (\<forall>x\<in>set xs. x < sector_cap s \<and> unat x \<notin> used s \<and> sect s' x = zeros) \<and>
        used s' = used s \<union> unat ` set xs \<and> sect s' sector = disk_bytes (with_sectors d i xs) \<and>
        (\<forall>y. y \<notin> own_sectors fi \<union> {sector} \<union> set xs \<longrightarrow> sect s' y = sect s y)" if ok
    proof -
      obtain xs where xs: "length xs = k" "distinct xs"
        "\<forall>x\<in>set xs. x < sector_cap s3 \<and> unat x \<notin> used s3 \<and> sect s' x = zeros" "used s' = used s3 \<union> unat ` set xs"
        "sect s' sector = (if k = 0 then sect s3 sector else disk_bytes (with_sectors ?d (i + 1) xs))"
        "\<forall>y. y \<notin> own_sectors fi \<union> {sector} \<union> set xs \<longrightarrow> sect s' y = sect s3 y"
        using r(4) \<open>ok\<close> by blast
      have cap: "sector_cap s3 = sector_cap s" using s13 sf(2) by (simp add: same_files_def)
      have u: "used s3 = insert (unat x) (used s)" using f3 sector(6) by simp
      have nx: "x \<notin> set xs" using xs(3) u by auto
      have "sect s' x = zeros" using xs(6) ne nx s3(3) s2(3) by auto
      moreover have "sect s' sector = disk_bytes (with_sectors d i (x # xs))"
        using xs(1,5) s3(3) with_sectors_Cons [OF i(2), of x xs] by (cases "k = 0") auto
      moreover have "sect s' y = sect s y" if "y \<notin> own_sectors fi \<union> {sector} \<union> set (x # xs)" for y
        using that xs(6) s3(3) s2(3) sector(7) by auto
      moreover have "used s' = used s \<union> unat ` set (x # xs)" using xs(4) u by auto
      moreover have "\<forall>z\<in>set (x # xs). z < sector_cap s \<and> unat z \<notin> used s" using xs(3) cap u sector(4,5) by auto
      moreover have "distinct (x # xs)" "length (x # xs) = Suc k" using xs(1,2) nx by simp_all
      ultimately show ?thesis using xs(3) by (intro exI [of _ "x # xs"]) auto
    qed
    ultimately show ?thesis using c r(1,2) sm by auto
  qed
qed

definition new_disk_inode :: "int \<Rightarrow> u32 list \<Rightarrow> inode_disk" where
  "new_disk_inode len xs =
     \<lparr>d_start = 0, d_length = len, d_magic = INODE_MAGIC, d_sectors = xs @ replicate (125 - length xs) 0\<rparr>"

lemma new_disk_inode_with: "with_sectors (new_disk_inode len []) 0 xs = new_disk_inode len xs" if "length xs \<le> 125"
  using that by (simp add: with_sectors_def new_disk_inode_def)

lemma inode_create_ok:
  assumes s: "fs_ok s" "free_map_ok s fi" "0 \<notin> sset (mallocs s)" "unat (byte_cnt (sector_cap s)) < n"
    and sec: "sector < sector_cap s" "unat sector \<in> used s" "sector \<notin> own_sectors fi"
    and len: "0 \<le> len" "bytes_to_sectors len \<le> 123"
  shows "\<exists>ok s'. inode_create (Suc n) sector len s = Inr (ok, s') \<and> free_map_ok s' fi \<and>
    same_files (s\<lparr>free_map := free_map s'\<rparr>) s' \<and>
    (ok \<longrightarrow> (\<exists>xs. length xs = bytes_to_sectors len \<and> distinct xs \<and>
       (\<forall>x\<in>set xs. x < sector_cap s \<and> unat x \<notin> used s \<and> sect s' x = zeros) \<and> used s' = used s \<union> unat ` set xs \<and>
       sect s' sector = disk_bytes (new_disk_inode len xs) \<and>
       (\<forall>y. y \<notin> own_sectors fi \<union> {sector} \<union> set xs \<longrightarrow> sect s' y = sect s y))) \<and>
    (\<not> ok \<longrightarrow> card (free_sectors s) < bytes_to_sectors len)"
proof -
  obtain a s1 where a: "fs_malloc s = (a, s1)" by fastforce
  note m = fs_malloc_same [OF s(1) a]
  have "a \<noteq> 0" using m(3) s(3) by metis
  let ?d = "new_disk_inode len []"
  have ld: "length (d_sectors ?d) = 125" by (simp add: new_disk_inode_def)
  obtain s2 where s2: "fs_write sector (disk_bytes ?d) s1 = Inr s2" "same_files s1 s2" "sect s2 = (sect s)(sector := disk_bytes ?d)"
    using fs_write_ok [of s1 sector "disk_bytes ?d"] m(1,2) sec(1) length_disk_bytes [OF ld] by (auto simp: same_files_def)
  have s02: "same_files s s2" using same_files_trans [OF m(1) s2(2)] .
  have pre: "fs_ok s2" "free_map_ok s2 fi" "0 \<notin> sset (mallocs s2)" "unat (byte_cnt (sector_cap s2)) < n"
    "sector < sector_cap s2" "unat sector \<in> used s2"
    using s02 free_map_ok_same [OF s(2) s02] s(3,4) sec by (auto simp: same_files_def)
  have eq: "sector_cap s2 = sector_cap s" "used s2 = used s" "free_sectors s2 = free_sectors s"
    using s02 by (simp_all add: same_files_def free_sectors_def)
  let ?k = "bytes_to_sectors len"
  obtain ok s' where r: "create_loop (Suc n) sector ?k 0 ?d s2 = Inr (ok, s')" "free_map_ok s' fi"
    "same_files (s2\<lparr>free_map := free_map s'\<rparr>) s'"
    "ok \<longrightarrow> (\<exists>xs. length xs = ?k \<and> distinct xs \<and> (\<forall>x\<in>set xs. x < sector_cap s2 \<and> unat x \<notin> used s2 \<and> sect s' x = zeros) \<and>
        used s' = used s2 \<union> unat ` set xs \<and>
        sect s' sector = (if ?k = 0 then sect s2 sector else disk_bytes (with_sectors ?d 0 xs)) \<and>
        (\<forall>y. y \<notin> own_sectors fi \<union> {sector} \<union> set xs \<longrightarrow> sect s' y = sect s2 y))"
    "\<not> ok \<longrightarrow> card (free_sectors s2) < ?k"
    using create_loop_ok [OF pre sec(3) ld, of 0 ?k] len(2) by auto
  have "inode_create (Suc n) sector len s = Inr (ok, s')"
    using a \<open>a \<noteq> 0\<close> s2(1) r(1) len(1) by (simp add: inode_create_def new_disk_inode_def)
  moreover have "same_files (s\<lparr>free_map := free_map s'\<rparr>) s'" using s02 r(3) by (auto simp: same_files_def intro: later_trans)
  moreover have "\<exists>xs. length xs = ?k \<and> distinct xs \<and> (\<forall>x\<in>set xs. x < sector_cap s \<and> unat x \<notin> used s \<and> sect s' x = zeros) \<and>
      used s' = used s \<union> unat ` set xs \<and> sect s' sector = disk_bytes (new_disk_inode len xs) \<and>
      (\<forall>y. y \<notin> own_sectors fi \<union> {sector} \<union> set xs \<longrightarrow> sect s' y = sect s y)" if ok
  proof -
    obtain xs where xs: "length xs = ?k" "distinct xs" "\<forall>x\<in>set xs. x < sector_cap s \<and> unat x \<notin> used s \<and> sect s' x = zeros"
      "used s' = used s \<union> unat ` set xs" "sect s' sector = (if ?k = 0 then sect s2 sector else disk_bytes (with_sectors ?d 0 xs))"
      "\<forall>y. y \<notin> own_sectors fi \<union> {sector} \<union> set xs \<longrightarrow> sect s' y = sect s2 y"
      using r(4) \<open>ok\<close> unfolding eq by blast
    have "sect s' sector = disk_bytes (new_disk_inode len xs)"
      using xs(1,5) len(2) s2(3) new_disk_inode_with [of xs len] by (cases "?k = 0") auto
    then show ?thesis using xs s2(3) by (intro exI [of _ xs]) auto
  qed
  ultimately show ?thesis using r(2,5) eq by auto
qed

lemma find_open_none:
  "\<forall>p\<in>set ps. \<exists>i. inodes s p = Some i \<and> i_sector i \<noteq> sector \<Longrightarrow> find_open ps sector s = Inr 0"
  by (induction ps) (auto simp: get_inode_def)

lemma inode_open_new:
  assumes "fs_ok s" "0 \<notin> sset (mallocs s)" "sector < sector_cap s"
    "\<forall>p\<in>set (open_inodes s). \<exists>i. inodes s p = Some i \<and> i_sector i \<noteq> sector"
  shows "\<exists>p s'. inode_open sector s = Inr (p, s') \<and> p \<noteq> 0 \<and> open_inodes s' = p # open_inodes s \<and>
    inodes s' = (inodes s)(p \<mapsto> \<lparr>i_sector = sector, open_cnt = 1, removed = False, deny_write_cnt = 0,
      i_data = disk_of_bytes (sect s sector), is_dir = 0\<rparr>) \<and>
    sect s' = sect s \<and> sector_cap s' = sector_cap s \<and> fs_ok s' \<and> used s' = used s"
proof -
  obtain p s1 where a: "fs_malloc s = (p, s1)" by fastforce
  note m = fs_malloc_same [OF assms(1) a]
  have "p \<noteq> 0" using m(3) assms(2) by metis
  let ?s = "s1\<lparr>open_inodes := p # open_inodes s1\<rparr>"
  have q: "fs_ok ?s" "sector_cap ?s = sector_cap s" "sect ?s = sect s"
    using m by (simp_all add: same_files_def)
  obtain s2 where s2: "fs_read sector ?s = Inr (sect s sector, s2)" "same_files ?s s2" "sect s2 = sect s"
    using fs_read_ok [OF q(1), of sector] q assms(3) by auto
  have "inode_open sector s = Inr (p, set_inode p \<lparr>i_sector = sector, open_cnt = 1, removed = False, deny_write_cnt = 0,
      i_data = disk_of_bytes (sect s sector), is_dir = 0\<rparr> s2)"
    using find_open_none [OF assms(4)] a \<open>p \<noteq> 0\<close> s2(1) by (simp add: inode_open_def)
  then show ?thesis
    using s2(2,3) m(1) \<open>p \<noteq> 0\<close> q by (auto simp: same_files_def) (simp_all add: set_inode_def)
qed

lemma create_open_ok:
  assumes "fs_ok s" "free_map_ok s fi" "0 \<notin> sset (mallocs s)" "unat (byte_cnt (sector_cap s)) < n"
    and "sector < sector_cap s" "unat sector \<in> used s" "sector \<notin> own_sectors fi" "0 \<le> len" "len < 123 * 512"
    and "\<forall>p\<in>set (open_inodes s). \<exists>i. inodes s p = Some i \<and> i_sector i \<noteq> sector"
  shows "\<exists>ok s1. inode_create (Suc n) sector len s = Inr (ok, s1) \<and> free_map_ok s1 fi \<and>
    (\<not> ok \<longrightarrow> card (free_sectors s) < bytes_to_sectors len) \<and>
    (ok \<longrightarrow> (\<exists>p s2 i. inode_open sector s1 = Inr (p, s2) \<and> small_file s2 p i \<and> d_length (i_data i) = len \<and>
       used s2 = used s \<union> unat ` own_sectors i \<and> unat ` own_sectors i \<inter> used s = {} \<and>
       (\<forall>k < nat len. file_byte s2 (i_data i) k = 0) \<and>
       (\<forall>y. y \<notin> own_sectors fi \<union> {sector} \<union> own_sectors i \<longrightarrow> sect s2 y = sect s y)))"
proof -
  let ?k = "bytes_to_sectors len"
  have k: "?k \<le> 123" using assms(8,9) zdiv_mono1 [of "len + 511" "123 * 512 + 511" 512] by (simp add: bytes_to_sectors_def)
  obtain ok s1 where r: "inode_create (Suc n) sector len s = Inr (ok, s1)" "free_map_ok s1 fi"
    "same_files (s\<lparr>free_map := free_map s1\<rparr>) s1" "\<not> ok \<longrightarrow> card (free_sectors s) < ?k"
    "ok \<longrightarrow> (\<exists>xs. length xs = ?k \<and> distinct xs \<and> (\<forall>x\<in>set xs. x < sector_cap s \<and> unat x \<notin> used s \<and> sect s1 x = zeros) \<and>
       used s1 = used s \<union> unat ` set xs \<and> sect s1 sector = disk_bytes (new_disk_inode len xs) \<and>
       (\<forall>y. y \<notin> own_sectors fi \<union> {sector} \<union> set xs \<longrightarrow> sect s1 y = sect s y))"
    using inode_create_ok [OF assms(1-8) k] by blast
  have "\<exists>p s2 i. inode_open sector s1 = Inr (p, s2) \<and> small_file s2 p i \<and> d_length (i_data i) = len \<and>
       used s2 = used s \<union> unat ` own_sectors i \<and> unat ` own_sectors i \<inter> used s = {} \<and>
       (\<forall>k < nat len. file_byte s2 (i_data i) k = 0) \<and>
       (\<forall>y. y \<notin> own_sectors fi \<union> {sector} \<union> own_sectors i \<longrightarrow> sect s2 y = sect s y)" if ok
  proof -
    obtain xs where xs: "length xs = ?k" "distinct xs" "\<forall>x\<in>set xs. x < sector_cap s \<and> unat x \<notin> used s \<and> sect s1 x = zeros"
      "used s1 = used s \<union> unat ` set xs" "sect s1 sector = disk_bytes (new_disk_inode len xs)"
      "\<forall>y. y \<notin> own_sectors fi \<union> {sector} \<union> set xs \<longrightarrow> sect s1 y = sect s y"
      using r(5) \<open>ok\<close> by blast
    have q: "fs_ok s1" "0 \<notin> sset (mallocs s1)" "sector < sector_cap s1" "sector_cap s1 = sector_cap s"
      "\<forall>p\<in>set (open_inodes s1). \<exists>i. inodes s1 p = Some i \<and> i_sector i \<noteq> sector"
      using r(3) assms(3,5,10) by (auto simp: same_files_def)
    define i where "i = \<lparr>i_sector = sector, open_cnt = 1, removed = False, deny_write_cnt = 0,
      i_data = new_disk_inode len xs, is_dir = 0\<rparr>"
    have "disk_of_bytes (sect s1 sector) = new_disk_inode len xs"
      unfolding xs(5) using assms(8,9) by (intro disk_of_disk_bytes) (simp_all add: new_disk_inode_def)
    note disk = this
    obtain p s2 where o': "inode_open sector s1 = Inr (p, s2)"
      "inodes s2 = (inodes s1)(p \<mapsto> \<lparr>i_sector = sector, open_cnt = 1, removed = False, deny_write_cnt = 0,
        i_data = disk_of_bytes (sect s1 sector), is_dir = 0\<rparr>)"
      "sect s2 = sect s1" "sector_cap s2 = sector_cap s1" "used s2 = used s1"
      using inode_open_new [OF q(1-3,5)] by blast
    then have o: "inode_open sector s1 = Inr (p, s2)" "inodes s2 p = Some i" "sect s2 = sect s1"
      "sector_cap s2 = sector_cap s" "used s2 = used s1"
      using q(4) by (simp_all add: i_def disk)
    have i: "d_length (i_data i) = len" "own_sectors i = set xs" "d_sectors (i_data i) = xs @ replicate (125 - ?k) 0"
      using xs(1) by (simp_all add: i_def new_disk_inode_def)
    have "small_file s2 p i"
      using o(2,4) i xs(1-3) k assms(8,9) by (simp add: small_file_def nth_append)
    moreover have "file_byte s2 (i_data i) j = 0" if "j < nat len" for j
    proof -
      have "j div 512 < ?k" using that assms(8) by (simp add: bytes_to_sectors_def)
      then have "sect s2 (d_sectors (i_data i) ! (j div 512)) = zeros"
        using xs(1,3) i(3) o(3) by (simp add: nth_append)
      then show ?thesis by (simp add: file_byte_def zeros_def)
    qed
    moreover have "used s2 = used s \<union> unat ` own_sectors i" "unat ` own_sectors i \<inter> used s = {}"
      using xs(3,4) unfolding i(2) o(5) by auto
    moreover have "\<forall>y. y \<notin> own_sectors fi \<union> {sector} \<union> own_sectors i \<longrightarrow> sect s2 y = sect s y"
      using xs(6) unfolding i(2) o(3) by blast
    ultimately show ?thesis using o(1) i(1) by blast
  qed
  note opened = this
  show ?thesis
    by (intro exI [of _ ok] exI [of _ s1] conjI impI) (fact r(1), fact r(2), use r(4) in simp, fact opened)
qed

section \<open>Properties\<close>

text \<open>A partition of 20 sectors; the free map is in sector 2, and the sectors 0, 1, 2 and 6 are in use.\<close>

definition wmap_inode :: inode where
  "wmap_inode = \<lparr>i_sector = 0, open_cnt = 1, removed = False, deny_write_cnt = 0,
     i_data = \<lparr>d_start = 0, d_length = 4, d_magic = INODE_MAGIC, d_sectors = 2 # replicate 124 0\<rparr>, is_dir = 0\<rparr>"

definition wmap_fs :: fs where
  "wmap_fs = \<lparr>devs = wblocks, fs_device = 5, inodes = [50 \<mapsto> wmap_inode], open_inodes = [50], location = DIRECT,
     files = [300 \<mapsto> \<lparr>f_inode = 50, f_pos = 0, f_deny = False\<rparr>], free_map = \<lparr>bit_cnt = 20, bits = [71]\<rparr>, free_map_file = 300,
     mallocs = sconst 200\<rparr>"

lemma wmap_fs_used: "abits (free_map wmap_fs) ! 2" "abits (free_map wmap_fs) ! 6"
proof -
  have "abits \<lparr>bit_cnt = 20, bits = [71]\<rparr> ! 2" "abits \<lparr>bit_cnt = 20, bits = [71]\<rparr> ! 6" by code_simp+
  then show "abits (free_map wmap_fs) ! 2" "abits (free_map wmap_fs) ! 6" by (simp_all add: wmap_fs_def)
qed

lemma wmap_fs_ok: "fs_ok wmap_fs" "free_map_ok wmap_fs wmap_inode" "0 \<notin> sset (mallocs wmap_fs)" "sector_cap wmap_fs = 20"
proof -
  show cap: "sector_cap wmap_fs = 20" by (simp add: sector_cap_def wmap_fs_def wblocks_def block_size_def)
  have "sect wmap_fs x = replicate 512 0" if "x < 20" for x
    using that by (simp add: sect_def wmap_fs_def content_def wblocks_def block_size_def)
  then show "fs_ok wmap_fs" using wblocks_ok(2) cap by (simp add: fs_ok_def wmap_fs_def)
  have k: "bytes_to_sectors 4 = 1" "byte_cnt 20 = 4" by (simp_all add: bytes_to_sectors_def byte_cnt_def elem_cnt_def)
  have "small_file wmap_fs 50 wmap_inode"
    using cap k(1) by (simp add: small_file_def wmap_inode_def wmap_fs_def)
  moreover have "unat ` own_sectors wmap_inode \<subseteq> used wmap_fs"
    using wmap_fs_used(1) k(1) by (simp add: used_bits_def wmap_inode_def wmap_fs_def)
  ultimately show "free_map_ok wmap_fs wmap_inode"
    using cap k by (simp add: free_map_ok_def bitmap_wf_def BITMAP_ERROR_def wmap_fs_def) (simp add: wmap_inode_def)
  show "0 \<notin> sset (mallocs wmap_fs)" by (simp add: wmap_fs_def)
qed

text \<open>C15.  With a well-formed free map, \<open>free_map_allocate\<close> returns.  Without \<open>c\<close> free sectors in a row it changes nothing.
  Otherwise it returns the first of \<open>c\<close> sectors that were free, marks exactly these, and the file of the free map holds
  the new map; no sector outside that file is written.\<close>

theorem free_map_allocate_correct:
  assumes "fs_ok s" "free_map_ok s i" "0 \<notin> sset (mallocs s)" "unat (byte_cnt (sector_cap s)) < n"
  shows "\<exists>r s'. free_map_allocate (Suc n) c s = Inr (r, s') \<and> free_map_ok s' i \<and>
    (case r of None \<Rightarrow> s' = s \<and> (\<forall>k. k + unat c \<le> unat (sector_cap s) \<longrightarrow> {k..<k + unat c} \<inter> used s \<noteq> {})
     | Some x \<Rightarrow> unat x + unat c \<le> unat (sector_cap s) \<and> {unat x..<unat x + unat c} \<inter> used s = {} \<and>
         used s' = used s \<union> {unat x..<unat x + unat c} \<and> (\<forall>y. y \<notin> own_sectors i \<longrightarrow> sect s' y = sect s y) \<and>
         file_bytes s' (i_data i) 0 (nat (d_length (i_data i))) = map_bytes (free_map s'))"
  using free_map_allocate_ok [OF assms, of c] by blast

lemma wmap_fs_free: "2 \<le> card (free_sectors wmap_fs)"
proof -
  have b: "\<not> abits \<lparr>bit_cnt = 20, bits = [71]\<rparr> ! 3" "\<not> abits \<lparr>bit_cnt = 20, bits = [71]\<rparr> ! 4" by code_simp+
  have "{3, 4} \<subseteq> free_sectors wmap_fs"
    using b wmap_fs_ok(4) by (simp add: free_sectors_def used_bits_def) (simp add: wmap_fs_def)
  then have "card {3 :: nat, 4} \<le> card (free_sectors wmap_fs)" by (intro card_mono) (simp_all add: free_sectors_def)
  then show ?thesis by simp
qed

lemma wmap_fs_fuel: "unat (byte_cnt (sector_cap wmap_fs)) < 5"
  using wmap_fs_ok(4) by (simp add: byte_cnt_def elem_cnt_def)

theorem free_map_allocate_correct_witness:
  "\<exists>r s'. free_map_allocate (Suc 5) 3 wmap_fs = Inr (r, s') \<and> free_map_ok s' wmap_inode"
  using free_map_allocate_correct [OF wmap_fs_ok(1-3) wmap_fs_fuel, of 3] by blast

text \<open>C6.  With a well-formed free map, \<open>inode_create\<close> for a file of less than 123 sectors returns.  It fails only if fewer
  sectors are free than the file needs.  When it succeeds, \<open>inode_open\<close> of the sector gives the inode: the file has its
  length, its sectors were free and are now marked as used, no two are the same, and all its bytes are 0.  The sectors that
  are neither the file's nor the free map's are as before.\<close>

theorem inode_create_open:
  assumes "fs_ok s" "free_map_ok s fi" "0 \<notin> sset (mallocs s)" "unat (byte_cnt (sector_cap s)) < n"
    and "sector < sector_cap s" "unat sector \<in> used s" "sector \<notin> own_sectors fi" "0 \<le> len" "len < 123 * 512"
    and "\<forall>p\<in>set (open_inodes s). \<exists>i. inodes s p = Some i \<and> i_sector i \<noteq> sector"
  shows "\<exists>ok s1. inode_create (Suc n) sector len s = Inr (ok, s1) \<and> free_map_ok s1 fi \<and>
    (\<not> ok \<longrightarrow> card (free_sectors s) < bytes_to_sectors len) \<and>
    (ok \<longrightarrow> (\<exists>p s2 i. inode_open sector s1 = Inr (p, s2) \<and> small_file s2 p i \<and> d_length (i_data i) = len \<and>
       used s2 = used s \<union> unat ` own_sectors i \<and> unat ` own_sectors i \<inter> used s = {} \<and>
       (\<forall>k < nat len. file_byte s2 (i_data i) k = 0) \<and>
       (\<forall>y. y \<notin> own_sectors fi \<union> {sector} \<union> own_sectors i \<longrightarrow> sect s2 y = sect s y)))"
  using create_open_ok [OF assms] .

theorem inode_create_open_witness:
  "\<exists>s1 p s2 i. inode_create (Suc 5) 6 600 wmap_fs = Inr (True, s1) \<and> inode_open 6 s1 = Inr (p, s2) \<and> small_file s2 p i \<and>
     d_length (i_data i) = 600"
proof -
  have h: "6 < sector_cap wmap_fs" "unat (6 :: u32) \<in> used wmap_fs" "6 \<notin> own_sectors wmap_inode"
    "\<forall>p\<in>set (open_inodes wmap_fs). \<exists>i. inodes wmap_fs p = Some i \<and> i_sector i \<noteq> 6"
    using wmap_fs_used(2) wmap_fs_ok(4)
    by (simp_all add: used_bits_def bytes_to_sectors_def) (simp_all add: wmap_fs_def wmap_inode_def)
  have f: "2 \<le> card (free_sectors wmap_fs)" by (rule wmap_fs_free)
  show ?thesis
    using inode_create_open [OF wmap_fs_ok(1-3) wmap_fs_fuel h(1-3), of 600] h(4) f
    by (simp add: bytes_to_sectors_def) (metis not_less)
qed

end
