(* ===== verification/Directory.thy ===== *)
theory Directory
  imports Inode_Grow Inode_Alloc
begin

text \<open>
  Directories and names: \<open>src/filesys/directory.c\<close>, \<open>src/filesys/filesys.c\<close> and \<open>get_dir\<close> of \<open>src/userprog/syscall.c\<close>.

  The state has the inodes and the open files of theory \<open>Inode\<close>, the open directories by their addresses, and the counter \<open>i\<close> of
  \<open>filesys.c\<close>.  A name is the list of its bytes, without the terminator.  A directory entry takes 20 bytes of the file of its
  directory: the sector number, 15 bytes for the name, and \<open>in_use\<close>.

  \<open>dir_add\<close> has variables that the code uses without a value: the entry \<open>e\<close> if the directory is empty, and the pointer \<open>in\<close>, through
  which \<open>dir_lookup\<close> stores the inode it has opened.  Their values, and what the store does, are an argument of type \<open>undef\<close>.
  The copies of a path on the stack are one byte too short for the terminator; the model copies the path.

  The argument \<open>n\<close> bounds the loops over the entries, and the recursion of theory \<open>Inode\<close>.
\<close>

section \<open>State\<close>

type_synonym cname = "u8 list"

record dir =
  d_empty :: bool
  dir_inode :: nat
  dir_pos :: int
  dir_name :: cname

record dir_entry =
  e_sector :: u32
  e_name :: "u8 list"
  e_in_use :: bool

record fsys =
  base :: fs
  dirs :: "nat \<Rightarrow> dir option"
  created :: int

record undef =
  u_entry :: dir_entry
  u_ptr :: nat
  u_store :: "nat \<Rightarrow> fsys \<Rightarrow> fsys res"

definition NAME_MAX :: nat where
  "NAME_MAX = 14"

definition entry_bytes :: "dir_entry \<Rightarrow> u8 list" where
  "entry_bytes e = le32 (e_sector e) @ e_name e @ [if e_in_use e then 1 else 0]"

definition entry_of :: "u8 list \<Rightarrow> dir_entry" where
  "entry_of bs = \<lparr>e_sector = hd (words_of_bytes (take 4 bs)), e_name = take 15 (drop 4 bs), e_in_use = bs ! 19 \<noteq> 0\<rparr>"

definition on_fs :: "(fs \<Rightarrow> ('a \<times> fs) res) \<Rightarrow> fsys \<Rightarrow> ('a \<times> fsys) res" where
  "on_fs f S = ebind (f (base S)) (\<lambda>(x, s). Inr (x, S\<lparr>base := s\<rparr>))"

definition get_dirp :: "nat \<Rightarrow> fsys \<Rightarrow> dir res" where
  "get_dirp d S = (case dirs S d of None \<Rightarrow> Inl Bad_access | Some x \<Rightarrow> Inr x)"

definition set_dirp :: "nat \<Rightarrow> dir \<Rightarrow> fsys \<Rightarrow> fsys" where
  "set_dirp d x S = S\<lparr>dirs := (dirs S)(d \<mapsto> x)\<rparr>"

text \<open>\<open>strcmp (name, b) = 0\<close> and \<open>strlen\<close> for a string that starts at the bytes \<open>b\<close>; to read behind these is \<open>Bad_access\<close>.\<close>

fun str_equal :: "cname \<Rightarrow> u8 list \<Rightarrow> bool res" where
  "str_equal name [] = Inl Bad_access"
| "str_equal [] (b # bs) = Inr (b = 0)"
| "str_equal (a # as) (b # bs) = (if a = b then str_equal as bs else Inr False)"

definition c_string :: "u8 list \<Rightarrow> cname res" where
  "c_string bs = (if 0 \<in> set bs then Inr (takeWhile (\<lambda>b. b \<noteq> 0) bs) else Inl Bad_access)"

text \<open>\<open>strlcpy\<close> into an array with the contents \<open>dst\<close>.\<close>

definition copy_name :: "cname \<Rightarrow> u8 list \<Rightarrow> u8 list" where
  "copy_name name dst = (let k = min (length name) (length dst - 1) in take k name @ [0] @ drop (Suc k) dst)"

definition name_bytes :: "dir_entry \<Rightarrow> u8 list" where
  "name_bytes e = e_name e @ [if e_in_use e then 1 else 0]"

section \<open>directory.c: opening and closing\<close>

definition dir_open :: "nat \<Rightarrow> nat \<Rightarrow> fsys \<Rightarrow> (nat \<times> fsys) res" where
  "dir_open n p S =
     (let (d, s) = fs_malloc (base S); S = S\<lparr>base := s\<rparr>
      in if p \<noteq> 0 \<and> d \<noteq> 0 then
           Inr (d, set_dirp d \<lparr>d_empty = False, dir_inode = p, dir_pos = 0, dir_name = []\<rparr> S)
         else ebind (inode_close n p (base S)) (\<lambda>s. Inr (0, S\<lparr>base := s\<rparr>)))"

definition dir_open_root :: "nat \<Rightarrow> fsys \<Rightarrow> (nat \<times> fsys) res" where
  "dir_open_root n S = ebind (on_fs (inode_open ROOT_DIR_SECTOR) S) (\<lambda>(p, S). dir_open n p S)"

definition dir_reopen :: "nat \<Rightarrow> nat \<Rightarrow> fsys \<Rightarrow> (nat \<times> fsys) res" where
  "dir_reopen n d S = ebind (get_dirp d S) (\<lambda>x. ebind (on_fs (inode_reopen (dir_inode x)) S) (\<lambda>(p, S). dir_open n p S))"

definition dir_close :: "nat \<Rightarrow> nat \<Rightarrow> fsys \<Rightarrow> fsys res" where
  "dir_close n d S =
     (if d \<noteq> 0 then
        ebind (get_dirp d S) (\<lambda>x. ebind (inode_close n (dir_inode x) (base S)) (\<lambda>s.
        Inr (S\<lparr>base := s, dirs := (dirs S)(d := None)\<rparr>)))
      else Inr S)"

definition dir_get_inode :: "nat \<Rightarrow> fsys \<Rightarrow> nat res" where
  "dir_get_inode d S = ebind (get_dirp d S) (\<lambda>x. Inr (dir_inode x))"

section \<open>directory.c: entries\<close>

text \<open>\<open>inode_read_at (dir->inode, &e, sizeof e, ofs)\<close>: what is read replaces the first bytes of \<open>e\<close>.\<close>

definition read_entry :: "nat \<Rightarrow> int \<Rightarrow> dir_entry \<Rightarrow> fs \<Rightarrow> (int \<times> dir_entry \<times> fs) res" where
  "read_entry p ofs e s =
     ebind (inode_read_at p 20 ofs s) (\<lambda>(k, bs, s). Inr (k, entry_of (bs @ drop (length bs) (entry_bytes e)), s))"

fun lookup_loop :: "nat \<Rightarrow> nat \<Rightarrow> cname \<Rightarrow> int \<Rightarrow> dir_entry \<Rightarrow> fs \<Rightarrow> ((dir_entry \<times> int) option \<times> fs) res" where
  "lookup_loop 0 p name ofs e s = Inl Out_of_fuel"
| "lookup_loop (Suc n) p name ofs e s =
     ebind (read_entry p ofs e s) (\<lambda>(k, e, s).
     if k = 20 then
       ebind (if e_in_use e then str_equal name (name_bytes e) else Inr False) (\<lambda>found.
       if found then Inr (Some (e, ofs), s) else lookup_loop n p name (ofs + 20) e s)
     else Inr (None, s))"

definition dlookup :: "nat \<Rightarrow> undef \<Rightarrow> nat \<Rightarrow> cname \<Rightarrow> fsys \<Rightarrow> ((dir_entry \<times> int) option \<times> fsys) res" where
  "dlookup n u d name S =
     ebind (kassert (d \<noteq> 0)) (\<lambda>_. ebind (get_dirp d S) (\<lambda>x. on_fs (lookup_loop n (dir_inode x) name 0 (u_entry u)) S))"

text \<open>The result is the inode that \<open>dir_lookup\<close> stores, 0 if it returns false.\<close>

definition dir_lookup :: "nat \<Rightarrow> undef \<Rightarrow> nat \<Rightarrow> cname \<Rightarrow> fsys \<Rightarrow> (nat \<times> fsys) res" where
  "dir_lookup n u d name S =
     ebind (kassert (d \<noteq> 0)) (\<lambda>_. ebind (dlookup n u d name S) (\<lambda>(r, S).
     case r of Some (e, ofs) \<Rightarrow> on_fs (inode_open (e_sector e)) S | None \<Rightarrow> Inr (0, S)))"

fun slot_loop :: "nat \<Rightarrow> nat \<Rightarrow> int \<Rightarrow> dir_entry \<Rightarrow> fs \<Rightarrow> ((int \<times> dir_entry) \<times> fs) res" where
  "slot_loop 0 p ofs e s = Inl Out_of_fuel"
| "slot_loop (Suc n) p ofs e s =
     ebind (read_entry p ofs e s) (\<lambda>(k, e, s).
     if k = 20 \<and> e_in_use e then slot_loop n p (ofs + 20) e s else Inr ((ofs, e), s))"

definition write_entry :: "nat \<Rightarrow> nat \<Rightarrow> dir_entry \<Rightarrow> int \<Rightarrow> fs \<Rightarrow> (int \<times> fs) res" where
  "write_entry n p e ofs = inode_write_at n (free_map_allocate n) p (entry_bytes e) 20 ofs"

definition dir_add :: "nat \<Rightarrow> undef \<Rightarrow> nat \<Rightarrow> cname \<Rightarrow> u32 \<Rightarrow> fsys \<Rightarrow> (bool \<times> fsys) res" where
  "dir_add n u d name inode_sector S =
     ebind (kassert (d \<noteq> 0)) (\<lambda>_.
     if name = [] \<or> length name > NAME_MAX then Inr (False, S)
     else
       ebind (dlookup n u d name S) (\<lambda>(r, S).
       if r \<noteq> None then Inr (False, S)
       else
         ebind (get_dirp d S) (\<lambda>x.
         ebind (on_fs (slot_loop n (dir_inode x) 0 (u_entry u)) S) (\<lambda>((ofs, e), S).
         let e = e\<lparr>e_in_use := True, e_name := copy_name name (e_name e), e_sector := inode_sector\<rparr>
         in ebind (on_fs (write_entry n (dir_inode x) e ofs) S) (\<lambda>(k, S).
            ebind (dir_lookup n u d name S) (\<lambda>(inode, S).
            ebind (u_store u inode S) (\<lambda>S.
            ebind (dir_open n (u_ptr u) S) (\<lambda>(dir_added, S).
            ebind (get_dirp dir_added S) (\<lambda>y.
            Inr (k = 20, set_dirp dir_added (y\<lparr>dir_name := name\<rparr>) S)))))))))) "

definition dir_remove :: "nat \<Rightarrow> undef \<Rightarrow> nat \<Rightarrow> cname \<Rightarrow> fsys \<Rightarrow> (bool \<times> fsys) res" where
  "dir_remove n u d name S =
     ebind (kassert (d \<noteq> 0)) (\<lambda>_.
     ebind (dlookup n u d name S) (\<lambda>(r, S).
     case r of
       None \<Rightarrow> Inr (False, S)
     | Some (e, ofs) \<Rightarrow>
         ebind (on_fs (inode_open (e_sector e)) S) (\<lambda>(p, S).
         if p = 0 then Inr (False, S)
         else
           ebind (get_dirp d S) (\<lambda>x.
           ebind (on_fs (write_entry n (dir_inode x) (e\<lparr>e_in_use := False\<rparr>) ofs) S) (\<lambda>(k, S).
           ebind (if k = 20 then inode_remove p (base S) else Inr (base S)) (\<lambda>s.
           ebind (inode_close n p s) (\<lambda>s. Inr (k = 20, S\<lparr>base := s\<rparr>))))))))"

fun readdir_loop :: "nat \<Rightarrow> undef \<Rightarrow> nat \<Rightarrow> fsys \<Rightarrow> (cname option \<times> fsys) res" where
  "readdir_loop 0 u d S = Inl Out_of_fuel"
| "readdir_loop (Suc n) u d S =
     ebind (get_dirp d S) (\<lambda>x.
     ebind (read_entry (dir_inode x) (dir_pos x) (u_entry u) (base S)) (\<lambda>(k, e, s).
     let S = S\<lparr>base := s\<rparr>
     in if k = 20 then
          let S = set_dirp d (x\<lparr>dir_pos := dir_pos x + 20\<rparr>) S
          in if e_in_use e then ebind (c_string (name_bytes e)) (\<lambda>str. Inr (Some (take NAME_MAX str), S))
             else readdir_loop n (u\<lparr>u_entry := e\<rparr>) d S
        else Inr (None, S)))"

definition dir_readdir :: "nat \<Rightarrow> undef \<Rightarrow> nat \<Rightarrow> fsys \<Rightarrow> (cname option \<times> fsys) res" where
  "dir_readdir = readdir_loop"

definition DOT :: cname where
  "DOT = [46]"

definition DOTDOT :: cname where
  "DOTDOT = [46, 46]"

definition dir_create :: "nat \<Rightarrow> undef \<Rightarrow> u32 \<Rightarrow> u32 \<Rightarrow> fsys \<Rightarrow> (bool \<times> fsys) res" where
  "dir_create n u sector entry_cnt S =
     ebind (on_fs (inode_create n sector (sint (entry_cnt * 20))) S) (\<lambda>(success, S).
     ebind (on_fs (inode_open sector) S) (\<lambda>(p, S).
     ebind (dir_open n p S) (\<lambda>(first_dir, S).
     ebind (get_dirp first_dir S) (\<lambda>x.
     ebind (get_inode (dir_inode x) (base S)) (\<lambda>i.
     let S = S\<lparr>base := set_inode (dir_inode x) (i\<lparr>is_dir := - 1\<rparr>) (base S)\<rparr>
     in ebind (dir_add n u first_dir DOT sector S) (\<lambda>(_, S).
        ebind (dir_add n u first_dir DOTDOT sector S) (\<lambda>(_, S).
        Inr (success, S))))))))"

section \<open>Path names\<close>

definition slash :: u8 where
  "slash = 47"

text \<open>The last part of a path; the argument is what the variable holds if there is none.\<close>

definition last_token :: "cname \<Rightarrow> cname \<Rightarrow> cname" where
  "last_token none path = (if tokens [slash] path = [] then none else last (tokens [slash] path))"

text \<open>The loop of \<open>get_dir\<close>.  The code passes the address of a cleared inode where \<open>dir_lookup\<close> expects the address of a
  pointer to an inode: the pointer is stored in the list element of the cleared inode, which is then opened as a directory.\<close>

fun walk :: "nat \<Rightarrow> undef \<Rightarrow> nat \<Rightarrow> cname list \<Rightarrow> nat \<Rightarrow> fsys \<Rightarrow> (nat option \<times> fsys) res" where
  "walk n u cur_inode [] curr_dir S = Inr (Some curr_dir, S)"
| "walk n u cur_inode (t # ts) curr_dir S =
     ebind (dir_lookup n u curr_dir t S) (\<lambda>(p, S).
     if cur_inode = 0 then Inl Bad_access
     else if p = 0 then Inr (None, S)
     else ebind (dir_open n cur_inode S) (\<lambda>(d, S). walk n u cur_inode ts d S))"

definition cleared_inode :: inode where
  "cleared_inode = \<lparr>i_sector = 0, open_cnt = 0, removed = False, deny_write_cnt = 0,
     i_data = \<lparr>d_start = 0, d_length = 0, d_magic = 0, d_sectors = replicate 125 0\<rparr>, is_dir = 0\<rparr>"

definition get_dir :: "nat \<Rightarrow> undef \<Rightarrow> nat \<Rightarrow> cname \<Rightarrow> fsys \<Rightarrow> (nat \<times> fsys) res" where
  "get_dir n u current_dir path S =
     (let (bad_dir, s) = fs_malloc (base S); S = S\<lparr>base := s\<rparr>
      in if bad_dir = 0 then Inl Bad_access
         else
           let S = set_dirp bad_dir \<lparr>d_empty = False, dir_inode = 0, dir_pos = - 1, dir_name = []\<rparr> S
           in ebind (if path \<noteq> [] \<and> hd path = slash then dir_open_root n S else Inr (current_dir, S)) (\<lambda>(curr_dir, S).
              let (cur_inode, s) = fs_malloc (base S);
                  s = (if cur_inode = 0 then s else set_inode cur_inode cleared_inode s)
              in ebind (walk n u cur_inode (tokens [slash] path) curr_dir (S\<lparr>base := s\<rparr>)) (\<lambda>(r, S).
                 case r of None \<Rightarrow> Inr (bad_dir, S) | Some d \<Rightarrow> Inr (d, S\<lparr>dirs := (dirs S)(bad_dir := None)\<rparr>))))"

section \<open>filesys.c\<close>

definition do_format :: "nat \<Rightarrow> undef \<Rightarrow> fsys \<Rightarrow> fsys res" where
  "do_format n u S =
     ebind (free_map_create n (base S)) (\<lambda>s.
     ebind (dir_create n u ROOT_DIR_SECTOR 16 (S\<lparr>base := s\<rparr>)) (\<lambda>(ok, S).
     if \<not> ok then Inl (Panic ''root directory creation failed'')
     else ebind (free_map_close n (base S)) (\<lambda>s. Inr (S\<lparr>base := s\<rparr>))))"

text \<open>\<open>store\<close> is the block for the bits of the free map.\<close>

definition filesys_init :: "nat \<Rightarrow> undef \<Rightarrow> u32 list option \<Rightarrow> bool \<Rightarrow> fsys \<Rightarrow> fsys res" where
  "filesys_init n u store format S =
     ebind (block_get_role BLOCK_FILESYS (devs (base S))) (\<lambda>b.
     if b = 0 then Inl (Panic (''No file system device found, can'' @ [CHR 0x27] @ ''t initialize file system.''))
     else
       ebind (free_map_init store (inode_init ((base S)\<lparr>fs_device := b\<rparr>))) (\<lambda>s.
       ebind (if format then do_format n u (S\<lparr>base := s\<rparr>) else Inr (S\<lparr>base := s\<rparr>)) (\<lambda>S.
       ebind (free_map_open n (base S)) (\<lambda>s. Inr (S\<lparr>base := s, created := 0\<rparr>)))))"

definition filesys_done :: "nat \<Rightarrow> fsys \<Rightarrow> fsys res" where
  "filesys_done n S = ebind (free_map_close n (base S)) (\<lambda>s. Inr (S\<lparr>base := s\<rparr>))"

text \<open>\<open>dir != NULL && free_map_allocate (...) && inode_create (...) && dir_add (...)\<close>.\<close>

definition create_in :: "nat \<Rightarrow> undef \<Rightarrow> nat \<Rightarrow> cname \<Rightarrow> int \<Rightarrow> fsys \<Rightarrow> (bool \<times> fsys) res" where
  "create_in n u d name initial_size S =
     (if d = 0 then Inr (False, S)
      else ebind (on_fs (free_map_allocate n 1) S) (\<lambda>(r, S).
        case r of None \<Rightarrow> Inr (False, S)
        | Some x \<Rightarrow> ebind (on_fs (inode_create n x initial_size) S) (\<lambda>(ok, S).
                     if ok then dir_add n u d name x S else Inr (False, S))))"

definition filesys_create :: "nat \<Rightarrow> undef \<Rightarrow> cname \<Rightarrow> nat \<Rightarrow> cname \<Rightarrow> int \<Rightarrow> fsys \<Rightarrow> (bool \<times> fsys) res" where
  "filesys_create n u none current_dir name initial_size S =
     (if created S \<le> 1 then
        ebind (dir_open_root n S) (\<lambda>(d, S).
        ebind (create_in n u d name initial_size S) (\<lambda>(ok, S). Inr (ok, S\<lparr>created := created S + 1\<rparr>)))
      else create_in n u current_dir (last_token none name) initial_size S)"

definition filesys_open :: "nat \<Rightarrow> undef \<Rightarrow> cname \<Rightarrow> fsys \<Rightarrow> (nat \<times> fsys) res" where
  "filesys_open n u name S =
     ebind (dir_open_root n S) (\<lambda>(d, S).
     if name = [slash] then ebind (get_dirp d S) (\<lambda>x. on_fs (file_open n (dir_inode x)) S)
     else
       ebind (dir_lookup n u d (if d \<noteq> 0 \<and> name \<noteq> [] \<and> hd name = slash then tl name else name) S) (\<lambda>(p, S).
       ebind (dir_close n d S) (\<lambda>S. on_fs (file_open n p) S)))"

text \<open>The comparison \<open>path == ""\<close> of the code is one of addresses; the argument \<open>is_literal\<close> is its result.\<close>

definition filesys_remove :: "nat \<Rightarrow> undef \<Rightarrow> bool \<Rightarrow> cname \<Rightarrow> nat \<Rightarrow> cname \<Rightarrow> fsys \<Rightarrow> (bool \<times> fsys) res" where
  "filesys_remove n u is_literal none current_dir path S =
     (if is_literal then Inr (False, S)
      else if path = [slash] then Inr (False, S)
      else
        ebind (get_dir n u current_dir path S) (\<lambda>(d, S).
        ebind (get_dirp d S) (\<lambda>x.
        if \<not> d_empty x then Inr (False, S)
        else
          ebind (dir_open_root n S) (\<lambda>(root, S).
          ebind (dir_remove n u root (last_token none path) S) (\<lambda>(success, S).
          ebind (dir_close n d S) (\<lambda>S. Inr (success, S)))))))"

end
