(* ===== verification/Dir_Map.thy ===== *)
theory Dir_Map
  imports Directory
begin

text \<open>
  A directory is a map from names to sectors.

  \<open>entries s d\<close> are the entries in the file with the disk inode \<open>d\<close>, \<open>dmap\<close> the map that they stand for.  \<open>opens s s'\<close> says
  that \<open>s'\<close> comes from \<open>s\<close> by operations that open and close inodes and get memory.
\<close>

section \<open>Entries\<close>

lemma entry_of_append: "length bs = 20 \<Longrightarrow> entry_of (bs @ r) = entry_of bs"
  by (simp add: entry_of_def nth_append)

lemma entry_of_bytes [simp]: "length (e_name e) = 15 \<Longrightarrow> entry_of (entry_bytes e) = e"
  using words_of_bytes_of_words [of "[e_sector e]"]
  by (simp add: entry_of_def entry_bytes_def nth_append bytes_of_words_def)

lemma length_entry_bytes [simp]: "length (e_name e) = 15 \<Longrightarrow> length (entry_bytes e) = 20"
  by (simp add: entry_bytes_def)

lemma length_entry_name [simp]: "length bs = 20 \<Longrightarrow> length (e_name (entry_of bs)) = 15"
  by (simp add: entry_of_def)

definition ename :: "dir_entry \<Rightarrow> cname" where
  "ename e = takeWhile (\<lambda>b. b \<noteq> 0) (e_name e)"

definition entry_at :: "fs \<Rightarrow> inode_disk \<Rightarrow> nat \<Rightarrow> dir_entry" where
  "entry_at s d k = entry_of (file_bytes s d (20 * k) 20)"

definition entries :: "fs \<Rightarrow> inode_disk \<Rightarrow> dir_entry list" where
  "entries s d = map (entry_at s d) [0..<nat (d_length d) div 20]"

definition entries_ok :: "dir_entry list \<Rightarrow> bool" where
  "entries_ok es \<longleftrightarrow> (\<forall>e\<in>set es. length (e_name e) = 15 \<and> (e_in_use e \<longrightarrow> 0 \<in> set (e_name e))) \<and>
     distinct (map ename (filter e_in_use es))"

definition dmap :: "dir_entry list \<Rightarrow> cname \<Rightarrow> u32 option" where
  "dmap es = map_of (map (\<lambda>e. (ename e, e_sector e)) (filter e_in_use es))"

lemma str_equal_name:
  "0 \<notin> set name \<Longrightarrow> 0 \<in> set b \<Longrightarrow> str_equal name (b @ r) = Inr (takeWhile (\<lambda>x. x \<noteq> 0) b = name)"
proof (induction b arbitrary: name)
  case (Cons x b)
  then show ?case by (cases name) auto
qed simp

lemma str_equal_entry:
  "0 \<notin> set name \<Longrightarrow> 0 \<in> set (e_name e) \<Longrightarrow> str_equal name (name_bytes e) = Inr (ename e = name)"
  by (simp add: name_bytes_def str_equal_name ename_def)

lemma copy_name_ok:
  assumes "length name \<le> 14" "length dst = 15" "0 \<notin> set name"
  shows "length (copy_name name dst) = 15" "0 \<in> set (copy_name name dst)" "takeWhile (\<lambda>b. b \<noteq> 0) (copy_name name dst) = name"
proof -
  have "min (length name) (length dst - 1) = length name" using assms(1,2) by simp
  then have c: "copy_name name dst = name @ 0 # drop (Suc (length name)) dst" by (simp add: copy_name_def)
  show "length (copy_name name dst) = 15" using assms(1,2) by (simp add: c)
  show "0 \<in> set (copy_name name dst)" by (simp add: c)
  show "takeWhile (\<lambda>b. b \<noteq> 0) (copy_name name dst) = name" unfolding c using assms(3) by (subst takeWhile_append2) auto
qed

lemma entries_same: "sect s' = sect s \<Longrightarrow> entries s' d = entries s d"
  unfolding entries_def entry_at_def file_bytes_def file_byte_def by simp

lemma length_entries [simp]: "length (entries s d) = nat (d_length d) div 20"
  by (simp add: entries_def)

lemma nth_entries [simp]: "k < nat (d_length d) div 20 \<Longrightarrow> entries s d ! k = entry_at s d k"
  by (simp add: entries_def)

section \<open>Reading entries\<close>

lemma read_entry_ok:
  assumes "fs_ok s" "small_file s p i" "0 \<notin> sset (mallocs s)" "k < nat (d_length (i_data i)) div 20"
  shows "\<exists>s'. read_entry p (20 * int k) e s = Inr (20, entries s (i_data i) ! k, s') \<and> same_files s s' \<and> sect s' = sect s"
proof -
  have "20 * int k + 20 \<le> d_length (i_data i)" using assms(2,4) by (simp add: small_file_def)
  then obtain s' where "inode_read_at p 20 (20 * int k) s = Inr (20, file_bytes s (i_data i) (20 * k) 20, s')" "same_files s s'"
    "sect s' = sect s"
    using read_loop_ok [OF assms(1-3), of "20 * int k" 20 "[]" False] by (auto simp: inode_read_at_def nat_mult_distrib)
  then show ?thesis using assms(4) by (auto simp: read_entry_def entry_of_append entry_at_def)
qed

lemma read_entry_end:
  assumes "fs_ok s" "small_file s p i" "0 \<notin> sset (mallocs s)" "k = nat (d_length (i_data i)) div 20"
  shows "\<exists>e' s'. read_entry p (20 * int k) e s = Inr (0, e', s') \<and> same_files s s' \<and> sect s' = sect s"
proof -
  have "0 \<le> d_length (i_data i)" using assms(2) by (simp add: small_file_def)
  then have "20 * int k \<le> d_length (i_data i)" "d_length (i_data i) < 20 * int k + 20"
    using assms(4) by (simp_all add: zdiv_int)
  then show ?thesis
    using read_loop_past [OF assms(1-3), of "20 * int k" 20 "[]" False] by (auto simp: read_entry_def inode_read_at_def)
qed

abbreviation dcount :: "inode \<Rightarrow> nat" where
  "dcount i \<equiv> nat (d_length (i_data i)) div 20"

definition matches :: "dir_entry list \<Rightarrow> cname \<Rightarrow> nat \<Rightarrow> bool" where
  "matches es name j \<longleftrightarrow> e_in_use (es ! j) \<and> ename (es ! j) = name"

lemma lookup_loop_ok:
  assumes "0 \<notin> set name"
  shows "fs_ok s \<Longrightarrow> small_file s p i \<Longrightarrow> 0 \<notin> sset (mallocs s) \<Longrightarrow> entries_ok (entries s (i_data i)) \<Longrightarrow> k \<le> dcount i \<Longrightarrow>
    dcount i - k < n \<Longrightarrow>
    \<exists>s'. lookup_loop n p name (20 * int k) e s =
      Inr (map_option (\<lambda>j. (entries s (i_data i) ! j, 20 * int j)) (find (matches (entries s (i_data i)) name) [k..<dcount i]), s') \<and>
      same_files s s' \<and> sect s' = sect s"
proof (induction n arbitrary: k e s)
  case (Suc n)
  let ?es = "entries s (i_data i)"
  show ?case
  proof (cases "k < dcount i")
    case True
    obtain s1 where s1: "read_entry p (20 * int k) e s = Inr (20, ?es ! k, s1)" "same_files s s1" "sect s1 = sect s"
      using read_entry_ok [OF Suc.prems(1-3) True] by blast
    have "?es ! k \<in> set ?es" using True by (simp add: nth_mem del: nth_entries)
    then have m: "(if e_in_use (?es ! k) then str_equal name (name_bytes (?es ! k)) else Inr False) = Inr (matches ?es name k)"
      using Suc.prems(4) assms by (simp add: entries_ok_def str_equal_entry matches_def del: nth_entries)
    show ?thesis
    proof (cases "matches ?es name k")
      case match: True
      then have "find (matches ?es name) [k..<dcount i] = Some k" using True by (simp add: find_upt_step)
      then show ?thesis using s1 m match by (simp del: nth_entries)
    next
      case False
      have es: "entries s1 (i_data i) = ?es" using s1(3) by (rule entries_same)
      have q: "fs_ok s1" "0 \<notin> sset (mallocs s1)" using s1(2) Suc.prems(3) by (auto simp: same_files_def)
      have m': "Suc k \<le> dcount i" "dcount i - Suc k < n" using True Suc.prems by linarith+
      obtain s2 where "lookup_loop n p name (20 * int (Suc k)) (?es ! k) s1 =
          Inr (map_option (\<lambda>j. (?es ! j, 20 * int j)) (find (matches ?es name) [Suc k..<dcount i]), s2)"
        "same_files s1 s2" "sect s2 = sect s1"
        using Suc.IH [of s1 "Suc k" "?es ! k"] small_file_same [OF Suc.prems(2) s1(2)] q Suc.prems(4) m'
        by (auto simp: es simp del: nth_entries)
      then show ?thesis
        using s1 m False True same_files_trans [OF s1(2)]
        by (auto simp: find_upt_step add.commute [of "20 * int k" 20] simp del: nth_entries)
    qed
  next
    case False
    then have "k = dcount i" using Suc.prems(5) by simp
    then show ?thesis using read_entry_end [OF Suc.prems(1-3), of k e] by auto
  qed
qed simp

lemma slot_loop_ok:
  "fs_ok s \<Longrightarrow> small_file s p i \<Longrightarrow> 0 \<notin> sset (mallocs s) \<Longrightarrow> k \<le> dcount i \<Longrightarrow> dcount i - k < n \<Longrightarrow>
   \<exists>e' s'. slot_loop n p (20 * int k) e s =
     Inr (case find (\<lambda>j. \<not> e_in_use (entries s (i_data i) ! j)) [k..<dcount i] of
            None \<Rightarrow> (20 * int (dcount i), e') | Some j \<Rightarrow> (20 * int j, entries s (i_data i) ! j), s') \<and>
     same_files s s' \<and> sect s' = sect s"
proof (induction n arbitrary: k e s)
  case (Suc n)
  let ?es = "entries s (i_data i)"
  show ?case
  proof (cases "k < dcount i")
    case True
    obtain s1 where s1: "read_entry p (20 * int k) e s = Inr (20, ?es ! k, s1)" "same_files s s1" "sect s1 = sect s"
      using read_entry_ok [OF Suc.prems(1-3) True] by blast
    show ?thesis
    proof (cases "e_in_use (?es ! k)")
      case used: True
      have es: "entries s1 (i_data i) = ?es" using s1(3) by (rule entries_same)
      have q: "fs_ok s1" "0 \<notin> sset (mallocs s1)" using s1(2) Suc.prems(3) by (auto simp: same_files_def)
      have m': "Suc k \<le> dcount i" "dcount i - Suc k < n" using True Suc.prems by linarith+
      obtain e' s2 where "slot_loop n p (20 * int (Suc k)) (?es ! k) s1 =
          Inr (case find (\<lambda>j. \<not> e_in_use (?es ! j)) [Suc k..<dcount i] of
            None \<Rightarrow> (20 * int (dcount i), e') | Some j \<Rightarrow> (20 * int j, ?es ! j), s2)"
        "same_files s1 s2" "sect s2 = sect s1"
        using Suc.IH [of s1 "Suc k" "?es ! k", unfolded es] small_file_same [OF Suc.prems(2) s1(2)] q m' by blast
      then show ?thesis
        using s1 used True same_files_trans [OF s1(2)]
        by (auto simp: find_upt_step add.commute [of "20 * int k" 20] simp del: nth_entries)
    next
      case False
      then show ?thesis using s1 True by (auto simp: find_upt_step simp del: nth_entries)
    qed
  next
    case False
    then have "k = dcount i" using Suc.prems(4) by simp
    then show ?thesis using read_entry_end [OF Suc.prems(1-3), of k e] by auto
  qed
qed simp

section \<open>Writing entries\<close>

lemma write_entry_ok:
  assumes "fs_ok s" "small_file s p i" "0 \<notin> sset (mallocs s)" "deny_write_cnt i = 0" "k < dcount i" "length (e_name e) = 15" "20 < n"
  shows "\<exists>s'. write_entry n p e (20 * int k) s = Inr (20, s') \<and> same_files s s' \<and>
    entries s' (i_data i) = (entries s (i_data i))[k := e] \<and> (\<forall>x. x \<notin> own_sectors i \<longrightarrow> sect s' x = sect s x)"
proof -
  have l: "20 * int k + 20 \<le> d_length (i_data i)" using assms(2,5) by (simp add: small_file_def)
  obtain s' where s': "write_entry n p e (20 * int k) s = Inr (20, s')" "same_files s s'" "wrote s s' i (20 * k) (entry_bytes e)"
    using inode_write_at_ok [OF assms(1-4), of "20 * int k" "entry_bytes e" n "free_map_allocate n"] l assms(6,7)
    by (auto simp: write_entry_def nat_mult_distrib)
  have "entry_at s' (i_data i) j = (if j = k then e else entry_at s (i_data i) j)" if "j < dcount i" for j
  proof (cases "j = k")
    case True
    have "file_bytes s' (i_data i) (20 * k) 20 = entry_bytes e"
      using wrote_file_bytes [OF assms(2) s'(3)] l assms(6) by simp
    then show ?thesis using True assms(6) by (simp add: entry_at_def)
  next
    case False
    have "20 * j + 20 \<le> 512 * sector_cnt i"
      using that by (simp add: bytes_to_sectors_def)
    then have "file_byte s' (i_data i) x = file_byte s (i_data i) x" if "x \<in> {20 * j..<20 * j + 20}" for x
      using s'(3) that False assms(6) by (auto simp: wrote_def)
    then have "file_bytes s' (i_data i) (20 * j) 20 = file_bytes s (i_data i) (20 * j) 20" by (simp add: file_bytes_def)
    then show ?thesis using False by (simp add: entry_at_def)
  qed
  then have "entries s' (i_data i) = (entries s (i_data i))[k := e]"
    using assms(5) by (intro nth_equalityI) (simp_all add: nth_list_update)
  then show ?thesis using s' by (auto simp: wrote_def)
qed

lemma entries_split: "j < length es \<Longrightarrow> \<exists>xs ys. es = xs @ es ! j # ys \<and> (\<forall>e. es[j := e] = xs @ e # ys)"
  using id_take_nth_drop upd_conv_take_nth_drop by metis

lemma dmap_Some:
  assumes "entries_ok es"
  shows "dmap es name = Some x \<longleftrightarrow> (\<exists>j < length es. matches es name j \<and> e_sector (es ! j) = x)"
proof -
  have "dmap es name = Some x \<longleftrightarrow> (name, x) \<in> set (map (\<lambda>e. (ename e, e_sector e)) (filter e_in_use es))"
    unfolding dmap_def using assms by (intro map_of_eq_Some_iff) (simp add: entries_ok_def comp_def)
  then show ?thesis by (auto simp: matches_def in_set_conv_nth image_iff)
qed

lemma dmap_None: "dmap es name = None \<longleftrightarrow> (\<forall>j < length es. \<not> matches es name j)"
  unfolding dmap_def map_of_eq_None_iff matches_def by (simp add: image_image) (auto simp: in_set_conv_nth)

lemma find_matches:
  assumes "entries_ok es"
  shows "case find (matches es name) [0..<length es] of
    None \<Rightarrow> dmap es name = None
  | Some j \<Rightarrow> j < length es \<and> matches es name j \<and> dmap es name = Some (e_sector (es ! j))"
proof (cases "find (matches es name) [0..<length es]")
  case None
  then have "dmap es name = None" by (simp add: dmap_None find_None_iff)
  then show ?thesis using None by simp
next
  case (Some j)
  then have "j < length es" "matches es name j" by (simp_all add: find_upt_Some)
  then show ?thesis using Some dmap_Some [OF assms] by auto
qed

lemma insert_entry:
  assumes "entries_ok es" "j < length es" "\<not> e_in_use (es ! j)" "e_in_use e" "length (e_name e) = 15" "0 \<in> set (e_name e)"
    "dmap es (ename e) = None"
  shows "entries_ok (es[j := e])" "dmap (es[j := e]) = (dmap es)(ename e \<mapsto> e_sector e)"
proof -
  obtain xs ys where d: "es = xs @ es ! j # ys" "es[j := e] = xs @ e # ys" using entries_split [OF assms(2)] by blast
  let ?f = "\<lambda>zs. map (\<lambda>e. (ename e, e_sector e)) (filter e_in_use zs)"
  have f: "filter e_in_use es = filter e_in_use xs @ filter e_in_use ys" using assms(3) by (subst d(1)) simp
  have n: "ename e \<notin> ename ` set (filter e_in_use es)"
    using assms(7) by (auto simp: dmap_def map_of_eq_None_iff image_iff)
  have "set es = insert (es ! j) (set xs \<union> set ys)" by (subst d(1)) simp
  then have m: "\<forall>e\<in>set xs \<union> set ys. length (e_name e) = 15 \<and> (e_in_use e \<longrightarrow> 0 \<in> set (e_name e))"
    using assms(1) unfolding entries_ok_def by blast
  have "distinct (map ename (filter e_in_use xs @ filter e_in_use ys))" using assms(1) f by (simp add: entries_ok_def)
  then show "entries_ok (es[j := e])" using m n assms(4-6) by (simp add: entries_ok_def d(2) f) blast
  have "ename e \<notin> dom (map_of (?f xs))" using n by (auto simp: dom_map_of_conv_image_fst f)
  then have "map_of (?f xs @ (ename e, e_sector e) # ?f ys) = (map_of (?f xs @ ?f ys))(ename e \<mapsto> e_sector e)"
    by (auto simp: map_add_def fun_eq_iff split: option.splits)
  then show "dmap (es[j := e]) = (dmap es)(ename e \<mapsto> e_sector e)" using assms(4) by (simp add: dmap_def d(2) f)
qed

lemma erase_entry:
  assumes "entries_ok es" "j < length es" "e_in_use (es ! j)" "\<not> e_in_use e" "length (e_name e) = 15"
  shows "entries_ok (es[j := e])" "dmap (es[j := e]) = (dmap es)(ename (es ! j) := None)"
proof -
  obtain xs ys where d: "es = xs @ es ! j # ys" "es[j := e] = xs @ e # ys" using entries_split [OF assms(2)] by blast
  let ?f = "\<lambda>zs. map (\<lambda>e. (ename e, e_sector e)) (filter e_in_use zs)"
  have f: "filter e_in_use es = filter e_in_use xs @ es ! j # filter e_in_use ys" using assms(3) by (subst d(1)) simp
  have "set es = insert (es ! j) (set xs \<union> set ys)" by (subst d(1)) simp
  then have m: "\<forall>e\<in>set xs \<union> set ys. length (e_name e) = 15 \<and> (e_in_use e \<longrightarrow> 0 \<in> set (e_name e))"
    using assms(1) unfolding entries_ok_def by blast
  have n: "distinct (map ename (filter e_in_use xs @ es ! j # filter e_in_use ys))" using assms(1) f by (simp add: entries_ok_def)
  then show "entries_ok (es[j := e])" using m assms(4,5) by (auto simp: entries_ok_def d(2))
  have "ename (es ! j) \<notin> dom (map_of (?f xs))" "ename (es ! j) \<notin> dom (map_of (?f ys))"
    using n by (auto simp: dom_map_of_conv_image_fst)
  then have "map_of (?f xs @ ?f ys) = (map_of (?f xs @ (ename (es ! j), e_sector (es ! j)) # ?f ys))(ename (es ! j) := None)"
    by (auto simp: map_add_def fun_eq_iff domIff split: option.splits)
  then show "dmap (es[j := e]) = (dmap es)(ename (es ! j) := None)" using assms(4) by (simp add: dmap_def d(2) f)
qed

end
