(* ===== verification/Dir_Ops.thy ===== *)
theory Dir_Ops
  imports Dir_Map
begin

text \<open>
  The operations of \<open>src/filesys/directory.c\<close> on a directory seen as a map from names to sectors, and what \<open>src/filesys/filesys.c\<close>
  makes of them.
\<close>

declare nth_entries [simp del]

section \<open>Opening inodes\<close>

definition open_ok :: "fs \<Rightarrow> bool" where
  "open_ok s \<longleftrightarrow> (\<forall>p\<in>set (open_inodes s). p \<noteq> 0 \<and> inodes s p \<noteq> None)"

definition same_inode :: "inode \<Rightarrow> inode \<Rightarrow> bool" where
  "same_inode i j \<longleftrightarrow> i_data j = i_data i \<and> i_sector j = i_sector i \<and> deny_write_cnt j = deny_write_cnt i \<and> removed j = removed i"

definition opens :: "fs \<Rightarrow> fs \<Rightarrow> bool" where
  "opens s s' \<longleftrightarrow> fs_ok s' \<and> fs_device s' = fs_device s \<and> sector_cap s' = sector_cap s \<and> files s' = files s \<and>
     free_map s' = free_map s \<and> free_map_file s' = free_map_file s \<and> sset (mallocs s') \<subseteq> sset (mallocs s) \<and>
     later (mallocs s) (mallocs s') \<and> (open_ok s \<longrightarrow> open_ok s') \<and> (\<forall>p. p \<notin> sset (mallocs s) \<longrightarrow> rel_option same_inode (inodes s p) (inodes s' p))"

lemma set_inode_simps [simp]:
  "fs_ok (set_inode p i s) = fs_ok s" "sector_cap (set_inode p i s) = sector_cap s" "sect (set_inode p i s) = sect s"
  "fs_device (set_inode p i s) = fs_device s" "files (set_inode p i s) = files s" "free_map (set_inode p i s) = free_map s"
  "free_map_file (set_inode p i s) = free_map_file s" "mallocs (set_inode p i s) = mallocs s"
  "open_inodes (set_inode p i s) = open_inodes s" "inodes (set_inode p i s) = (inodes s)(p \<mapsto> i)"
  by (simp_all add: set_inode_def fs_ok_def sector_cap_def sect_def)

lemma same_inode_refl [simp]: "same_inode i i"
  by (simp add: same_inode_def)

lemma same_inode_trans: "same_inode i j \<Longrightarrow> same_inode j k \<Longrightarrow> same_inode i k"
  by (simp add: same_inode_def)

lemma same_files_opens: "same_files s s' \<Longrightarrow> opens s s'"
  by (auto simp: opens_def same_files_def open_ok_def intro: option.rel_refl)

lemma opens_trans:
  assumes "opens a b" "opens b c"
  shows "opens a c"
proof -
  have "rel_option same_inode (inodes a p) (inodes c p)" if "p \<notin> sset (mallocs a)" for p
  proof -
    have "rel_option same_inode (inodes a p) (inodes b p)" "rel_option same_inode (inodes b p) (inodes c p)"
      using assms that by (auto simp: opens_def)
    then show ?thesis by (auto simp: option.rel_sel intro: same_inode_trans)
  qed
  then show ?thesis using assms by (auto simp: opens_def intro: later_trans)
qed

lemma opens_small_file:
  assumes "opens s s'" "small_file s p i" "p \<notin> sset (mallocs s)"
  shows "\<exists>j. small_file s' p j \<and> same_inode i j"
proof -
  have "rel_option same_inode (inodes s p) (inodes s' p)" using assms(1,3) by (simp add: opens_def)
  then obtain j where j: "inodes s' p = Some j" "same_inode i j" using assms(2) by (auto simp: small_file_def option.rel_sel)
  then have "i_data j = i_data i" by (simp add: same_inode_def)
  then show ?thesis using j assms(1,2) by (auto simp: small_file_def opens_def)
qed

lemma find_open_ok:
  assumes "\<forall>p\<in>set ps. p \<noteq> 0 \<and> inodes s p \<noteq> None"
  obtains (none) "find_open ps sector s = Inr 0" "\<forall>p\<in>set ps. \<exists>i. inodes s p = Some i \<and> i_sector i \<noteq> sector"
  | (found) q i where "find_open ps sector s = Inr q" "q \<in> set ps" "inodes s q = Some i" "i_sector i = sector"
  using assms
proof (induction ps arbitrary: thesis)
  case (Cons p ps)
  obtain i where i: "inodes s p = Some i" using Cons.prems(3) by auto
  show ?case
  proof (cases "i_sector i = sector")
    case True
    then show ?thesis using Cons.prems(2) [of p i] i by (simp add: get_inode_def)
  next
    case False
    then have f: "find_open (p # ps) sector s = find_open ps sector s" using i by (simp add: get_inode_def)
    show ?thesis
      by (rule Cons.IH) (use Cons.prems f i False in auto)
  qed
qed simp

lemma inode_open_ok:
  assumes "fs_ok s" "0 \<notin> sset (mallocs s)" "open_ok s" "sector < sector_cap s"
  shows "\<exists>q s' i. inode_open sector s = Inr (q, s') \<and> q \<noteq> 0 \<and> opens s s' \<and> sect s' = sect s \<and>
    inodes s' q = Some i \<and> i_sector i = sector \<and>
    ((\<forall>p\<in>set (open_inodes s). \<exists>i. inodes s p = Some i \<and> i_sector i \<noteq> sector) \<longrightarrow>
       q = shd (mallocs s) \<and> mallocs s' = stl (mallocs s) \<and> open_inodes s' = q # open_inodes s \<and>
       i = \<lparr>i_sector = sector, open_cnt = 1, removed = False, deny_write_cnt = 0,
         i_data = disk_of_bytes (sect s sector), is_dir = 0\<rparr>)"
proof (rule find_open_ok [of "open_inodes s" s sector])
  show "\<forall>p\<in>set (open_inodes s). p \<noteq> 0 \<and> inodes s p \<noteq> None" using assms(3) by (simp add: open_ok_def)
next
  assume "\<forall>p\<in>set (open_inodes s). \<exists>i. inodes s p = Some i \<and> i_sector i \<noteq> sector"
  note new = this
  obtain p s1 where a: "fs_malloc s = (p, s1)" by fastforce
  note m = fs_malloc_same [OF assms(1) a]
  have p: "p \<noteq> 0" using m(3) assms(2) by metis
  let ?s = "s1\<lparr>open_inodes := p # open_inodes s1\<rparr>"
  have q: "fs_ok ?s" "sector_cap ?s = sector_cap s" "sect ?s = sect s"
    using m by (simp_all add: same_files_def)
  obtain s2 where s2: "fs_read sector ?s = Inr (sect s sector, s2)" "same_files ?s s2" "sect s2 = sect s"
    using fs_read_ok [OF q(1), of sector] q assms(4) by auto
  define i where "i = \<lparr>i_sector = sector, open_cnt = 1, removed = False, deny_write_cnt = 0,
      i_data = disk_of_bytes (sect s sector), is_dir = 0\<rparr>"
  have "inode_open sector s = Inr (p, set_inode p i s2)"
    using find_open_none [OF new] a p s2(1) by (simp add: inode_open_def i_def)
  moreover have "opens s (set_inode p i s2)"
  proof -
    have i: "inodes s2 = inodes s" "open_inodes s2 = p # open_inodes s" "sset (mallocs s2) \<subseteq> sset (mallocs s)"
      "later (mallocs s) (mallocs s2)"
      using s2(2) m(1) by (auto simp: same_files_def intro: later_trans)
    have "rel_option same_inode (inodes s x) (inodes (set_inode p i s2) x)" if "x \<notin> sset (mallocs s)" for x
      using that m(3) i(1) by (auto intro: option.rel_refl)
    moreover have "open_ok (set_inode p i s2)" if "open_ok s" using that p i(1,2) by (simp add: open_ok_def)
    ultimately show ?thesis using s2(2) m(1) i(3,4) unfolding opens_def same_files_def by simp
  qed
  moreover have "p = shd (mallocs s)" "mallocs s2 = stl (mallocs s)" "open_inodes s2 = p # open_inodes s"
    using a s2(1,2) m(1) by (auto simp: fs_malloc_def fs_read_def ebind_eq_Inr same_files_def)
  ultimately show ?thesis using p s2(3) by (simp add: i_def)
next
  fix q i assume q: "find_open (open_inodes s) sector s = Inr q" "q \<in> set (open_inodes s)" "inodes s q = Some i" "i_sector i = sector"
  then have "q \<noteq> 0" using assms(3) by (auto simp: open_ok_def)
  let ?i = "i\<lparr>open_cnt := open_cnt i + 1\<rparr>"
  have "inode_open sector s = Inr (q, set_inode q ?i s)"
    using q \<open>q \<noteq> 0\<close> by (simp add: inode_open_def inode_reopen_def get_inode_def)
  moreover have "opens s (set_inode q ?i s)"
    using assms(1) q(3) by (auto simp: opens_def open_ok_def same_inode_def intro: option.rel_refl)
  moreover have "\<not> (\<forall>p\<in>set (open_inodes s). \<exists>i. inodes s p = Some i \<and> i_sector i \<noteq> sector)"
    using q(2-4) by (metis option.inject)
  ultimately show ?thesis using \<open>q \<noteq> 0\<close> q(4) by simp
qed

section \<open>An open directory\<close>

abbreviation data_sectors :: "inode_disk \<Rightarrow> u32 set" where
  "data_sectors dd \<equiv> set (take (bytes_to_sectors (d_length dd)) (d_sectors dd))"

definition dir_ok :: "fs \<Rightarrow> nat \<Rightarrow> inode_disk \<Rightarrow> bool" where
  "dir_ok s p dd \<longleftrightarrow> fs_ok s \<and> 0 \<notin> sset (mallocs s) \<and> p \<notin> sset (mallocs s) \<and> open_ok s \<and>
     (\<exists>i. small_file s p i \<and> i_data i = dd \<and> deny_write_cnt i = 0) \<and>
     entries_ok (entries s dd) \<and> (\<forall>e\<in>set (entries s dd). e_in_use e \<longrightarrow> e_sector e < sector_cap s)"

definition dir_at :: "fsys \<Rightarrow> nat \<Rightarrow> nat \<Rightarrow> inode_disk \<Rightarrow> bool" where
  "dir_at S d p dd \<longleftrightarrow> d \<noteq> 0 \<and> d \<notin> sset (mallocs (base S)) \<and> (\<exists>x. dirs S d = Some x \<and> dir_inode x = p) \<and> dir_ok (base S) p dd"

abbreviation dcont :: "fsys \<Rightarrow> inode_disk \<Rightarrow> cname \<Rightarrow> u32 option" where
  "dcont S dd \<equiv> dmap (entries (base S) dd)"

text \<open>The variables without a value do no harm: the store goes to memory that the file system does not use.\<close>

definition harmless :: "undef \<Rightarrow> bool" where
  "harmless u \<longleftrightarrow> u_ptr u \<noteq> 0 \<and> (\<forall>v S. u_store u v S = Inr S)"

definition valid_name :: "cname \<Rightarrow> bool" where
  "valid_name name \<longleftrightarrow> name \<noteq> [] \<and> length name \<le> 14 \<and> 0 \<notin> set name"

lemma dir_ok_opens:
  assumes "dir_ok s p dd" "opens s s'" "entries_ok (entries s' dd)"
    "\<forall>e\<in>set (entries s' dd). e_in_use e \<longrightarrow> e_sector e < sector_cap s"
  shows "dir_ok s' p dd"
proof -
  obtain i where i: "small_file s p i" "i_data i = dd" "deny_write_cnt i = 0" using assms(1) by (auto simp: dir_ok_def)
  obtain j where "small_file s' p j" "same_inode i j"
    using opens_small_file [OF assms(2) i(1)] assms(1) by (auto simp: dir_ok_def)
  then have "\<exists>i. small_file s' p i \<and> i_data i = dd \<and> deny_write_cnt i = 0" using i by (auto simp: same_inode_def)
  then show ?thesis using assms by (auto simp: dir_ok_def opens_def)
qed

lemma dir_at_opens:
  assumes "dir_at S d p dd" "opens (base S) s'" "sect s' = sect (base S)" "base S' = s'" "dirs S' d = dirs S d"
  shows "dir_at S' d p dd" "dcont S' dd = dcont S dd"
proof -
  have e: "entries s' dd = entries (base S) dd" using assms(3) by (rule entries_same)
  then show "dcont S' dd = dcont S dd" using assms(4) by simp
  have ok: "dir_ok (base S) p dd" using assms(1) by (simp add: dir_at_def)
  have "dir_ok s' p dd" by (rule dir_ok_opens [OF ok assms(2)]) (use ok e in \<open>simp_all add: dir_ok_def\<close>)
  then show "dir_at S' d p dd" using assms(1,2,4,5) by (auto simp: dir_at_def opens_def)
qed

lemma dlookup_ok:
  assumes "dir_at S d p dd" "0 \<notin> set name" "nat (d_length dd) div 20 < n"
  shows "\<exists>s'. dlookup n u d name S =
      Inr (map_option (\<lambda>j. (entries (base S) dd ! j, 20 * int j)) (find (matches (entries (base S) dd) name) [0..<nat (d_length dd) div 20]),
        S\<lparr>base := s'\<rparr>) \<and> same_files (base S) s' \<and> sect s' = sect (base S)"
proof -
  obtain x i where x: "dirs S d = Some x" "dir_inode x = p" "d \<noteq> 0" "small_file (base S) p i" "i_data i = dd"
    using assms(1) by (auto simp: dir_at_def dir_ok_def)
  have "fs_ok (base S)" "0 \<notin> sset (mallocs (base S))" "entries_ok (entries (base S) (i_data i))"
    using assms(1) x(5) by (simp_all add: dir_at_def dir_ok_def)
  then obtain s' where "lookup_loop n p name 0 (u_entry u) (base S) =
      Inr (map_option (\<lambda>j. (entries (base S) dd ! j, 20 * int j)) (find (matches (entries (base S) dd) name) [0..<nat (d_length dd) div 20]), s')"
    "same_files (base S) s'" "sect s' = sect (base S)"
    using lookup_loop_ok [OF assms(2) _ x(4), of 0 n "u_entry u"] x(5) assms(3) by (auto)
  then show ?thesis using x(1-3) by (auto simp: dlookup_def get_dirp_def on_fs_def)
qed

lemma dlookup_cases:
  assumes "dir_at S d p dd" "0 \<notin> set name" "nat (d_length dd) div 20 < n"
  obtains (none) s' where "dlookup n u d name S = Inr (None, S\<lparr>base := s'\<rparr>)" "same_files (base S) s'" "sect s' = sect (base S)"
      "dcont S dd name = None"
  | (found) j s' where "dlookup n u d name S = Inr (Some (entries (base S) dd ! j, 20 * int j), S\<lparr>base := s'\<rparr>)"
      "same_files (base S) s'" "sect s' = sect (base S)" "j < nat (d_length dd) div 20" "matches (entries (base S) dd) name j"
      "dcont S dd name = Some (e_sector (entries (base S) dd ! j))"
proof -
  let ?es = "entries (base S) dd"
  have "entries_ok ?es" using assms(1) by (simp add: dir_at_def dir_ok_def)
  note f = find_matches [OF this, of name, unfolded length_entries]
  obtain s' where s': "dlookup n u d name S = Inr (map_option (\<lambda>j. (?es ! j, 20 * int j))
      (find (matches ?es name) [0..<nat (d_length dd) div 20]), S\<lparr>base := s'\<rparr>)" "same_files (base S) s'" "sect s' = sect (base S)"
    using dlookup_ok [OF assms, of u] by blast
  show thesis
  proof (cases "find (matches ?es name) [0..<nat (d_length dd) div 20]")
    case None
    then show thesis using none [of s'] s' f by simp
  next
    case (Some j)
    then show thesis using found [of j s'] s' f by (simp)
  qed
qed

lemma dir_lookup_ok:
  assumes "dir_at S d p dd" "0 \<notin> set name" "nat (d_length dd) div 20 < n"
  shows "\<exists>q S'. dir_lookup n u d name S = Inr (q, S') \<and> opens (base S) (base S') \<and> sect (base S') = sect (base S) \<and>
    dirs S' = dirs S \<and>
    (case dcont S dd name of None \<Rightarrow> q = 0 | Some x \<Rightarrow> q \<noteq> 0 \<and> (\<exists>i. inodes (base S') q = Some i \<and> i_sector i = x))"
proof -
  have d: "d \<noteq> 0" using assms(1) by (simp add: dir_at_def)
  show ?thesis
  proof (rule dlookup_cases [OF assms, of u])
    fix s' assume "dlookup n u d name S = Inr (None, S\<lparr>base := s'\<rparr>)" "same_files (base S) s'" "sect s' = sect (base S)"
      "dcont S dd name = None"
    then show ?thesis using d by (auto simp: dir_lookup_def intro: same_files_opens)
  next
    fix j s' assume l: "dlookup n u d name S = Inr (Some (entries (base S) dd ! j, 20 * int j), S\<lparr>base := s'\<rparr>)"
      "same_files (base S) s'" "sect s' = sect (base S)" "j < nat (d_length dd) div 20" "matches (entries (base S) dd) name j"
      "dcont S dd name = Some (e_sector (entries (base S) dd ! j))"
    let ?x = "e_sector (entries (base S) dd ! j)"
    have "entries (base S) dd ! j \<in> set (entries (base S) dd)" using l(4) by (metis nth_mem length_entries)
    then have x: "?x < sector_cap (base S)" using assms(1) l(5) by (auto simp: dir_at_def dir_ok_def matches_def)
    have "open_ok s'" using l(2) assms(1) same_files_opens [OF l(2)] by (simp add: opens_def dir_at_def dir_ok_def)
    moreover have "fs_ok s'" "0 \<notin> sset (mallocs s')" "?x < sector_cap s'"
      using l(2) x assms(1) by (auto simp: same_files_def dir_at_def dir_ok_def)
    ultimately obtain q s2 i where "inode_open ?x s' = Inr (q, s2)" "q \<noteq> 0" "opens s' s2" "sect s2 = sect s'"
      "inodes s2 q = Some i" "i_sector i = ?x"
      using inode_open_ok [of s' ?x] by blast
    then show ?thesis
      using l d opens_trans [OF same_files_opens [OF l(2)]] by (auto simp: dir_lookup_def on_fs_def)
  qed
qed

section \<open>Adding and listing entries\<close>

lemma dir_open_ok:
  assumes "fs_ok (base S)" "0 \<notin> sset (mallocs (base S))" "p \<noteq> 0"
  shows "\<exists>d s'. dir_open n p S = Inr (d, set_dirp d \<lparr>d_empty = False, dir_inode = p, dir_pos = 0, dir_name = []\<rparr> (S\<lparr>base := s'\<rparr>)) \<and>
    d \<in> sset (mallocs (base S)) \<and> d \<noteq> 0 \<and> same_files (base S) s' \<and> sect s' = sect (base S) \<and>
    d = shd (mallocs (base S)) \<and> mallocs s' = stl (mallocs (base S))"
proof -
  obtain d s' where a: "fs_malloc (base S) = (d, s')" by fastforce
  note m = fs_malloc_same [OF assms(1) a]
  then have "d \<noteq> 0" using assms(2) by metis
  then show ?thesis using a m assms(3) by (auto simp: dir_open_def fs_malloc_def)
qed

lemma dir_add_ok:
  assumes dir: "dir_at S d p dd" and u: "harmless u" and name: "valid_name name" and n: "nat (d_length dd) div 20 < n" "20 < n"
    and sector: "sector < sector_cap (base S)" and new: "dcont S dd name = None"
    and j: "find (\<lambda>j. \<not> e_in_use (entries (base S) dd ! j)) [0..<nat (d_length dd) div 20] = Some j"
  shows "\<exists>S'. dir_add n u d name sector S = Inr (True, S') \<and> dir_at S' d p dd \<and> opens (base S) (base S') \<and>
    (\<forall>x. x \<notin> data_sectors dd \<longrightarrow> sect (base S') x = sect (base S) x) \<and>
    dcont S' dd = (dcont S dd)(name \<mapsto> sector) \<and> (\<exists>e. e_in_use e \<and> entries (base S') dd = (entries (base S) dd)[j := e])"
proof -
  let ?es = "entries (base S) dd"
  have nm: "name \<noteq> []" "length name \<le> 14" "0 \<notin> set name" using name by (simp_all add: valid_name_def)
  obtain x i where x: "dirs S d = Some x" "dir_inode x = p" "d \<noteq> 0" "d \<notin> sset (mallocs (base S))" "small_file (base S) p i"
    "i_data i = dd" "deny_write_cnt i = 0" "fs_ok (base S)" "0 \<notin> sset (mallocs (base S))" "p \<notin> sset (mallocs (base S))" "entries_ok ?es"
    using dir by (auto simp: dir_at_def dir_ok_def)
  obtain s1 where s1: "dlookup n u d name S = Inr (None, S\<lparr>base := s1\<rparr>)" "same_files (base S) s1" "sect s1 = sect (base S)"
    using dlookup_cases [OF dir nm(3) n(1), of u] new by force
  have q1: "fs_ok s1" "0 \<notin> sset (mallocs s1)" "small_file s1 p i" "entries s1 (i_data i) = ?es"
    using s1 x small_file_same [OF x(5) s1(2)] entries_same [OF s1(3)] by (auto simp: same_files_def)
  obtain s2 where s2: "slot_loop n p 0 (u_entry u) s1 = Inr ((20 * int j, ?es ! j), s2)" "same_files s1 s2" "sect s2 = sect s1"
    using slot_loop_ok [OF q1(1,3,2), of 0 n "u_entry u", unfolded q1(4)] j x(6) n(1) by (auto)
  have q2: "fs_ok s2" "0 \<notin> sset (mallocs s2)" "small_file s2 p i" "entries s2 (i_data i) = ?es"
    using s2 q1 small_file_same [OF q1(3) s2(2)] entries_same [OF s2(3)] by (auto simp: same_files_def)
  have j': "j < nat (d_length dd) div 20" "\<not> e_in_use (?es ! j)" using j by (simp_all add: find_upt_Some)
  then have "?es ! j \<in> set ?es" by (metis nth_mem length_entries)
  then have l15: "length (e_name (?es ! j)) = 15" using x(11) by (simp add: entries_ok_def)
  define e where "e = (?es ! j)\<lparr>e_in_use := True, e_name := copy_name name (e_name (?es ! j)), e_sector := sector\<rparr>"
  have e: "e_in_use e" "e_sector e = sector" "length (e_name e) = 15" "0 \<in> set (e_name e)" "ename e = name"
    using copy_name_ok [OF nm(2) l15 nm(3)] by (simp_all add: e_def ename_def)
  obtain s3 where s3: "write_entry n p e (20 * int j) s2 = Inr (20, s3)" "same_files s2 s3" "entries s3 dd = ?es[j := e]"
    "\<forall>y. y \<notin> data_sectors dd \<longrightarrow> sect s3 y = sect s2 y"
    using write_entry_ok [OF q2(1,3,2) x(7) _ e(3) n(2), of j] j'(1) x(6) q2(4) by auto
  let ?S3 = "S\<lparr>base := s3\<rparr>"
  have ins: "entries_ok (?es[j := e])" "dmap (?es[j := e]) = (dmap ?es)(name \<mapsto> sector)"
    using insert_entry [OF x(11) _ j'(2) e(1,3,4), unfolded e(2,5)] j'(1) new by simp_all
  have o3: "opens (base S) s3" using same_files_opens same_files_trans s1(2) s2(2) s3(2) by blast
  have "\<forall>e'\<in>set (entries s3 dd). e_in_use e' \<longrightarrow> e_sector e' < sector_cap (base S)"
    using dir sector e(2) s3(3) set_update_subset_insert [of ?es j e] by (auto simp: dir_at_def dir_ok_def)
  then have "dir_ok s3 p dd" using dir_ok_opens [OF _ o3] dir ins(1) s3(3) by (simp add: dir_at_def)
  then have at3: "dir_at ?S3 d p dd" using x(1-4) o3 by (auto simp: dir_at_def opens_def)
  obtain q S4 where S4: "dir_lookup n u d name ?S3 = Inr (q, S4)" "opens s3 (base S4)" "sect (base S4) = sect s3" "dirs S4 = dirs S"
    using dir_lookup_ok [OF at3 nm(3) n(1), of u] by auto
  have q4: "fs_ok (base S4)" "0 \<notin> sset (mallocs (base S4))" "d \<notin> sset (mallocs (base S4))"
    using S4(2) at3 by (auto simp: opens_def dir_at_def dir_ok_def)
  obtain d' s5 where s5: "dir_open n (u_ptr u) S4 =
      Inr (d', set_dirp d' \<lparr>d_empty = False, dir_inode = u_ptr u, dir_pos = 0, dir_name = []\<rparr> (S4\<lparr>base := s5\<rparr>))"
    "d' \<in> sset (mallocs (base S4))" "same_files (base S4) s5" "sect s5 = sect (base S4)"
    using dir_open_ok [OF q4(1,2), of "u_ptr u" n] u by (auto simp: harmless_def)
  define S' where "S' = set_dirp d' \<lparr>d_empty = False, dir_inode = u_ptr u, dir_pos = 0, dir_name = name\<rparr> (S4\<lparr>base := s5\<rparr>)"
  have "dir_add n u d name sector S = Inr (True, S')"
    using s1(1) s2(1) s3(1) S4(1) s5(1) x(1-3) nm(1,2) u
    by (simp add: dir_add_def NAME_MAX_def get_dirp_def on_fs_def e_def harmless_def set_dirp_def S'_def)
  moreover have "d \<noteq> d'" using s5(2) q4(3) by metis
  moreover have "opens s3 s5" using opens_trans [OF S4(2) same_files_opens [OF s5(3)]] .
  moreover from calculation(2,3) have "dir_at S' d p dd" "entries (base S') dd = ?es[j := e]"
    using dir_at_opens(1) [OF at3, of s5 S'] entries_same [of s5 s3 dd] S4(3,4) s5(4) s3(3)
    by (auto simp: S'_def set_dirp_def)
  moreover have "\<forall>y. y \<notin> data_sectors dd \<longrightarrow> sect (base S') y = sect (base S) y"
    using s1(3) s2(3) s3(4) S4(3) s5(4) by (simp add: S'_def set_dirp_def)
  ultimately show ?thesis
    using e(1) ins(2) opens_trans [OF o3] by (auto simp: S'_def set_dirp_def)
qed

text \<open>A directory without a free entry: \<open>dir_add\<close> writes past the end of the file.\<close>

lemma dir_add_full_stuck:
  assumes dir: "dir_at S d p dd" and name: "valid_name name" and n: "nat (d_length dd) div 20 < n"
    and new: "dcont S dd name = None" and full: "\<forall>e\<in>set (entries (base S) dd). e_in_use e"
  shows "\<nexists>r. dir_add n u d name sector S = Inr r"
proof -
  let ?es = "entries (base S) dd" and ?c = "nat (d_length dd) div 20"
  have nm: "name \<noteq> []" "length name \<le> 14" "0 \<notin> set name" using name by (simp_all add: valid_name_def)
  obtain x i where x: "dirs S d = Some x" "dir_inode x = p" "d \<noteq> 0" "small_file (base S) p i"
    "i_data i = dd" "deny_write_cnt i = 0" "fs_ok (base S)" "0 \<notin> sset (mallocs (base S))"
    using dir by (auto simp: dir_at_def dir_ok_def)
  obtain s1 where s1: "dlookup n u d name S = Inr (None, S\<lparr>base := s1\<rparr>)" "same_files (base S) s1" "sect s1 = sect (base S)"
    using dlookup_cases [OF dir nm(3) n, of u] new by force
  have q1: "fs_ok s1" "0 \<notin> sset (mallocs s1)" "small_file s1 p i" "entries s1 (i_data i) = ?es"
    using s1 x small_file_same [OF x(4) s1(2)] entries_same [OF s1(3)] by (auto simp: same_files_def)
  have "e_in_use (?es ! j)" if "j < ?c" for j using full that by (metis nth_mem length_entries)
  then have "find (\<lambda>j. \<not> e_in_use (?es ! j)) [0..<?c] = None" by (simp add: find_None_iff)
  then obtain e s2 where s2: "slot_loop n p 0 (u_entry u) s1 = Inr ((20 * int ?c, e), s2)" "same_files s1 s2"
    using slot_loop_ok [OF q1(1,3,2), of 0 n "u_entry u", unfolded q1(4)] x(5) n by auto
  have i: "inodes s2 p = Some i" "0 \<notin> sset (mallocs s2)" "0 \<le> d_length dd"
    using s2(2) q1(2,3) x(5) by (auto simp: same_files_def small_file_def)
  then have "d_length (i_data i) < 20 * int ?c + 20" by (simp add: x(5) zdiv_int)
  then have "\<nexists>r. write_entry n p (e\<lparr>e_in_use := True, e_name := copy_name name (e_name e), e_sector := sector\<rparr>) (20 * int ?c) s2 = Inr r"
    using write_at_past [OF i(1) x(6) i(2), of "20 * int ?c" 20] by (simp add: write_entry_def)
  then obtain err where "write_entry n p (e\<lparr>e_in_use := True, e_name := copy_name name (e_name e), e_sector := sector\<rparr>)
      (20 * int ?c) s2 = Inl err" by (metis sum.exhaust)
  then have "dir_add n u d name sector S = Inl err"
    using s1(1) s2(1) x(1-3) nm(1,2) by (simp add: dir_add_def NAME_MAX_def get_dirp_def on_fs_def)
  then show ?thesis by simp
qed

lemma c_string_entry:
  assumes "length (e_name e) = 15" "0 \<in> set (e_name e)"
  shows "c_string (name_bytes e) = Inr (ename e)" "take NAME_MAX (ename e) = ename e"
proof -
  have t: "takeWhile (\<lambda>b. b \<noteq> 0) (e_name e @ ys) = ename e" for ys
    using assms(2) by (induction "e_name e" arbitrary: ys) (auto simp: ename_def takeWhile_append1)
  then show "c_string (name_bytes e) = Inr (ename e)" using assms(2) by (simp add: c_string_def name_bytes_def)
  have "length (takeWhile (\<lambda>b. b \<noteq> 0) xs) < length xs" if "0 \<in> set xs" for xs :: "u8 list"
    using that by (induction xs) auto
  then have "length (ename e) < length (e_name e)" using assms(2) by (simp add: ename_def)
  then have "length (ename e) < 15" using assms(1) by simp
  then show "take NAME_MAX (ename e) = ename e" by (simp add: NAME_MAX_def)
qed

text \<open>\<open>dir_readdir\<close> from position \<open>20 * k\<close> on.\<close>

lemma readdir_ok:
  "dir_at S d p dd \<Longrightarrow> dirs S d = Some x \<Longrightarrow> dir_pos x = 20 * int k \<Longrightarrow> k \<le> nat (d_length dd) div 20 \<Longrightarrow>
   nat (d_length dd) div 20 - k < n \<Longrightarrow>
   \<exists>S'. dir_at S' d p dd \<and> sect (base S') = sect (base S) \<and> opens (base S) (base S') \<and>
     (case find (\<lambda>j. e_in_use (entries (base S) dd ! j)) [k..<nat (d_length dd) div 20] of
        None \<Rightarrow> dir_readdir n u d S = Inr (None, S')
      | Some j \<Rightarrow> dir_readdir n u d S = Inr (Some (ename (entries (base S) dd ! j)), S') \<and>
          (\<exists>x'. dirs S' d = Some x' \<and> dir_pos x' = 20 * int (Suc j)))"
  unfolding dir_readdir_def
proof (induction n arbitrary: S x k u)
  case (Suc n)
  let ?es = "entries (base S) dd" and ?c = "nat (d_length dd) div 20"
  obtain i where i: "dir_inode x = p" "small_file (base S) p i" "i_data i = dd" "fs_ok (base S)" "0 \<notin> sset (mallocs (base S))"
    "entries_ok ?es"
    using Suc.prems(1,2) by (auto simp: dir_at_def dir_ok_def)
  show ?case
  proof (cases "k < ?c")
    case True
    obtain s1 where s1: "read_entry p (20 * int k) (u_entry u) (base S) = Inr (20, ?es ! k, s1)" "same_files (base S) s1"
      "sect s1 = sect (base S)"
      using read_entry_ok [OF i(4,2,5), of k "u_entry u"] True i(3) by auto
    define S1 where "S1 = set_dirp d (x\<lparr>dir_pos := 20 * int (Suc k)\<rparr>) (S\<lparr>base := s1\<rparr>)"
    have o: "opens (base S) s1" by (rule same_files_opens [OF s1(2)])
    have es1: "entries (base S1) dd = ?es" using entries_same [OF s1(3)] by (simp add: S1_def set_dirp_def)
    have "dir_at (S\<lparr>base := s1\<rparr>) d p dd" using dir_at_opens(1) [OF Suc.prems(1) o s1(3)] by simp
    then have at1: "dir_at S1 d p dd" using i(1) by (simp add: dir_at_def S1_def set_dirp_def)
    have "?es ! k \<in> set ?es" using True by (metis nth_mem length_entries)
    then have e: "length (e_name (?es ! k)) = 15" "e_in_use (?es ! k) \<Longrightarrow> 0 \<in> set (e_name (?es ! k))"
      using i(6) by (simp_all add: entries_ok_def)
    show ?thesis
    proof (cases "e_in_use (?es ! k)")
      case used: True
      have "readdir_loop (Suc n) u d S = Inr (Some (ename (?es ! k)), S1)"
        using s1(1) Suc.prems(2,3) i(1) used c_string_entry [OF e(1) e(2) [OF used]]
        by (simp add: get_dirp_def S1_def add.commute [of "20 * int k" 20])
      moreover have "find (\<lambda>j. e_in_use (?es ! j)) [k..<?c] = Some k" using used True by (simp add: find_upt_step)
      ultimately show ?thesis using at1 s1(3) o by (auto simp: S1_def set_dirp_def intro!: exI [of _ S1])
    next
      case False
      have "Suc k \<le> ?c" "?c - Suc k < n" using True Suc.prems by linarith+
      from Suc.IH [OF at1 _ _ this, of "x\<lparr>dir_pos := 20 * int (Suc k)\<rparr>" "u\<lparr>u_entry := ?es ! k\<rparr>", unfolded es1]
      obtain S' where S': "dir_at S' d p dd" "sect (base S') = sect (base S1)" "opens (base S1) (base S')"
        "case find (\<lambda>j. e_in_use (?es ! j)) [Suc k..<?c] of
           None \<Rightarrow> readdir_loop n (u\<lparr>u_entry := ?es ! k\<rparr>) d S1 = Inr (None, S')
         | Some j \<Rightarrow> readdir_loop n (u\<lparr>u_entry := ?es ! k\<rparr>) d S1 = Inr (Some (ename (?es ! j)), S') \<and>
             (\<exists>x'. dirs S' d = Some x' \<and> dir_pos x' = 20 * int (Suc j))"
        by (auto simp: S1_def set_dirp_def)
      have "readdir_loop (Suc n) u d S = readdir_loop n (u\<lparr>u_entry := ?es ! k\<rparr>) d S1"
        using s1(1) Suc.prems(2,3) i(1) False by (simp add: get_dirp_def S1_def add.commute [of "20 * int k" 20])
      moreover have "find (\<lambda>j. e_in_use (?es ! j)) [k..<?c] = find (\<lambda>j. e_in_use (?es ! j)) [Suc k..<?c]"
        using False True by (simp add: find_upt_step)
      moreover have "opens (base S) (base S')" "sect (base S') = sect (base S)"
        using opens_trans [OF o] S'(2,3) s1(3) by (simp_all add: S1_def set_dirp_def)
      ultimately show ?thesis using S'(1,4) by (intro exI [of _ S']) (simp del: readdir_loop.simps cong: option.case_cong)
    qed
  next
    case False
    then have k: "k = ?c" using Suc.prems(4) by simp
    obtain e s1 where s1: "read_entry p (20 * int k) (u_entry u) (base S) = Inr (0, e, s1)" "same_files (base S) s1"
      "sect s1 = sect (base S)"
      using read_entry_end [OF i(4,2,5), of k "u_entry u"] k i(3) by auto
    have o: "opens (base S) s1" by (rule same_files_opens [OF s1(2)])
    have "readdir_loop (Suc n) u d S = Inr (None, S\<lparr>base := s1\<rparr>)" using s1(1) Suc.prems(2,3) i(1) by (simp add: get_dirp_def)
    moreover have "dir_at (S\<lparr>base := s1\<rparr>) d p dd" using dir_at_opens(1) [OF Suc.prems(1) o s1(3)] by simp
    ultimately show ?thesis using k o s1(3) by (intro exI [of _ "S\<lparr>base := s1\<rparr>"]) (simp del: readdir_loop.simps)
  qed
qed simp

end
