(* ===== verification/Dir_Create.thy ===== *)
theory Dir_Create
  imports Dir_Ops
begin

text \<open>
  Making a directory, \<open>dir_create\<close> of \<open>src/filesys/directory.c\<close>, removing a name, \<open>dir_remove\<close>, and \<open>filesys_remove\<close> of
  \<open>src/filesys/filesys.c\<close>.  \<open>malloc\<close> is assumed not to fail and not to return an address twice.
\<close>

section \<open>Creation\<close>

lemma later_inj: "later a b \<Longrightarrow> inj (snth a) \<Longrightarrow> inj (snth b)"
  by (auto simp: later_def sdrop_snth intro!: injI) (metis injD add_left_cancel)

lemma shd_fresh: "inj (snth a) \<Longrightarrow> shd a \<notin> sset (stl a)"
proof
  assume a: "inj (snth a)" "shd a \<in> sset (stl a)"
  then obtain k where "snth a 0 = snth a (Suc k)" by (auto simp: sset_range)
  then show False using a(1) by (metis injD nat.distinct(1))
qed

definition blank :: dir_entry where
  "blank = \<lparr>e_sector = 0, e_name = replicate 15 0, e_in_use = False\<rparr>"

lemma entry_of_zeros: "entry_of (replicate 20 0) = blank"
  by (simp add: entry_of_def blank_def numeral_eq_Suc word_of_le_def)

lemma blank_entries:
  assumes "\<forall>k < nat (d_length dd). file_byte s dd k = 0"
  shows "entries s dd = replicate (nat (d_length dd) div 20) blank"
proof (rule nth_equalityI)
  fix k assume "k < length (entries s dd)"
  then have k: "k < nat (d_length dd) div 20" by simp
  then have "file_bytes s dd (20 * k) 20 = replicate 20 0" using assms by (intro nth_equalityI) (auto simp: file_bytes_def)
  then show "entries s dd ! k = replicate (nat (d_length dd) div 20) blank ! k"
    using k by (simp add: nth_entries entry_at_def entry_of_zeros)
qed simp

text \<open>A new directory, before its two entries are made.\<close>

lemma new_dir:
  assumes s: "fs_ok (base S)" "free_map_ok (base S) fi" "0 \<notin> sset (mallocs (base S))" "inj (snth (mallocs (base S)))"
      "open_ok (base S)" "unat (byte_cnt (sector_cap (base S))) < n"
    and sec: "sector < sector_cap (base S)" "unat sector \<in> used (base S)" "sector \<notin> own_sectors fi"
      "\<forall>p\<in>set (open_inodes (base S)). \<exists>i. inodes (base S) p = Some i \<and> i_sector i \<noteq> sector"
    and len: "0 \<le> len" "len < 123 * 512" "bytes_to_sectors len \<le> card (free_sectors (base S))"
  shows "\<exists>S1 p S2 d S3 i. on_fs (inode_create (Suc n) sector len) S = Inr (True, S1) \<and> on_fs (inode_open sector) S1 = Inr (p, S2) \<and>
    dir_open (Suc n) p S2 = Inr (d, S3) \<and> dirs S3 d = Some \<lparr>d_empty = False, dir_inode = p, dir_pos = 0, dir_name = []\<rparr> \<and>
    inodes (base S3) p = Some i \<and>
    (let S4 = S3\<lparr>base := set_inode p (i\<lparr>is_dir := - 1\<rparr>) (base S3)\<rparr>
     in dir_at S4 d p (i_data i) \<and> d_length (i_data i) = len \<and> sector_cap (base S4) = sector_cap (base S) \<and>
        entries (base S4) (i_data i) = replicate (nat len div 20) blank)"
proof -
  let ?s = "base S"
  have k: "bytes_to_sectors len \<le> 123" using len(1,2) zdiv_mono1 [of "len + 511" "123 * 512 + 511" 512] by (simp add: bytes_to_sectors_def)
  obtain ok s1 where c: "inode_create (Suc n) sector len ?s = Inr (ok, s1)" "same_files (?s\<lparr>free_map := free_map s1\<rparr>) s1" "ok"
    using inode_create_ok [OF s(1-3,6) sec(1-3) len(1) k] len(3) by force
  obtain p s2 i where o2: "inode_open sector s1 = Inr (p, s2)" "small_file s2 p i" "d_length (i_data i) = len"
    "\<forall>k < nat len. file_byte s2 (i_data i) k = 0"
    using create_open_ok [OF s(1-3,6) sec(1-3) len(1,2) sec(4)] c(1,3) by force
  have s1: "fs_ok s1" "0 \<notin> sset (mallocs s1)" "open_ok s1" "sector < sector_cap s1" "sector_cap s1 = sector_cap ?s"
    "later (mallocs ?s) (mallocs s1)" "\<forall>p\<in>set (open_inodes s1). \<exists>i. inodes s1 p = Some i \<and> i_sector i \<noteq> sector"
    using c(2) s(3,5) sec(1,4) by (auto simp: same_files_def open_ok_def)
  have inj: "inj (snth (mallocs s1))" by (rule later_inj [OF s1(6) s(4)])
  obtain i' where "opens s1 s2" "p \<noteq> 0" "inodes s2 p = Some i'" "p = shd (mallocs s1)" "mallocs s2 = stl (mallocs s1)"
    "i' = \<lparr>i_sector = sector, open_cnt = 1, removed = False, deny_write_cnt = 0, i_data = disk_of_bytes (sect s1 sector), is_dir = 0\<rparr>"
    using inode_open_ok [OF s1(1-4)] s1(7) o2(1) by auto
  then have o3: "opens s1 s2" "p \<noteq> 0" "p = shd (mallocs s1)" "mallocs s2 = stl (mallocs s1)" "deny_write_cnt i = 0" "inodes s2 p = Some i"
    using o2(2) by (auto simp: small_file_def)
  let ?S2 = "S\<lparr>base := s2\<rparr>"
  have q2: "fs_ok (base ?S2)" "0 \<notin> sset (mallocs (base ?S2))" using o3(1) s1(2) by (auto simp: opens_def)
  obtain d s3 where d: "dir_open (Suc n) p ?S2 =
      Inr (d, set_dirp d \<lparr>d_empty = False, dir_inode = p, dir_pos = 0, dir_name = []\<rparr> (?S2\<lparr>base := s3\<rparr>))" "d \<noteq> 0"
    "same_files s2 s3" "sect s3 = sect s2" "d = shd (mallocs s2)" "mallocs s3 = stl (mallocs s2)"
    using dir_open_ok [OF q2 o3(2), of "Suc n"] by auto
  define s4 where "s4 = set_inode p (i\<lparr>is_dir := - 1\<rparr>) s3"
  have fresh: "p \<notin> sset (mallocs s3)" "d \<notin> sset (mallocs s3)"
    using shd_fresh [OF inj] shd_fresh [OF later_inj [OF later_stl inj]] stl_sset [of _ "mallocs s2"] o3(3,4) d(5,6) by auto
  have "small_file s3 p i" by (rule small_file_same [OF o2(2) d(3)])
  then have f4: "small_file s4 p (i\<lparr>is_dir := - 1\<rparr>)" by (simp add: s4_def small_file_def)
  have es: "entries s4 (i_data i) = replicate (nat len div 20) blank"
    using blank_entries [of "i_data i" s4] o2(3,4) d(4) by (simp add: s4_def file_byte_def)
  have b: "open_ok s3" "fs_ok s3" "0 \<notin> sset (mallocs s3)" using d(3) o3(1) s1(2,3) by (auto simp: same_files_def opens_def open_ok_def)
  have "dir_ok s4 p (i_data i)"
    using f4 es o3(5) b fresh(1) by (auto simp: dir_ok_def s4_def open_ok_def entries_ok_def blank_def)
  moreover have "inodes s3 p = Some i" "sector_cap s4 = sector_cap ?s"
    using d(3) o3(1,6) s1(5) by (simp_all add: same_files_def opens_def s4_def)
  ultimately show ?thesis
    using c(1,3) o2(1,3) d(1,2) es fresh(2) by (auto simp: on_fs_def dir_at_def set_dirp_def s4_def)
qed

lemma dmap_blank: "dmap (replicate k blank) = Map.empty"
  by (simp add: dmap_def blank_def filter_empty_conv)

lemma valid_dots: "valid_name DOT" "valid_name DOTDOT" "DOT \<noteq> DOTDOT"
  by (simp_all add: valid_name_def DOT_def DOTDOT_def)

lemma dir_create_ok:
  assumes s: "fs_ok (base S)" "free_map_ok (base S) fi" "0 \<notin> sset (mallocs (base S))" "inj (snth (mallocs (base S)))"
      "open_ok (base S)" "unat (byte_cnt (sector_cap (base S))) < n"
    and sec: "sector < sector_cap (base S)" "unat sector \<in> used (base S)" "sector \<notin> own_sectors fi"
      "\<forall>p\<in>set (open_inodes (base S)). \<exists>i. inodes (base S) p = Some i \<and> i_sector i \<noteq> sector"
    and u: "harmless u" and cnt: "2 \<le> unat cnt" "unat cnt * 20 < 123 * 512" "unat cnt \<le> n" "20 \<le> n"
      "bytes_to_sectors (int (unat cnt * 20)) \<le> card (free_sectors (base S))"
  shows "\<exists>S' d p dd. dir_create (Suc n) u sector cnt S = Inr (True, S') \<and> dir_at S' d p dd \<and> d_length dd = int (unat cnt * 20) \<and>
    dcont S' dd = [DOT \<mapsto> sector, DOTDOT \<mapsto> sector] \<and> length (filter e_in_use (entries (base S') dd)) = 2"
proof -
  have "unat (cnt * 20) = unat cnt * 20" using cnt(2) unat_mult_lem [of cnt 20] by simp
  then have "uint (cnt * 20) = int (unat cnt * 20)" by (metis int_nat_eq uint_nat)
  moreover have "int k < 2 ^ 31" if "k < 123 * 512" for k using that by simp
  then have "int (unat cnt * 20) < 2 ^ 31" using cnt(2) by blast
  ultimately have len: "sint (cnt * 20) = int (unat cnt * 20)" using sint_small [of "cnt * 20"] by metis
  have lb: "0 \<le> int (unat cnt * 20)" "int (unat cnt * 20) < 123 * 512"
    using cnt(2) of_nat_less_iff [of "unat cnt * 20" "123 * 512", where ?'a = int] by (simp_all del: of_nat_less_iff)
  obtain S1 p S2 d S3 i where c: "on_fs (inode_create (Suc n) sector (int (unat cnt * 20))) S = Inr (True, S1)"
    "on_fs (inode_open sector) S1 = Inr (p, S2)" "dir_open (Suc n) p S2 = Inr (d, S3)"
    "dirs S3 d = Some \<lparr>d_empty = False, dir_inode = p, dir_pos = 0, dir_name = []\<rparr>" "inodes (base S3) p = Some i"
    "let S4 = S3\<lparr>base := set_inode p (i\<lparr>is_dir := - 1\<rparr>) (base S3)\<rparr>
     in dir_at S4 d p (i_data i) \<and> d_length (i_data i) = int (unat cnt * 20) \<and> sector_cap (base S4) = sector_cap (base S) \<and>
        entries (base S4) (i_data i) = replicate (nat (int (unat cnt * 20)) div 20) blank"
    using new_dir [OF s sec lb cnt(5)] by blast
  define S4 where "S4 = S3\<lparr>base := set_inode p (i\<lparr>is_dir := - 1\<rparr>) (base S3)\<rparr>"
  let ?dd = "i_data i"
  have at4: "dir_at S4 d p ?dd" "d_length ?dd = int (unat cnt * 20)" "sector_cap (base S4) = sector_cap (base S)"
    "entries (base S4) ?dd = replicate (unat cnt) blank"
    using c(6) by (simp_all add: Let_def S4_def nat_mult_distrib)
  have k: "nat (d_length ?dd) div 20 = unat cnt" by (simp add: at4(2) nat_mult_distrib)
  have n: "nat (d_length ?dd) div 20 < Suc n" "20 < Suc n" using cnt(3,4) k by simp_all
  have "\<not> e_in_use blank" by (simp add: blank_def)
  then have f4: "find (\<lambda>j. \<not> e_in_use (entries (base S4) ?dd ! j)) [0..<nat (d_length ?dd) div 20] = Some 0"
    using cnt(1) unfolding k at4(4) by (simp add: find_upt_Some)
  obtain S5 e1 where S5: "dir_add (Suc n) u d DOT sector S4 = Inr (True, S5)" "dir_at S5 d p ?dd" "opens (base S4) (base S5)"
    "dcont S5 ?dd = [DOT \<mapsto> sector]" "e_in_use e1" "entries (base S5) ?dd = (replicate (unat cnt) blank)[0 := e1]"
    using dir_add_ok [OF at4(1) u valid_dots(1) n _ _ f4, of sector] sec(1) at4(3,4) by (auto simp: dmap_blank)
  have f5: "find (\<lambda>j. \<not> e_in_use (entries (base S5) ?dd ! j)) [0..<nat (d_length ?dd) div 20] = Some 1"
    using cnt(1) S5(5) \<open>\<not> e_in_use blank\<close> unfolding k S5(6) by (simp add: find_upt_Some nth_list_update)
  have "sector < sector_cap (base S5)" using S5(3) sec(1) at4(3) by (simp add: opens_def)
  then obtain S6 e2 where S6: "dir_add (Suc n) u d DOTDOT sector S5 = Inr (True, S6)" "dir_at S6 d p ?dd"
    "dcont S6 ?dd = [DOT \<mapsto> sector, DOTDOT \<mapsto> sector]" "e_in_use e2" "entries (base S6) ?dd = (replicate (unat cnt) blank)[0 := e1, 1 := e2]"
    using dir_add_ok [OF S5(2) u valid_dots(2) n _ _ f5, of sector] S5(4,6) valid_dots(3) by auto
  have "dir_create (Suc n) u sector cnt S = Inr (True, S6)"
    using c(1-5) S5(1) S6(1) by (simp add: dir_create_def len get_dirp_def get_inode_def S4_def)
  moreover have "length (filter e_in_use (entries (base S6) ?dd)) = 2"
  proof -
    obtain m where "unat cnt = Suc (Suc m)" using cnt(1) by (metis Suc_le_D numeral_2_eq_2 Suc_le_mono)
    then show ?thesis using S5(5) S6(4) \<open>\<not> e_in_use blank\<close> by (simp add: S6(5) filter_empty_conv)
  qed
  ultimately show ?thesis using S6(2,3) at4(2) by blast
qed

section \<open>Removal\<close>

lemma bitmap_all_used:
  assumes "bitmap_wf b" "unat x + unat c \<le> unat (bit_cnt b)"
  shows "bitmap_all b x c = Inr ({unat x..<unat x + unat c} \<subseteq> used_bits b)"
proof -
  have "False \<in> set (take n (drop k xs)) \<longleftrightarrow> (\<exists>j. k \<le> j \<and> j < k + n \<and> \<not> xs ! j)" if "k + n \<le> length xs" for n k and xs :: "bool list"
  proof -
    have "False \<in> set (take n (drop k xs)) \<longleftrightarrow> (\<exists>j < n. \<not> xs ! (k + j))" using that by (auto simp: in_set_conv_nth)
    then show ?thesis by (metis add_less_cancel_left le_Suc_ex le_add1)
  qed
  then have "False \<in> set (brange (abits b) (unat x) (unat c)) \<longleftrightarrow> \<not> {unat x..<unat x + unat c} \<subseteq> used_bits b"
    using assms(2) by (auto simp: used_bits_def subset_eq brange_def)
  then show ?thesis using bitmap_contains_abits [OF assms, of False] by (simp add: bitmap_all_def)
qed

lemma free_map_release_ok:
  assumes s: "fs_ok s" "free_map_ok s fi" "0 \<notin> sset (mallocs s)" "unat (byte_cnt (sector_cap s)) < n"
    and x: "unat x + unat c \<le> unat (sector_cap s)" "{unat x..<unat x + unat c} \<subseteq> used s"
      "{unat x..<unat x + unat c} \<inter> unat ` own_sectors fi = {}"
  shows "\<exists>s'. free_map_release n x c s = Inr s' \<and> free_map_ok s' fi \<and> same_files (s\<lparr>free_map := free_map s'\<rparr>) s' \<and>
    used s' = used s - {unat x..<unat x + unat c} \<and> (\<forall>y. y \<notin> own_sectors fi \<longrightarrow> sect s' y = sect s y)"
proof -
  have wf: "bitmap_wf (free_map s)" "bit_cnt (free_map s) = sector_cap s" using s(2) by (simp_all add: free_map_ok_def)
  obtain b where b: "bitmap_set_multiple (free_map s) x c False = Inr b" "bitmap_wf b" "unat (bit_cnt b) = unat (bit_cnt (free_map s))"
    "used_bits b = used s - {unat x..<unat x + unat c}"
    using bm.release_ok [OF wf(1), of x c] x(1) wf(2) by (auto simp: bm_release_def)
  let ?s = "s\<lparr>free_map := b\<rparr>"
  have "small_file ?s p i = small_file s p i" for p i by (simp add: small_file_def)
  moreover have "unat ` own_sectors fi \<subseteq> used_bits b" using s(2) x(3) b(4) unfolding free_map_ok_def by blast
  moreover have "bit_cnt b = bit_cnt (free_map s)" using b(3) by (simp add: word_unat_eq_iff)
  ultimately have ok: "free_map_ok ?s fi" using s(2) b(2) unfolding free_map_ok_def by simp
  obtain s' where s': "write_free_map n (free_map_allocate n) ?s = Inr (True, s')" "same_files ?s s'" "wrote ?s s' fi 0 (map_bytes b)"
    using write_free_map_ok [of ?s fi n "free_map_allocate n"] s ok by auto
  have "free_map s' = b" using s'(2) by (simp add: same_files_def)
  moreover have "free_map_release n x c s = Inr s'"
    using bitmap_all_used [OF wf(1), of x c] x(1,2) wf(2) b(1) s'(1) by (simp add: free_map_release_def)
  ultimately show ?thesis using s'(2,3) b(4) free_map_ok_same [OF ok s'(2)] by (auto simp: wrote_def)
qed

text \<open>The last \<open>inode_close\<close> of a file that has been removed gives back the sector of its inode, not those of its data.\<close>

lemma close_removed:
  assumes s: "fs_ok s" "free_map_ok s fi" "0 \<notin> sset (mallocs s)" "unat (byte_cnt (sector_cap s)) < n"
    and q: "q \<noteq> 0" "inodes s q = Some i" "open_cnt i = 1" "d_start (i_data i) = 0"
      "\<forall>f. files s (free_map_file s) = Some f \<longrightarrow> f_inode f \<noteq> q"
    and x: "unat (i_sector i) \<in> used s" "i_sector i \<notin> own_sectors fi" "i_sector i < sector_cap s"
  shows "\<exists>s1 s'. inode_remove q s = Inr s1 \<and> inode_close n q s1 = Inr s' \<and> fs_ok s' \<and> inodes s' = (inodes s)(q := None) \<and>
    open_inodes s' = remove1 q (open_inodes s) \<and> files s' = files s \<and> sector_cap s' = sector_cap s \<and> fs_device s' = fs_device s \<and>
    later (mallocs s) (mallocs s') \<and> used s' = used s - {unat (i_sector i)} \<and> (\<forall>y. y \<notin> own_sectors fi \<longrightarrow> sect s' y = sect s y)"
proof -
  define i1 where "i1 = i\<lparr>removed := True, i_data := (i_data i)\<lparr>d_length := 0\<rparr>, open_cnt := 0\<rparr>"
  define s1 where "s1 = set_inode q (i\<lparr>removed := True, i_data := (i_data i)\<lparr>d_length := 0\<rparr>\<rparr>) s"
  define s2 where "s2 = (set_inode q i1 s)\<lparr>open_inodes := remove1 q (open_inodes s)\<rparr>"
  have r: "inode_remove q s = Inr s1" using q(1,2) by (simp add: inode_remove_def get_inode_def s1_def)
  have s12: "set_inode q i1 s1\<lparr>open_inodes := remove1 q (open_inodes s1)\<rparr> = s2"
    by (simp add: s1_def s2_def set_inode_def)
  have c: "inode_close n q s1 = ebind (ebind (free_map_release n (i_sector i) 1 s2) (free_map_release n 0 0))
      (\<lambda>s. Inr (s\<lparr>inodes := (inodes s)(q := None)\<rparr>))"
    using q(1,3,4) s12 by (simp add: inode_close_def get_inode_def s1_def i1_def Let_def bytes_to_sectors_def cong del: ebind_weak_cong)
  have k2: "fs_ok s2" "sector_cap s2 = sector_cap s" "sect s2 = sect s" "mallocs s2 = mallocs s" "free_map s2 = free_map s"
    "files s2 = files s" "free_map_file s2 = free_map_file s" "inodes s2 = (inodes s)(q \<mapsto> i1)" "fs_device s2 = fs_device s"
    using s(1) by (simp_all add: s2_def)
  have "free_map_ok s2 fi"
    using s(2) q(5) unfolding free_map_ok_def k2 small_file_def by auto
  note rel = free_map_release_ok [OF k2(1) this, unfolded k2(2,4,5), OF s(3,4)]
  have u: "unat (i_sector i) + unat (1 :: u32) \<le> unat (sector_cap s)" "{unat (i_sector i)..<unat (i_sector i) + unat (1 :: u32)} = {unat (i_sector i)}"
    using x(3) by (auto simp: word_less_nat_alt)
  have own: "unat (i_sector i) \<notin> unat ` own_sectors fi" using x(2) by (metis imageE word_unat_eq_iff)
  obtain s3 where s3: "free_map_release n (i_sector i) 1 s2 = Inr s3" "free_map_ok s3 fi" "same_files (s2\<lparr>free_map := free_map s3\<rparr>) s3"
    "used s3 = used s - {unat (i_sector i)}" "\<forall>y. y \<notin> own_sectors fi \<longrightarrow> sect s3 y = sect s y"
    using rel [of "i_sector i" 1, unfolded u(2), OF u(1)] x(1) own k2(3) by auto
  have k3: "fs_ok s3" "sector_cap s3 = sector_cap s" "later (mallocs s) (mallocs s3)" "0 \<notin> sset (mallocs s3)" "files s3 = files s"
    "inodes s3 = (inodes s)(q \<mapsto> i1)" "open_inodes s3 = remove1 q (open_inodes s)" "fs_device s3 = fs_device s"
    using s3(3) s(3) k2 by (auto simp: same_files_def s2_def)
  obtain s4 where s4: "free_map_release n 0 0 s3 = Inr s4" "same_files (s3\<lparr>free_map := free_map s4\<rparr>) s4" "used s4 = used s3"
    "\<forall>y. y \<notin> own_sectors fi \<longrightarrow> sect s4 y = sect s3 y"
    using free_map_release_ok [OF k3(1) s3(2) k3(4), of n 0 0] s(4) k3(2) by auto
  define s' where "s' = s4\<lparr>inodes := (inodes s4)(q := None)\<rparr>"
  have "inode_close n q s1 = Inr s'" by (simp add: c s3(1) s4(1) s'_def)
  moreover have "fs_ok s4" "inodes s4 = inodes s3" "open_inodes s4 = open_inodes s3" "files s4 = files s3" "sector_cap s4 = sector_cap s3"
    "later (mallocs s3) (mallocs s4)" "fs_device s4 = fs_device s3"
    using s4(2) by (simp_all add: same_files_def)
  ultimately show ?thesis
    using r k3 s3(4,5) s4(3,4) later_trans [of "mallocs s" "mallocs s3" "mallocs s4"]
    by (auto simp: s'_def fs_ok_def sector_cap_def sect_def)
qed

lemma free_map_ok_opens:
  assumes "free_map_ok s fi" "opens s s'" "\<forall>f. files s (free_map_file s) = Some f \<longrightarrow> f_inode f \<notin> sset (mallocs s)"
  shows "\<exists>fj. free_map_ok s' fj \<and> i_data fj = i_data fi"
proof -
  obtain f where f: "files s (free_map_file s) = Some f" "small_file s (f_inode f) fi" using assms(1) by (auto simp: free_map_ok_def)
  obtain j where "small_file s' (f_inode f) j" "same_inode fi j" using opens_small_file [OF assms(2) f(2)] assms(3) f(1) by auto
  then have "free_map_ok s' j \<and> i_data j = i_data fi"
    using assms(1,2) f(1) unfolding free_map_ok_def opens_def same_inode_def by auto
  then show ?thesis by blast
qed

text \<open>The first half of \<open>dir_remove\<close>: the entry is found, its inode opened, and the entry erased.\<close>

lemma erase_name:
  assumes dir: "dir_at S d p dd" and name: "0 \<notin> set name" "dcont S dd name = Some x"
    and n: "nat (d_length dd) div 20 < n" "20 < n"
    and opn: "\<forall>p\<in>set (open_inodes (base S)). \<exists>i. inodes (base S) p = Some i \<and> i_sector i \<noteq> x"
  shows "\<exists>e ofs s1 q s2 s3 i. dlookup n u d name S = Inr (Some (e, ofs), S\<lparr>base := s1\<rparr>) \<and> e_sector e = x \<and>
    inode_open x s1 = Inr (q, s2) \<and> write_entry n p (e\<lparr>e_in_use := False\<rparr>) ofs s2 = Inr (20, s3) \<and>
    opens (base S) s3 \<and> dir_ok s3 p dd \<and> dmap (entries s3 dd) = (dcont S dd)(name := None) \<and>
    (\<forall>z. z \<notin> data_sectors dd \<longrightarrow> sect s3 z = sect (base S) z) \<and> x < sector_cap (base S) \<and>
    q \<noteq> 0 \<and> q \<in> sset (mallocs (base S)) \<and> open_inodes s3 = q # open_inodes (base S) \<and> inodes s3 q = Some i \<and>
    open_cnt i = 1 \<and> i_sector i = x \<and> i_data i = disk_of_bytes (sect (base S) x)"
proof -
  let ?s = "base S" and ?es = "entries (base S) dd"
  have y: "dir_ok ?s p dd" using dir by (auto simp: dir_at_def)
  have ok: "fs_ok ?s" "0 \<notin> sset (mallocs ?s)" "p \<notin> sset (mallocs ?s)" "open_ok ?s" "entries_ok ?es" using y by (simp_all add: dir_ok_def)
  obtain j s1 where l: "dlookup n u d name S = Inr (Some (?es ! j, 20 * int j), S\<lparr>base := s1\<rparr>)" "same_files ?s s1" "sect s1 = sect ?s"
    "j < nat (d_length dd) div 20" "matches ?es name j" "x = e_sector (?es ! j)"
    using dlookup_cases [OF dir name(1) n(1), of u] name(2) by (metis option.distinct(1) option.inject)
  have e: "?es ! j \<in> set ?es" "e_in_use (?es ! j)" "ename (?es ! j) = name"
    using l(4,5) by (auto simp: matches_def intro: nth_mem)
  have xc: "x < sector_cap ?s" using y e(1,2) l(6) by (auto simp: dir_ok_def)
  have k1: "fs_ok s1" "0 \<notin> sset (mallocs s1)" "open_ok s1" "x < sector_cap s1"
    "\<forall>p\<in>set (open_inodes s1). \<exists>i. inodes s1 p = Some i \<and> i_sector i \<noteq> x"
    using l(2) ok xc opn by (auto simp: same_files_def open_ok_def)
  obtain q s2 i where o2: "inode_open x s1 = Inr (q, s2)" "q \<noteq> 0" "opens s1 s2" "sect s2 = sect s1" "inodes s2 q = Some i"
    "q = shd (mallocs s1)" "open_inodes s2 = q # open_inodes s1" "open_cnt i = 1" "i_sector i = x"
    "i_data i = disk_of_bytes (sect ?s x)"
    using inode_open_ok [OF k1(1-4)] k1(5) l(3) by auto
  have os2: "opens ?s s2" by (rule opens_trans [OF same_files_opens [OF l(2)] o2(3)])
  have es2: "entries s2 dd = ?es" using entries_same [of s2 ?s dd] o2(4) l(3) by simp
  obtain pi where pi: "small_file s2 p pi" "i_data pi = dd" "deny_write_cnt pi = 0"
    using dir_ok_opens [OF y os2] y es2 by (auto simp: dir_ok_def)
  have e15: "length (e_name (?es ! j)) = 15" using ok(5) e(1) by (simp add: entries_ok_def)
  have k2: "fs_ok s2" "0 \<notin> sset (mallocs s2)" using os2 ok(2) by (auto simp: opens_def)
  obtain s3 where s3: "write_entry n p ((?es ! j)\<lparr>e_in_use := False\<rparr>) (20 * int j) s2 = Inr (20, s3)" "same_files s2 s3"
    "entries s3 dd = ?es[j := (?es ! j)\<lparr>e_in_use := False\<rparr>]" "\<forall>z. z \<notin> data_sectors dd \<longrightarrow> sect s3 z = sect s2 z"
    using write_entry_ok [OF k2(1) pi(1) k2(2) pi(3) _ _ n(2), of j "(?es ! j)\<lparr>e_in_use := False\<rparr>"] l(4) pi(2) e15 es2 by auto
  have os3: "opens ?s s3" by (rule opens_trans [OF os2 same_files_opens [OF s3(2)]])
  have er: "entries_ok (entries s3 dd)" "dmap (entries s3 dd) = (dmap ?es)(name := None)"
    using erase_entry [OF ok(5) _ e(2), of "(?es ! j)\<lparr>e_in_use := False\<rparr>"] l(4) e(3) e15 s3(3) by simp_all
  have "e_in_use z \<Longrightarrow> e_sector z < sector_cap ?s" if "z \<in> set (entries s3 dd)" for z
    using that y set_update_subset_insert [of ?es j] unfolding s3(3) dir_ok_def by fastforce
  then have "dir_ok s3 p dd" using dir_ok_opens [OF y os3] er(1) by blast
  moreover have "open_inodes s3 = q # open_inodes ?s" "inodes s3 q = Some i" "q \<in> sset (mallocs ?s)"
    using s3(2) o2(5,6,7) l(2) shd_sset [of "mallocs s1"] by (auto simp: same_files_def)
  moreover have "\<forall>z. z \<notin> data_sectors dd \<longrightarrow> sect s3 z = sect ?s z" using s3(4) o2(4) l(3) by simp
  ultimately show ?thesis using l(1,6) o2 s3(1) os3 er(2) xc by blast
qed

lemma entries_kept:
  assumes "small_file s p i" "\<forall>z\<in>data_sectors (i_data i). sect s' z = sect s z"
  shows "entries s' (i_data i) = entries s (i_data i)"
proof -
  let ?dd = "i_data i"
  have "file_byte s' ?dd k = file_byte s ?dd k" if "k < nat (d_length ?dd)" for k
  proof -
    have "k div 512 < bytes_to_sectors (d_length ?dd)" using that by (simp add: bytes_to_sectors_def)
    then have "d_sectors ?dd ! (k div 512) \<in> data_sectors ?dd"
      using small_file_sectors [OF assms(1)] assms(1) by (auto simp: small_file_def in_set_conv_nth intro!: exI [of _ "k div 512"])
    then show ?thesis using assms(2) by (simp add: file_byte_def)
  qed
  then have "entry_at s' ?dd k = entry_at s ?dd k" if "k < nat (d_length ?dd) div 20" for k
    using that by (auto simp: entry_at_def file_bytes_def intro!: arg_cong [of _ _ entry_of])
  then show ?thesis by (simp add: entries_def)
qed

lemma dir_remove_ok:
  assumes dir: "dir_at S d p dd" and name: "0 \<notin> set name" "dcont S dd name = Some x"
    and n: "nat (d_length dd) div 20 < n" "20 < n" "unat (byte_cnt (sector_cap (base S))) < n"
    and fm: "free_map_ok (base S) fi" "\<forall>f. files (base S) (free_map_file (base S)) = Some f \<longrightarrow> f_inode f \<notin> sset (mallocs (base S))"
    and opn: "set (open_inodes (base S)) \<inter> sset (mallocs (base S)) = {}"
      "\<forall>p\<in>set (open_inodes (base S)). \<exists>i. inodes (base S) p = Some i \<and> i_sector i \<noteq> x"
    and x: "unat x \<in> used (base S)" "x \<notin> own_sectors fi" "d_start (disk_of_bytes (sect (base S) x)) = 0"
    and disj: "data_sectors dd \<inter> own_sectors fi = {}"
  shows "\<exists>S'. dir_remove n u d name S = Inr (True, S') \<and> dir_at S' d p dd \<and> dcont S' dd = (dcont S dd)(name := None) \<and>
    used (base S') = used (base S) - {unat x} \<and> (\<forall>y. y \<notin> data_sectors dd \<union> own_sectors fi \<longrightarrow> sect (base S') y = sect (base S) y)"
proof -
  let ?s = "base S"
  obtain y where y: "dirs S d = Some y" "dir_inode y = p" "d \<noteq> 0" "d \<notin> sset (mallocs ?s)" "dir_ok ?s p dd"
    using dir by (auto simp: dir_at_def)
  obtain e ofs s1 q s2 s3 i where r: "dlookup n u d name S = Inr (Some (e, ofs), S\<lparr>base := s1\<rparr>)" "e_sector e = x"
    "inode_open x s1 = Inr (q, s2)" "write_entry n p (e\<lparr>e_in_use := False\<rparr>) ofs s2 = Inr (20, s3)"
    "opens ?s s3" "dir_ok s3 p dd" "dmap (entries s3 dd) = (dcont S dd)(name := None)"
    "\<forall>z. z \<notin> data_sectors dd \<longrightarrow> sect s3 z = sect ?s z" "x < sector_cap ?s"
    "q \<noteq> 0" "q \<in> sset (mallocs ?s)" "open_inodes s3 = q # open_inodes ?s" "inodes s3 q = Some i"
    "open_cnt i = 1" "i_sector i = x" "i_data i = disk_of_bytes (sect ?s x)"
    using erase_name [OF dir name n(1,2) opn(2), of u] by blast
  obtain fj where fj: "free_map_ok s3 fj" "i_data fj = i_data fi" using free_map_ok_opens [OF fm(1) r(5) fm(2)] by blast
  have k3: "fs_ok s3" "0 \<notin> sset (mallocs s3)" "used s3 = used ?s" "sector_cap s3 = sector_cap ?s"
    using r(5,6) by (auto simp: opens_def dir_ok_def)
  have "\<forall>f. files s3 (free_map_file s3) = Some f \<longrightarrow> f_inode f \<noteq> q" using fm(2) r(5,11) by (auto simp: opens_def)
  then obtain s4 s5 where s5: "inode_remove q s3 = Inr s4" "inode_close n q s4 = Inr s5" "fs_ok s5" "inodes s5 = (inodes s3)(q := None)"
    "open_inodes s5 = open_inodes ?s" "sector_cap s5 = sector_cap s3" "later (mallocs s3) (mallocs s5)"
    "used s5 = used ?s - {unat x}" "\<forall>z. z \<notin> own_sectors fi \<longrightarrow> sect s5 z = sect s3 z"
    using close_removed [OF k3(1) fj(1) k3(2) _ r(10,13,14), of n] n(3) x r(9,12,15,16) k3(3,4) fj(2) by auto
  obtain pi where pi: "small_file s3 p pi" "i_data pi = dd" "deny_write_cnt pi = 0" using r(6) by (auto simp: dir_ok_def)
  have pq: "p \<noteq> q" using y(5) r(11) by (auto simp: dir_ok_def)
  have es5: "entries s5 dd = entries s3 dd" using entries_kept [OF pi(1), of s5] s5(9) disj pi(2) by blast
  have ss: "sset (mallocs s5) \<subseteq> sset (mallocs s3)" using later_sset [OF s5(7)] .
  have "small_file s5 p pi" using pi(1) s5(4,6) pq by (simp add: small_file_def)
  moreover have "open_ok s5"
    using r(6,12) opn(1) r(11) s5(4,5) by (auto simp: open_ok_def dir_ok_def)
  ultimately have "dir_ok s5 p dd" using r(6) s5(3,6) es5 ss pi(2,3) by (auto simp: dir_ok_def)
  moreover have "d \<notin> sset (mallocs s5)" using y(4) r(5) ss by (auto simp: opens_def)
  ultimately have "dir_at (S\<lparr>base := s5\<rparr>) d p dd" using y(1-3) by (auto simp: dir_at_def)
  moreover have "dir_remove n u d name S = Inr (True, S\<lparr>base := s5\<rparr>)"
    using r(1-4,10) s5(1,2) y(1-3) by (simp add: dir_remove_def on_fs_def get_dirp_def)
  ultimately show ?thesis using es5 r(7,8) s5(8,9) by auto
qed

section \<open>Removing a path\<close>

definition no_empty :: "fsys \<Rightarrow> bool" where
  "no_empty S \<longleftrightarrow> (\<forall>d x. dirs S d = Some x \<longrightarrow> \<not> d_empty x)"

lemma on_fs_dirs: "on_fs f S = Inr (x, S') \<Longrightarrow> dirs S' = dirs S"
  by (auto simp: on_fs_def ebind_eq_Inr)

lemma dir_lookup_dirs: "dir_lookup n u d name S = Inr (p, S') \<Longrightarrow> dirs S' = dirs S"
  by (auto simp: dir_lookup_def dlookup_def ebind_eq_Inr split: option.splits dest!: on_fs_dirs)

lemma dir_open_no_empty: "dir_open n p S = Inr (d, S') \<Longrightarrow> no_empty S \<Longrightarrow> no_empty S'"
  by (auto simp: dir_open_def no_empty_def set_dirp_def Let_def ebind_eq_Inr split: prod.splits if_splits)

lemma dir_open_root_no_empty: "dir_open_root n S = Inr (d, S') \<Longrightarrow> no_empty S \<Longrightarrow> no_empty S'"
proof -
  assume "dir_open_root n S = Inr (d, S')" and S: "no_empty S"
  then obtain p S1 where "on_fs (inode_open ROOT_DIR_SECTOR) S = Inr (p, S1)" "dir_open n p S1 = Inr (d, S')"
    by (auto simp: dir_open_root_def ebind_eq_Inr)
  then show "no_empty S'" using S on_fs_dirs dir_open_no_empty by (metis no_empty_def)
qed

lemma walk_no_empty: "walk n u ci ts d S = Inr (r, S') \<Longrightarrow> no_empty S \<Longrightarrow> no_empty S'"
proof (induction ts arbitrary: d S)
  case (Cons t ts)
  obtain p S1 where l: "dir_lookup n u d t S = Inr (p, S1)" using Cons.prems(1) by (auto simp: ebind_eq_Inr)
  then have "no_empty S1" using dir_lookup_dirs Cons.prems(2) by (simp add: no_empty_def)
  then show ?case
    using Cons.prems(1) Cons.IH l dir_open_no_empty by (auto simp: ebind_eq_Inr split: if_splits)
qed simp

lemma get_dir_no_empty:
  assumes "get_dir n u cur path S = Inr (d, S')" "no_empty S"
  shows "no_empty S'"
proof -
  obtain b s where b: "fs_malloc (base S) = (b, s)" by fastforce
  define S1 where "S1 = set_dirp b \<lparr>d_empty = False, dir_inode = 0, dir_pos = - 1, dir_name = []\<rparr> (S\<lparr>base := s\<rparr>)"
  obtain c S2 where S2: "(if path \<noteq> [] \<and> hd path = slash then dir_open_root n S1 else Inr (cur, S1)) = Inr (c, S2)"
    using assms(1) b by (auto simp: get_dir_def ebind_eq_Inr S1_def Let_def split: if_splits)
  have "no_empty S1" using assms(2) by (simp add: S1_def no_empty_def set_dirp_def)
  then have n2: "no_empty S2" using S2 dir_open_root_no_empty by (auto split: if_splits)
  obtain ci s2 where ci: "fs_malloc (base S2) = (ci, s2)" by fastforce
  obtain s3 r S3 where w: "walk n u ci (tokens [slash] path) c (S2\<lparr>base := s3\<rparr>) = Inr (r, S3)"
    "S' = (case r of None \<Rightarrow> S3 | Some d \<Rightarrow> S3\<lparr>dirs := (dirs S3)(b := None)\<rparr>)"
    using assms(1) b S2 ci by (auto simp: get_dir_def ebind_eq_Inr S1_def [symmetric] Let_def split: if_splits option.splits)
  have "no_empty S3" using walk_no_empty [OF w(1)] n2 by (simp add: no_empty_def)
  then show ?thesis using w(2) by (auto simp: no_empty_def split: option.splits)
qed

end
