(* ===== verification/Dir_Props.thy ===== *)
theory Dir_Props
  imports Dir_Create
begin

text \<open>
  What the operations of \<open>src/filesys/directory.c\<close> do to a directory, and \<open>filesys_remove\<close> of \<open>src/filesys/filesys.c\<close>.
\<close>

section \<open>Properties\<close>

text \<open>The file system of theory \<open>Inode_Alloc\<close> with an open directory in sector 3: it has room for two entries and holds the
  name \<open>a\<close>, for sector 6.\<close>

definition wentry :: dir_entry where
  "wentry = \<lparr>e_sector = 6, e_name = 97 # replicate 14 0, e_in_use = True\<rparr>"

definition wdir_inode :: "int \<Rightarrow> inode" where
  "wdir_inode len = \<lparr>i_sector = 4, open_cnt = 1, removed = False, deny_write_cnt = 0,
     i_data = \<lparr>d_start = 0, d_length = len, d_magic = INODE_MAGIC, d_sectors = 3 # replicate 124 0\<rparr>, is_dir = - 1\<rparr>"

definition wdir_fs :: "int \<Rightarrow> fs" where
  "wdir_fs len = wmap_fs\<lparr>devs := wblocks\<lparr>media := (\<lambda>_ x. if x = 13 then entry_bytes wentry @ replicate 492 0 else replicate 512 0)\<rparr>,
     inodes := [50 \<mapsto> wmap_inode, 100 \<mapsto> wdir_inode len], open_inodes := [100, 50]\<rparr>"

definition wdir :: "int \<Rightarrow> fsys" where
  "wdir len = \<lparr>base = wdir_fs len, dirs = [7 \<mapsto> \<lparr>d_empty = False, dir_inode = 100, dir_pos = 0, dir_name = []\<rparr>], created = 0\<rparr>"

definition wundef :: undef where
  "wundef = \<lparr>u_entry = blank, u_ptr = 400, u_store = (\<lambda>v S. Inr S)\<rparr>"

lemma wdir_sect:
  "x < 20 \<Longrightarrow> sect (wdir_fs len) x = (if x = 3 then entry_bytes wentry @ replicate 492 0 else replicate 512 0)"
proof -
  assume x: "x < 20"
  have "10 + x = 13 \<longleftrightarrow> x = 3" using add_left_cancel [of 10 x 3] by simp
  then show ?thesis using x by (simp add: sect_def wdir_fs_def wmap_fs_def content_def wblocks_def block_size_def)
qed

lemma wentry_bytes: "length (entry_bytes wentry) = 20" "entry_of (entry_bytes wentry) = wentry" "ename wentry = [97]"
  by (simp_all add: wentry_def ename_def)

lemma wdir_fs_ok: "fs_ok (wdir_fs len)" "sector_cap (wdir_fs len) = 20" "0 \<notin> sset (mallocs (wdir_fs len))"
  "sset (mallocs (wdir_fs len)) = {200}" "open_ok (wdir_fs len)"
proof -
  show cap: "sector_cap (wdir_fs len) = 20" by (simp add: sector_cap_def wdir_fs_def wmap_fs_def wblocks_def block_size_def)
  have "same_shape wblocks (devs (wdir_fs len))" by (simp add: same_shape_def wdir_fs_def)
  then have "blocks_wf (devs (wdir_fs len))" "writable 3 (devs (wdir_fs len)) 5 = writable 3 wblocks 5"
    using wblocks_wf same_shape_wf same_shape_writable by blast+
  then have "device_ok 5 (devs (wdir_fs len))" using wblocks_ok(2) by (simp add: device_ok_def wdir_fs_def wblocks_def)
  then show "fs_ok (wdir_fs len)" using cap wdir_sect wentry_bytes(1) by (simp add: fs_ok_def) (simp add: wdir_fs_def wmap_fs_def)
  show "0 \<notin> sset (mallocs (wdir_fs len))" "sset (mallocs (wdir_fs len)) = {200}" "open_ok (wdir_fs len)"
    by (simp_all add: wdir_fs_def wmap_fs_def open_ok_def)
qed

lemma wdir_entries:
  "entries (wdir_fs 40) (i_data (wdir_inode 40)) = [wentry, blank]" "entries (wdir_fs 20) (i_data (wdir_inode 20)) = [wentry]"
proof -
  have "sect (wdir_fs len) 3 = entry_bytes wentry @ replicate 492 0" for len using wdir_sect [of 3 len] by simp
  moreover have "d_sectors (i_data (wdir_inode len)) ! 0 = 3" for len by (simp add: wdir_inode_def)
  ultimately have b: "file_bytes (wdir_fs len) (i_data (wdir_inode len)) (20 * k) 20 =
      take 20 (drop (20 * k) (entry_bytes wentry @ replicate 492 0))" if "k < 2" for len k
    using file_bytes_sector [of "20 * k" 20 "wdir_fs len" "i_data (wdir_inode len)"] that wentry_bytes(1) by simp
  have "entry_at (wdir_fs len) (i_data (wdir_inode len)) 0 = wentry" for len
    using b [of 0 len] wentry_bytes(1,2) by (simp add: entry_at_def)
  moreover have "entry_at (wdir_fs len) (i_data (wdir_inode len)) (Suc 0) = blank" for len
    using b [of 1 len] wentry_bytes(1) entry_of_zeros by (simp add: entry_at_def min_def)
  ultimately show "entries (wdir_fs 40) (i_data (wdir_inode 40)) = [wentry, blank]"
    "entries (wdir_fs 20) (i_data (wdir_inode 20)) = [wentry]"
    by (simp_all add: entries_def wdir_inode_def numeral_2_eq_2)
qed

lemma wdir_at: "dir_at (wdir 40) 7 100 (i_data (wdir_inode 40))" "dir_at (wdir 20) 7 100 (i_data (wdir_inode 20))"
proof -
  have b: "bytes_to_sectors 40 = 1" "bytes_to_sectors 20 = 1" by (simp_all add: bytes_to_sectors_def)
  have "small_file (wdir_fs 40) 100 (wdir_inode 40)" "small_file (wdir_fs 20) 100 (wdir_inode 20)"
    using b wdir_fs_ok(2) by (simp_all add: small_file_def wdir_inode_def) (simp_all add: wdir_fs_def wdir_inode_def)
  moreover have "deny_write_cnt (wdir_inode len) = 0" for len by (simp add: wdir_inode_def)
  moreover have "entries_ok [wentry, blank]" "entries_ok [wentry]" "e_sector wentry < 20"
    by (simp_all add: entries_ok_def wentry_def blank_def)
  ultimately have "dir_ok (wdir_fs 40) 100 (i_data (wdir_inode 40))" "dir_ok (wdir_fs 20) 100 (i_data (wdir_inode 20))"
    using wdir_fs_ok unfolding dir_ok_def wdir_entries by (auto simp: blank_def)
  then show "dir_at (wdir 40) 7 100 (i_data (wdir_inode 40))" "dir_at (wdir 20) 7 100 (i_data (wdir_inode 20))"
    using wdir_fs_ok(4) by (auto simp: dir_at_def wdir_def)
qed

lemma wundef_harmless: "harmless wundef"
  by (simp add: harmless_def wundef_def)

lemma wdir_cont:
  "dcont (wdir 40) (i_data (wdir_inode 40)) = [[97] \<mapsto> 6]" "dcont (wdir 20) (i_data (wdir_inode 20)) = [[97] \<mapsto> 6]"
  "nat (d_length (i_data (wdir_inode 40))) div 20 = 2" "nat (d_length (i_data (wdir_inode 20))) div 20 = 1"
proof -
  have "dmap [wentry, blank] = [[97] \<mapsto> 6]" "dmap [wentry] = [[97] \<mapsto> 6]"
    using wentry_bytes(3) by (auto simp: dmap_def wentry_def blank_def)
  then show "dcont (wdir 40) (i_data (wdir_inode 40)) = [[97] \<mapsto> 6]" "dcont (wdir 20) (i_data (wdir_inode 20)) = [[97] \<mapsto> 6]"
    using wdir_entries by (simp_all add: wdir_def)
  show "nat (d_length (i_data (wdir_inode 40))) div 20 = 2" "nat (d_length (i_data (wdir_inode 20))) div 20 = 1"
    by (simp_all add: wdir_inode_def)
qed



text \<open>C13.  When all entries of the directory are in use, \<open>dir_add\<close> of a new name does not return: it writes past the end of
  the directory.\<close>

theorem dir_add_full:
  assumes "dir_at S d p dd" "valid_name name" "nat (d_length dd) div 20 < n" "dcont S dd name = None"
    and "\<forall>e\<in>set (entries (base S) dd). e_in_use e"
  shows "\<nexists>r. dir_add n u d name sector S = Inr r"
  by (rule dir_add_full_stuck [OF assms])

theorem dir_add_full_witness: "\<nexists>r. dir_add 30 wundef 7 [98] 9 (wdir 20) = Inr r"
proof -
  have "valid_name [98]" "\<forall>e\<in>set (entries (base (wdir 20)) (i_data (wdir_inode 20))). e_in_use e"
    using wdir_entries(2) by (simp_all add: valid_name_def wdir_def wentry_def)
  then show ?thesis using dir_add_full [OF wdir_at(2), of "[98]" 30 wundef 9] wdir_cont(2,4) by simp
qed

text \<open>C11.  \<open>dir_remove\<close> of a name that is in the directory, and whose inode nobody has open, returns true.  The name is no
  longer in the directory, the other names are; of the sectors in use only that of the inode is given back, not those of
  the data of the file.\<close>

theorem dir_remove_correct:
  assumes "dir_at S d p dd" "0 \<notin> set name" "dcont S dd name = Some x"
    and "nat (d_length dd) div 20 < n" "20 < n" "unat (byte_cnt (sector_cap (base S))) < n"
    and "free_map_ok (base S) fi" "\<forall>f. files (base S) (free_map_file (base S)) = Some f \<longrightarrow> f_inode f \<notin> sset (mallocs (base S))"
    and "set (open_inodes (base S)) \<inter> sset (mallocs (base S)) = {}"
      "\<forall>p\<in>set (open_inodes (base S)). \<exists>i. inodes (base S) p = Some i \<and> i_sector i \<noteq> x"
    and "unat x \<in> used (base S)" "x \<notin> own_sectors fi" "d_start (disk_of_bytes (sect (base S) x)) = 0"
    and "data_sectors dd \<inter> own_sectors fi = {}"
  shows "\<exists>S'. dir_remove n u d name S = Inr (True, S') \<and> dir_at S' d p dd \<and> dcont S' dd = (dcont S dd)(name := None) \<and>
    used (base S') = used (base S) - {unat x} \<and> (\<forall>y. y \<notin> data_sectors dd \<union> own_sectors fi \<longrightarrow> sect (base S') y = sect (base S) y)"
  by (rule dir_remove_ok [OF assms])

lemma wdir_free_map: "free_map_ok (wdir_fs len) wmap_inode" "used (wdir_fs len) = used wmap_fs"
  using wmap_fs_ok(2,4) wdir_fs_ok(2) unfolding free_map_ok_def small_file_def by (auto simp: wdir_fs_def wmap_fs_def)

theorem dir_remove_correct_witness:
  "\<exists>S'. dir_remove 30 wundef 7 [97] (wdir 40) = Inr (True, S') \<and> dcont S' (i_data (wdir_inode 40)) = Map.empty"
proof -
  have b: "bytes_to_sectors 40 = 1" "bytes_to_sectors 4 = 1" by (simp_all add: bytes_to_sectors_def)
  have o: "own_sectors wmap_inode = {2}" "data_sectors (i_data (wdir_inode 40)) = {3}"
    using b by (simp_all add: wmap_inode_def wdir_inode_def)
  have d: "d_start (disk_of_bytes (sect (base (wdir 40)) 6)) = 0"
  proof -
    have "(512 :: nat) = Suc (Suc (Suc (Suc 508)))" by simp
    then have "replicate 512 (0 :: u8) = 0 # 0 # 0 # 0 # replicate 508 0" by (simp only: replicate_Suc)
    moreover have "sect (base (wdir 40)) 6 = replicate 512 0" using wdir_sect [of 6 40] by (simp add: wdir_def)
    ultimately have "sect (base (wdir 40)) 6 = 0 # 0 # 0 # 0 # replicate 508 0" by metis
    then show ?thesis by (simp add: disk_of_bytes_def word_of_le_def)
  qed
  have u: "unat (6 :: u32) \<in> used (base (wdir 40))"
    using wdir_free_map(2) wmap_fs_used(2) by (simp add: wdir_def used_bits_def) (simp add: wmap_fs_def)
  have f: "unat (byte_cnt (sector_cap (base (wdir 40)))) < 30"
    using wdir_fs_ok(2) by (simp add: wdir_def byte_cnt_def elem_cnt_def)
  have r: "\<forall>f. files (base (wdir 40)) (free_map_file (base (wdir 40))) = Some f \<longrightarrow> f_inode f \<notin> sset (mallocs (base (wdir 40)))"
    "set (open_inodes (base (wdir 40))) \<inter> sset (mallocs (base (wdir 40))) = {}"
    "\<forall>p\<in>set (open_inodes (base (wdir 40))). \<exists>i. inodes (base (wdir 40)) p = Some i \<and> i_sector i \<noteq> 6"
    by (simp_all add: wdir_def wdir_fs_def wmap_fs_def wmap_inode_def wdir_inode_def)
  show ?thesis
    using dir_remove_correct [OF wdir_at(1) _ _ _ _ f _ r u, of "[97]" wmap_inode wundef] wdir_cont(1,3) wdir_free_map(1) o d
    by (auto simp: wdir_def)
qed


text \<open>The file system of theory \<open>Inode_Alloc\<close> with a \<open>malloc\<close> that does not return an address twice.\<close>

definition wnew :: fsys where
  "wnew = \<lparr>base = wmap_fs\<lparr>mallocs := siterate Suc 200\<rparr>, dirs = Map.empty, created = 0\<rparr>"

lemma wnew_ok:
  "fs_ok (base wnew)" "free_map_ok (base wnew) wmap_inode" "0 \<notin> sset (mallocs (base wnew))" "inj (snth (mallocs (base wnew)))"
  "open_ok (base wnew)" "sector_cap (base wnew) = 20" "2 \<le> card (free_sectors (base wnew))" "used (base wnew) = used wmap_fs"
proof -
  have e: "sector_cap (base wnew) = sector_cap wmap_fs" "sect (base wnew) = sect wmap_fs" "used (base wnew) = used wmap_fs"
    by (simp_all add: wnew_def sector_cap_def sect_def)
  have f: "files (base wnew) = files wmap_fs" "free_map (base wnew) = free_map wmap_fs" "free_map_file (base wnew) = free_map_file wmap_fs"
    by (simp_all add: wnew_def)
  from e show "sector_cap (base wnew) = 20" "used (base wnew) = used wmap_fs" using wmap_fs_ok(4) by simp_all
  have "device_ok (fs_device (base wnew)) (devs (base wnew)) = device_ok (fs_device wmap_fs) (devs wmap_fs)" by (simp add: wnew_def)
  then show "fs_ok (base wnew)" using wmap_fs_ok(1) e unfolding fs_ok_def by simp
  have "small_file (base wnew) p i = small_file wmap_fs p i" for p i by (simp add: small_file_def e) (simp add: wnew_def)
  note small = this
  show "free_map_ok (base wnew) wmap_inode"
    using wmap_fs_ok(2) unfolding free_map_ok_def e f small by blast
  show "2 \<le> card (free_sectors (base wnew))" using wmap_fs_free e by (simp add: free_sectors_def)
  have "snth (mallocs (base wnew)) = (\<lambda>k. k + 200)" by (simp add: wnew_def fun_eq_iff)
  then show "inj (snth (mallocs (base wnew)))" "0 \<notin> sset (mallocs (base wnew))" by (auto simp: sset_range)
  show "open_ok (base wnew)" by (simp add: wnew_def wmap_fs_def open_ok_def)
qed


text \<open>C12.  \<open>dir_readdir\<close> gives the names of a directory one after the other: from a position at the start of entry \<open>k\<close> it returns the name of
  the first entry in use from there on and moves the position behind it, or returns false if there is none.\<close>

theorem dir_readdir_correct:
  assumes "dir_at S d p dd" "dirs S d = Some x" "dir_pos x = 20 * int k" "k \<le> nat (d_length dd) div 20" "nat (d_length dd) div 20 - k < n"
  shows "\<exists>S'. dir_at S' d p dd \<and> sect (base S') = sect (base S) \<and>
     (case find (\<lambda>j. e_in_use (entries (base S) dd ! j)) [k..<nat (d_length dd) div 20] of
        None \<Rightarrow> dir_readdir n u d S = Inr (None, S')
      | Some j \<Rightarrow> dir_readdir n u d S = Inr (Some (ename (entries (base S) dd ! j)), S') \<and>
          (\<exists>x'. dirs S' d = Some x' \<and> dir_pos x' = 20 * int (Suc j)))"
  using readdir_ok [OF assms, of u] by blast

theorem dir_readdir_correct_witness:
  "\<exists>S' x'. dir_readdir 30 wundef 7 (wdir 40) = Inr (Some [97], S') \<and> dirs S' 7 = Some x' \<and> dir_pos x' = 20"
proof -
  have "dirs (wdir 40) 7 = Some \<lparr>d_empty = False, dir_inode = 100, dir_pos = 0, dir_name = []\<rparr>"
    "entries (base (wdir 40)) (i_data (wdir_inode 40)) = [wentry, blank]"
    using wdir_entries(1) by (simp_all add: wdir_def)
  then show ?thesis
    using dir_readdir_correct [OF wdir_at(1), of _ 0 30 wundef] wdir_cont(3) wentry_bytes(3)
    by (auto simp: upt_rec [of 0] wentry_def)
qed



end
