(* ===== verification/Spec2Isabelle.thy ===== *)
theory Spec2Isabelle
  imports Klist_Sort Serial Arith64 Prng Synch_Sys Hash Pagedir Dir_Props
begin

text \<open>
  A verification of the kernel sources of Pintos in this repository.

  \<^bold>\<open>The program.\<close>  \<open>src/\<close> holds a small operating system kernel in C for a 32-bit x86 machine.  Its library
  (\<open>src/lib\<close>, \<open>src/lib/kernel\<close>) has doubly linked lists, hash tables, bitmaps, strings, formatted output, sorting,
  64-bit arithmetic and random numbers.  \<open>src/threads\<close> has the page allocator, threads with priorities, the scheduler and the
  synchronisation primitives; the run queue, the waiters and the children of a thread are linked lists, the pools of the page allocator
  are bitmaps, and the page of a thread comes from the page allocator.  \<open>src/userprog\<close> maps user pages through page
  directories whose tables also come from the page allocator.  \<open>src/devices\<close> has drivers; bytes of the serial port pass through
  interrupt queues, disks and partitions are block devices.  \<open>src/filesys\<close> keeps files on a block device: a bitmap of the free
  sectors, which is a file itself, and inodes that list the sectors of a file.

  \<^bold>\<open>The theories.\<close>
  \<^item> \<open>Prelude\<close>: the error type, sequencing, machine words, generic list lemmas.
  \<^item> \<open>Klist\<close>, \<open>Klist_Rep\<close>, \<open>Klist_Sort\<close>: \<open>lib/kernel/list.c\<close>.  Memory is a map from addresses to \<open>struct list_elem\<close>; every
    function is one definition of the same name.  \<open>list_rep h l xs\<close> relates a linked list to a HOL list; the lemmas say what each
    operation does to \<open>xs\<close> and that other memory is untouched; \<open>list_sort\<close> is stable and ends.  The locale \<open>strict_weak_order\<close> is
    what a comparison function must satisfy; it is interpreted on \<open>prioritycmp\<close> in \<open>Sched\<close> and extended by \<open>hashing\<close> in \<open>Hash\<close>.
  \<^item> \<open>Bitmap\<close>: \<open>lib/kernel/bitmap.c\<close> on 32-bit words.  The functions are shown equal to ones on lists of truth values (\<open>abits\<close>);
    the locale \<open>region_allocator\<close>, interpreted on bitmaps, is the contract that the page pools and the free map use.
  \<^item> \<open>Hash\<close>: \<open>lib/kernel/hash.c\<close>; a table implements a set, whatever \<open>malloc\<close> answers when it is resized.
  \<^item> \<open>Cstring\<close>, \<open>Stdlib\<close>, \<open>Stdio\<close>: \<open>lib/string.c\<close>, \<open>lib/ctype.h\<close>, \<open>lib/stdlib.c\<close>, \<open>lib/stdio.c\<close> on a byte memory: what is
    written, that nothing else is, termination of strings, sortedness, and that \<open>atoi\<close> reads what \<open>snprintf\<close> prints.
  \<^item> \<open>Arith64\<close>, \<open>Prng\<close>: \<open>lib/arithmetic.c\<close> and \<open>lib/random.c\<close>, with the wrap-around of the words.
  \<^item> \<open>Vaddr\<close>, \<open>Palloc\<close>, \<open>Pagedir\<close>: \<open>threads/vaddr.h\<close>, \<open>threads/pte.h\<close>, \<open>threads/palloc.c\<close>, \<open>userprog/pagedir.c\<close>: pages handed
    out are unused, page tables implement a map from user pages to frames.
  \<^item> \<open>Thread\<close>, \<open>Sched\<close>: \<open>threads/thread.c\<close> and parts of \<open>threads/interrupt.c\<close> and \<open>userprog/process.c\<close>; the kernel state is the record
    \<open>kernel\<close>.  \<open>Sched\<close> has the invariant and that every operation keeps it.
  \<^item> \<open>Synch\<close>, \<open>Synch_Sys\<close>: \<open>threads/synch.c\<close>; \<open>Synch_Sys\<close> interleaves threads by an inductive step relation and shows mutual
    exclusion, that no wakeup is lost, and which calls can fail.
  \<^item> \<open>Intq\<close>, \<open>Serial\<close>: \<open>devices/intq.c\<close>, \<open>devices/serial.c\<close>, \<open>devices/input.c\<close>; the locale \<open>byte_fifo\<close> is the contract of the queue.
  \<^item> \<open>Block\<close>: \<open>devices/block.c\<close>, \<open>devices/partition.c\<close>; the locale \<open>storage\<close> is what the file system uses.
  \<^item> \<open>Inode\<close>, \<open>Inode_Data\<close>, \<open>Inode_Grow\<close>, \<open>Inode_Alloc\<close>: \<open>filesys/inode.c\<close>, \<open>filesys/file.c\<close>, \<open>filesys/free-map.c\<close>.  \<open>Inode_Data\<close>:
    reading and writing within a file; \<open>Inode_Grow\<close>: a write past the end does not return; \<open>Inode_Alloc\<close>: the free map
    and the creation of files.

  \<^bold>\<open>Conventions.\<close>  A failed \<open>ASSERT\<close>, a \<open>PANIC\<close>, a divide error and an access outside any object are values of \<open>kerror\<close>
  (\<open>Inl\<close>); error codes of the source are ordinary results.  \<open>size_t\<close>, pointers and \<open>uint32_t\<close> are 32-bit words, or natural numbers
  where an address only names an object.  Results of \<open>malloc\<close>, answers of devices and the frames of the page allocator are arguments or
  streams, so the theorems hold for all of them.

  \<^bold>\<open>Bounds.\<close>  A loop over a list, a string, or a device register takes a bound on its iterations and is \<open>Out_of_fuel\<close> beyond it.  The
  theorems show that a bound larger than the length of the list or string (by two for \<open>list_sort\<close>), the number of registered devices
  (\<open>Block\<close>), the number of bytes of the free map (\<open>Inode_Alloc\<close>) or the bytes to write (\<open>Inode_Data\<close>) is enough; those that
  show that a loop does not end say so for every bound.

  \<^bold>\<open>Not modelled.\<close>  Machine code and set-up of the processor (\<open>threads/loader.S\<close>, \<open>start.S\<close>, \<open>switch.S\<close>, \<open>intr-stubs.S\<close>, \<open>threads/init.c\<close>,
  \<open>userprog/gdt.c\<close>, \<open>userprog/tss.c\<close>); device registers (\<open>devices/ide.c\<close>, \<open>timer.c\<close>, \<open>pit.c\<close>, \<open>rtc.c\<close>, \<open>kbd.c\<close>, \<open>vga.c\<close>, \<open>speaker.c\<close>,
  \<open>shutdown.c\<close>): a disk is a map from sector numbers to blocks in \<open>Block\<close>; the console and messages; \<open>threads/malloc.c\<close>, whose results are
  arguments; directories and path names (\<open>filesys/directory.c\<close>, \<open>filesys/filesys.c\<close>, \<open>filesys/fsutil.c\<close>); loading of programs
  and system calls (\<open>userprog/process.c\<close>, \<open>syscall.c\<close>, \<open>exception.c\<close>); \<open>lib/ustar.c\<close>; user programs, tests and tools.
\<close>

end
